(* ===== verification/Prelude.thy ===== *)
theory Prelude
  imports Main "HOL-Library.Word" "HOL-Library.Multiset" "HOL-Library.Sublist" "HOL-Library.List_Lexorder" "HOL-Library.Char_ord"
begin

text \<open>
  The shared layer of the development: the types that stand for Go's built-in types, the parts
  of Go's standard library that several components use (\<^verbatim>\<open>encoding/binary\<close>,
  \<^verbatim>\<open>strconv\<close>, \<^verbatim>\<open>strings\<close>, \<^verbatim>\<open>sort\<close>, \<^verbatim>\<open>math/big\<close> byte conversions), and the generic
  lemmas on lists, words and numbers that the component proofs rest on.

  Conventions: a Go \<^verbatim>\<open>[]byte\<close> is a list of 8-bit words, a Go string is a \<open>string\<close>, an
  unsigned machine integer is a word of its width, and a Go \<^verbatim>\<open>int\<close> that stays small is \<open>int\<close>
  or \<open>nat\<close>.  A function that returns a Go \<^verbatim>\<open>error\<close> returns a sum, the error on the left.
\<close>

named_theorems go_lib \<open>facts about the modelled parts of Go's standard library\<close>

section \<open>Types\<close>

type_synonym byte = "8 word"
type_synonym bytes = "8 word list"
type_synonym u8 = "8 word"
type_synonym u16 = "16 word"
type_synonym u32 = "32 word"
type_synonym u64 = "64 word"

section \<open>Bytes, strings and numbers\<close>

text \<open>\<^verbatim>\<open>[]byte(s)\<close> and \<^verbatim>\<open>string(b)\<close>: Go strings are byte sequences, as HOL's are.\<close>

definition bytes_of_string :: "string \<Rightarrow> bytes" where
  "bytes_of_string s = map (\<lambda>c. of_nat (of_char c)) s"

definition string_of_bytes :: "bytes \<Rightarrow> string" where
  "string_of_bytes b = map (\<lambda>w. char_of (unat w)) b"

text \<open>
  \<^verbatim>\<open>binary.BigEndian.PutUintN\<close> writes the low \<open>k\<close> bytes of a number, most significant first;
  \<^verbatim>\<open>binary.BigEndian.UintN\<close> and \<^verbatim>\<open>big.Int.SetBytes\<close> read a big-endian number back.
\<close>

fun be_bytes :: "nat \<Rightarrow> nat \<Rightarrow> bytes" where
  "be_bytes 0 n = []"
| "be_bytes (Suc k) n = be_bytes k (n div 256) @ [of_nat n]"

definition be_nat :: "bytes \<Rightarrow> nat" where
  "be_nat b = foldl (\<lambda>a w. a * 256 + unat w) 0 b"

text \<open>\<^verbatim>\<open>big.Int.Bytes\<close>: the shortest big-endian encoding, empty for zero.\<close>

fun big_bytes :: "nat \<Rightarrow> bytes" where
  "big_bytes n = (if n = 0 then [] else big_bytes (n div 256) @ [of_nat n])"

declare big_bytes.simps [simp del]

text \<open>\<^verbatim>\<open>strconv.Itoa\<close> and \<^verbatim>\<open>%d\<close> on a number that is not negative.\<close>

definition digit_char :: "nat \<Rightarrow> char" where
  "digit_char d = char_of (48 + d)"

fun itoa :: "nat \<Rightarrow> string" where
  "itoa n = (if n < 10 then [digit_char n] else itoa (n div 10) @ [digit_char (n mod 10)])"

declare itoa.simps [simp del]

text \<open>\<^verbatim>\<open>%d\<close> on a Go \<^verbatim>\<open>int\<close>.\<close>

definition itoa_int :: "int \<Rightarrow> string" where
  "itoa_int i = (if i < 0 then ''-'' @ itoa (nat (- i)) else itoa (nat i))"

text \<open>
  \<^verbatim>\<open>strconv.Atoi\<close>: an optional sign and at least one decimal digit, nothing else; a value outside
  the 64-bit range is an error.
\<close>

datatype num_error = ErrSyntax | ErrRange

definition is_digit :: "char \<Rightarrow> bool" where
  "is_digit c \<longleftrightarrow> 48 \<le> (of_char c :: nat) \<and> (of_char c :: nat) \<le> 57"

definition digits_val :: "string \<Rightarrow> nat" where
  "digits_val s = foldl (\<lambda>a c. a * 10 + (of_char c - 48)) 0 s"

definition atoi :: "string \<Rightarrow> num_error + int" where
  "atoi s =
     (let neg = (s \<noteq> [] \<and> hd s = CHR ''-'');
          ds = (if s \<noteq> [] \<and> (hd s = CHR ''-'' \<or> hd s = CHR ''+'') then tl s else s)
      in if ds = [] \<or> \<not> list_all is_digit ds then Inl ErrSyntax
         else let v = (if neg then - int (digits_val ds) else int (digits_val ds))
              in if v < - (2 ^ 63) \<or> 2 ^ 63 \<le> v then Inl ErrRange else Inr v)"

text \<open>Arithmetic on a Go \<^verbatim>\<open>int\<close> wraps at 64 bits.\<close>

definition wrap_int :: "int \<Rightarrow> int" where
  "wrap_int i = (i + 2 ^ 63) mod 2 ^ 64 - 2 ^ 63"

section \<open>sort.Slice on short slices\<close>

text \<open>
  \<^verbatim>\<open>sort.Slice\<close> runs an insertion sort on slices of at most twelve elements: element \<open>i\<close> is
  swapped towards the front while it is less than its left neighbour.  \<open>ins_left\<close> is that
  inner loop, on the reversed prefix.
\<close>

fun ins_left :: "('a \<Rightarrow> 'a \<Rightarrow> bool) \<Rightarrow> 'a \<Rightarrow> 'a list \<Rightarrow> 'a list" where
  "ins_left lt x [] = [x]"
| "ins_left lt x (y # ys) = (if lt x y then y # ins_left lt x ys else x # y # ys)"

definition go_sort :: "('a \<Rightarrow> 'a \<Rightarrow> bool) \<Rightarrow> 'a list \<Rightarrow> 'a list" where
  "go_sort lt xs = rev (foldl (\<lambda>acc x. ins_left lt x acc) [] xs)"

section \<open>Lemmas on bytes and numbers\<close>

lemma length_be_bytes [simp, go_lib]: "length (be_bytes k n) = k"
  by (induction k arbitrary: n) auto

lemma be_nat_Nil [simp]: "be_nat [] = 0"
  by (simp add: be_nat_def)

lemma be_nat_snoc [simp]: "be_nat (b @ [w]) = be_nat b * 256 + unat w"
  by (simp add: be_nat_def)

lemma unat_of_nat_byte: "unat (of_nat n :: byte) = n mod 256"
  by (simp add: unat_of_nat)

lemma be_nat_be_bytes [go_lib]: "be_nat (be_bytes k n) = n mod 256 ^ k"
proof (induction k arbitrary: n)
  case 0
  show ?case by simp
next
  case (Suc k)
  have "be_nat (be_bytes (Suc k) n) = (n div 256) mod 256 ^ k * 256 + n mod 256"
    by (simp add: Suc.IH unat_of_nat_byte)
  also have "\<dots> = n mod (256 * 256 ^ k)"
    by (simp add: mod_mult2_eq)
  finally show ?case by simp
qed

lemma be_bytes_inj:
  assumes "be_bytes k m = be_bytes k n" "m < 256 ^ k" "n < 256 ^ k"
  shows "m = n"
  using arg_cong [OF assms(1), of be_nat] assms(2,3) by (simp add: be_nat_be_bytes)

lemma be_nat_big_bytes [go_lib]: "be_nat (big_bytes n) = n"
proof (induction n rule: big_bytes.induct)
  case (1 n)
  show ?case
    using 1 by (cases "n = 0") (simp_all add: big_bytes.simps [of n] big_bytes.simps [of 0] unat_of_nat_byte)
qed

lemma string_of_bytes_of_string [simp, go_lib]: "string_of_bytes (bytes_of_string s) = s"
proof -
  have "char_of (unat (of_nat (of_char c) :: byte)) = c" for c
  proof -
    have "(of_char c :: nat) < 256" by simp
    then show ?thesis by (simp add: unat_of_nat_byte)
  qed
  then show ?thesis
    by (simp add: string_of_bytes_def bytes_of_string_def comp_def)
qed

lemma bytes_of_string_inj: "bytes_of_string s = bytes_of_string t \<longleftrightarrow> s = t"
  by (metis string_of_bytes_of_string)

lemma length_bytes_of_string [simp]: "length (bytes_of_string s) = length s"
  by (simp add: bytes_of_string_def)

section \<open>Lemmas on decimal strings\<close>

lemma digit_char_nat: "d < 10 \<Longrightarrow> (of_char (digit_char d) :: nat) = 48 + d"
  by (simp add: digit_char_def)

lemma is_digit_digit_char: "d < 10 \<Longrightarrow> is_digit (digit_char d)"
  by (simp add: is_digit_def digit_char_nat)

lemma digits_val_snoc: "digits_val (s @ [c]) = digits_val s * 10 + (of_char c - 48)"
  by (simp add: digits_val_def)

lemma itoa_nonempty [simp]: "itoa n \<noteq> []"
  by (subst itoa.simps) simp

lemma itoa_digits [go_lib]: "list_all is_digit (itoa n)"
proof (induction n rule: itoa.induct)
  case (1 n)
  then show ?case
    by (cases "n < 10") (simp_all add: itoa.simps [of n] is_digit_digit_char)
qed

lemma digits_val_itoa [go_lib]: "digits_val (itoa n) = n"
proof (induction n rule: itoa.induct)
  case (1 n)
  show ?case
  proof (cases "n < 10")
    case True
    then show ?thesis by (simp add: itoa.simps [of n] digits_val_def digit_char_nat)
  next
    case False
    with 1 have "digits_val (itoa (n div 10)) = n div 10" by simp
    with False show ?thesis
      by (simp add: itoa.simps [of n] digits_val_snoc digit_char_nat)
  qed
qed

lemma itoa_inj [simp]: "itoa m = itoa n \<longleftrightarrow> m = n"
  by (metis digits_val_itoa)

lemma is_digit_hd_itoa: "is_digit (hd (itoa n))"
  using itoa_digits [of n] itoa_nonempty [of n] by (cases "itoa n") auto

lemma atoi_itoa [go_lib]: "n < 2 ^ 63 \<Longrightarrow> atoi (itoa n) = Inr (int n)"
proof -
  assume n: "n < 2 ^ 63"
  have nosign: "hd (itoa n) \<noteq> CHR ''-''" "hd (itoa n) \<noteq> CHR ''+''"
    using is_digit_hd_itoa [of n] by (auto simp: is_digit_def)
  have "int n < 2 ^ 63" using n by simp
  then show ?thesis
    using nosign itoa_digits [of n] by (simp add: atoi_def digits_val_itoa)
qed

lemma wrap_int_id: "- (2 ^ 63) \<le> i \<Longrightarrow> i < 2 ^ 63 \<Longrightarrow> wrap_int i = i"
  by (simp add: wrap_int_def)

text \<open>
  A decimal number ends where the first other character stands: two numbers followed by
  non-digits agree only if the numbers and the rests do.
\<close>

lemma digits_then_rest:
  assumes "list_all is_digit s" "list_all is_digit t" "\<not> is_digit c" "\<not> is_digit d"
    "s @ c # xs = t @ d # ys"
  shows "s = t \<and> c = d \<and> xs = ys"
  using assms
proof (induction s arbitrary: t)
  case Nil
  then show ?case by (cases t) auto
next
  case (Cons a s)
  then show ?case by (cases t) auto
qed

lemma itoa_then_rest:
  assumes "itoa m @ c # xs = itoa n @ d # ys" "\<not> is_digit c" "\<not> is_digit d"
  shows "m = n \<and> c = d \<and> xs = ys"
  using digits_then_rest [OF itoa_digits itoa_digits assms(2,3,1)] by simp

section \<open>Lemmas on the insertion sort\<close>

lemma mset_ins_left [simp]: "mset (ins_left lt x ys) = add_mset x (mset ys)"
  by (induction ys) auto

lemma mset_fold_ins_left: "mset (foldl (\<lambda>acc x. ins_left lt x acc) acc xs) = mset xs + mset acc"
  by (induction xs arbitrary: acc) auto

lemma mset_go_sort [simp, go_lib]: "mset (go_sort lt xs) = mset xs"
  by (simp add: go_sort_def mset_fold_ins_left)

lemma set_go_sort [simp, go_lib]: "set (go_sort lt xs) = set xs"
  by (metis mset_go_sort set_mset_mset)

lemma length_go_sort [simp, go_lib]: "length (go_sort lt xs) = length xs"
  by (metis mset_go_sort size_mset)

lemma distinct_go_sort [simp, go_lib]: "distinct (go_sort lt xs) = distinct xs"
  by (metis mset_go_sort mset_eq_imp_distinct_iff)

text \<open>
  What \<^verbatim>\<open>sort.Slice\<close> asks of its \<open>less\<close> function: a strict weak ordering.  Every comparison
  function that the program passes is an instance; a \<open>less\<close> that is also total sorts any
  permutation of the input to the same list, so map iteration order cannot show through it.
\<close>

locale less_fun =
  fixes lt :: "'a \<Rightarrow> 'a \<Rightarrow> bool"
  assumes lt_asym: "lt x y \<Longrightarrow> \<not> lt y x"
    and lt_neg_trans: "\<not> lt x y \<Longrightarrow> \<not> lt y z \<Longrightarrow> \<not> lt x z"
begin

lemma lt_irrefl: "\<not> lt x x"
  using lt_asym by blast

lemma set_ins_left: "set (ins_left lt x ys) = insert x (set ys)"
  by (induction ys) auto

lemma sorted_ins_left:
  "sorted_wrt (\<lambda>a b. \<not> lt a b) ys \<Longrightarrow> sorted_wrt (\<lambda>a b. \<not> lt a b) (ins_left lt x ys)"
proof (induction ys)
  case Nil
  then show ?case by simp
next
  case (Cons y ys)
  then show ?case
    by (auto simp: set_ins_left dest: lt_asym) (metis lt_neg_trans)
qed

lemma sorted_fold_ins_left:
  "sorted_wrt (\<lambda>a b. \<not> lt a b) acc \<Longrightarrow>
   sorted_wrt (\<lambda>a b. \<not> lt a b) (foldl (\<lambda>acc x. ins_left lt x acc) acc xs)"
  by (induction xs arbitrary: acc) (auto intro: sorted_ins_left)

lemma sorted_go_sort: "sorted_wrt (\<lambda>a b. \<not> lt b a) (go_sort lt xs)"
  using sorted_fold_ins_left [of "[]" xs] by (simp add: go_sort_def sorted_wrt_rev)

end

locale total_less_fun = less_fun lt for lt :: "'a \<Rightarrow> 'a \<Rightarrow> bool" +
  assumes lt_total: "\<not> lt x y \<Longrightarrow> \<not> lt y x \<Longrightarrow> x = y"
begin

lemma sorted_unique:
  assumes "sorted_wrt (\<lambda>a b. \<not> lt b a) xs" "sorted_wrt (\<lambda>a b. \<not> lt b a) ys" "mset xs = mset ys"
  shows "xs = ys"
  using assms
proof (induction xs arbitrary: ys)
  case Nil
  then show ?case by simp
next
  case (Cons x xs)
  then obtain y zs where ys: "ys = y # zs" by (cases ys) auto
  have "x \<in> set (y # zs)" "y \<in> set (x # xs)"
    using Cons.prems(3) ys by (metis list.set_intros(1) set_mset_mset)+
  with Cons.prems(1,2) ys have "x = y"
    by (auto intro: lt_total)
  with Cons ys show ?case by simp
qed

lemma go_sort_perm: "mset xs = mset ys \<Longrightarrow> go_sort lt xs = go_sort lt ys"
  by (rule sorted_unique) (simp_all add: sorted_go_sort)

lemma go_sort_id: "sorted_wrt (\<lambda>a b. \<not> lt b a) xs \<Longrightarrow> go_sort lt xs = xs"
  by (rule sorted_unique) (simp_all add: sorted_go_sort)

end

text \<open>Every linear order gives such a function, ascending; \<^verbatim>\<open>sort.Strings\<close> is this instance at strings.\<close>

interpretation asc: total_less_fun "(<) :: 'a::linorder \<Rightarrow> 'a \<Rightarrow> bool"
  by unfold_locales auto

lemma sorted_go_sort_asc: "sorted (go_sort (<) (xs :: 'a::linorder list))"
  using asc.sorted_go_sort [of xs] by (simp add: not_less)

interpretation desc: total_less_fun "(>) :: 'a::linorder \<Rightarrow> 'a \<Rightarrow> bool"
  by unfold_locales auto

lemma sorted_desc_unique:
  fixes xs ys :: "'a::linorder list"
  assumes "sorted_wrt (\<ge>) xs" "sorted_wrt (\<ge>) ys" "mset xs = mset ys"
  shows "xs = ys"
  using desc.sorted_unique [of xs ys] assms by (simp add: not_less)

section \<open>Lemmas on subsequences\<close>

lemma subseq_mset: "subseq xs ys \<Longrightarrow> mset xs \<subseteq># mset ys"
proof (induction rule: list_emb.induct)
  case (list_emb_Cons xs ys y)
  moreover have "mset ys \<subseteq># mset (y # ys)" by simp
  ultimately show ?case by (blast intro: subset_mset.order_trans)
qed auto

lemma mset_subseq:
  assumes "M \<subseteq># mset ys"
  shows "\<exists>h. subseq h ys \<and> mset h = M"
  using assms
proof (induction ys arbitrary: M)
  case Nil
  then show ?case by auto
next
  case (Cons y ys)
  show ?case
  proof (cases "y \<in># M")
    case True
    then obtain N where M: "M = add_mset y N" by (metis insert_DiffM)
    with Cons.prems obtain h where "subseq h ys" "mset h = N"
      using Cons.IH by auto
    with M show ?thesis by (intro exI [of _ "y # h"]) auto
  next
    case False
    with Cons.prems have "M \<subseteq># mset ys"
      by (metis add_mset_remove_trivial diff_single_trivial mset.simps(2) subset_eq_diff_conv
          add_mset_add_single)
    then show ?thesis using Cons.IH by blast
  qed
qed

lemma subseq_of_perm:
  assumes "mset xs = mset ys" "subseq g xs"
  shows "\<exists>h. subseq h ys \<and> mset h = mset g"
  using mset_subseq [of "mset g" ys] subseq_mset [OF assms(2)] assms(1) by simp

end
