(* ===== verification/Cards.thy ===== *)
theory Cards
  imports Prelude
begin

text \<open>
  \<^verbatim>\<open>internal/card/card.go\<close>: suits, ranks and cards, their display strings, the deck index in
  \<open>[0, 52)\<close> and the 1-based decimal wire string.  \<^verbatim>\<open>Suit\<close> and \<^verbatim>\<open>Rank\<close> are Go \<^verbatim>\<open>uint8\<close>
  types with named constants, so values outside the named range exist and the display functions
  answer \<open>?\<close> for them; \<open>valid_card\<close> singles out the 52 real cards.
\<close>

section \<open>Suits\<close>

type_synonym Suit = u8

abbreviation (input) Clubs :: Suit where "Clubs \<equiv> 0"
abbreviation (input) Diamonds :: Suit where "Diamonds \<equiv> 1"
abbreviation (input) Hearts :: Suit where "Hearts \<equiv> 2"
abbreviation (input) Spades :: Suit where "Spades \<equiv> 3"

definition Suit_String :: "Suit \<Rightarrow> string" where
  "Suit_String s =
     (if s = Clubs then ''C'' else if s = Diamonds then ''D''
      else if s = Hearts then ''H'' else if s = Spades then ''S'' else ''?'')"

text \<open>The symbols U+2663, U+2666, U+2665, U+2660 as their UTF-8 bytes.\<close>

definition Suit_Symbol :: "Suit \<Rightarrow> string" where
  "Suit_Symbol s =
     (if s = Clubs then [CHR 0xE2, CHR 0x99, CHR 0xA3]
      else if s = Diamonds then [CHR 0xE2, CHR 0x99, CHR 0xA6]
      else if s = Hearts then [CHR 0xE2, CHR 0x99, CHR 0xA5]
      else if s = Spades then [CHR 0xE2, CHR 0x99, CHR 0xA0] else ''?'')"

definition Suit_Name :: "Suit \<Rightarrow> string" where
  "Suit_Name s =
     (if s = Clubs then ''Clubs'' else if s = Diamonds then ''Diamonds''
      else if s = Hearts then ''Hearts'' else if s = Spades then ''Spades'' else ''?'')"

section \<open>Ranks\<close>

type_synonym Rank = u8

abbreviation (input) Two :: Rank where "Two \<equiv> 0"
abbreviation (input) Three :: Rank where "Three \<equiv> 1"
abbreviation (input) Four :: Rank where "Four \<equiv> 2"
abbreviation (input) Five :: Rank where "Five \<equiv> 3"
abbreviation (input) Six :: Rank where "Six \<equiv> 4"
abbreviation (input) Seven :: Rank where "Seven \<equiv> 5"
abbreviation (input) Eight :: Rank where "Eight \<equiv> 6"
abbreviation (input) Nine :: Rank where "Nine \<equiv> 7"
abbreviation (input) Ten :: Rank where "Ten \<equiv> 8"
abbreviation (input) Jack :: Rank where "Jack \<equiv> 9"
abbreviation (input) Queen :: Rank where "Queen \<equiv> 10"
abbreviation (input) King :: Rank where "King \<equiv> 11"
abbreviation (input) Ace :: Rank where "Ace \<equiv> 12"

definition Rank_Short :: "Rank \<Rightarrow> string" where
  "Rank_Short r =
     (let chars = ''23456789TJQKA''
      in if length chars \<le> unat r then ''?'' else [chars ! unat r])"

definition Rank_Name :: "Rank \<Rightarrow> string" where
  "Rank_Name r =
     (if r = Two then ''Two'' else if r = Three then ''Three'' else if r = Four then ''Four''
      else if r = Five then ''Five'' else if r = Six then ''Six'' else if r = Seven then ''Seven''
      else if r = Eight then ''Eight'' else if r = Nine then ''Nine'' else if r = Ten then ''Ten''
      else if r = Jack then ''Jack'' else if r = Queen then ''Queen'' else if r = King then ''King''
      else if r = Ace then ''Ace'' else ''?'')"

definition Rank_Plural :: "Rank \<Rightarrow> string" where
  "Rank_Plural r = (if r = Six then ''Sixes'' else Rank_Name r @ ''s'')"

section \<open>Cards\<close>

record Card =
  Suit :: Suit
  Rank :: Rank

text \<open>The zero value \<^verbatim>\<open>Card{}\<close>.\<close>

definition zero_card :: Card where
  "zero_card = \<lparr>Suit = 0, Rank = 0\<rparr>"

definition Card_Short :: "Card \<Rightarrow> string" where
  "Card_Short c = Rank_Short (Rank c) @ Suit_String (Suit c)"

definition Card_Pretty :: "Card \<Rightarrow> string" where
  "Card_Pretty c = Rank_Short (Rank c) @ Suit_Symbol (Suit c)"

definition Card_String :: "Card \<Rightarrow> string" where
  "Card_String c = Card_Short c"

definition Card_Int :: "Card \<Rightarrow> int" where
  "Card_Int c = uint (Suit c) * 13 + uint (Rank c)"

datatype card_error =
    CardIntOutOfRange int
  | CardParse string num_error
  | BestTooFew nat
  | BestTooMany nat
  | DuplicateCard Card

definition FromInt :: "int \<Rightarrow> card_error + Card" where
  "FromInt i =
     (if i < 0 \<or> 52 \<le> i then Inl (CardIntOutOfRange i)
      else Inr \<lparr>Suit = of_int (i div 13), Rank = of_int (i mod 13)\<rparr>)"

definition ParseDeckString :: "string \<Rightarrow> card_error + Card" where
  "ParseDeckString s =
     (case atoi s of Inl e \<Rightarrow> Inl (CardParse s e) | Inr i \<Rightarrow> FromInt (wrap_int (i - 1)))"

definition DeckString :: "Card \<Rightarrow> string" where
  "DeckString c = itoa_int (Card_Int c + 1)"

fun ParseDeckStrings :: "string list \<Rightarrow> card_error + Card list" where
  "ParseDeckStrings [] = Inr []"
| "ParseDeckStrings (s # ss) =
     (case ParseDeckString s of
        Inl e \<Rightarrow> Inl e
      | Inr c \<Rightarrow> (case ParseDeckStrings ss of Inl e \<Rightarrow> Inl e | Inr cs \<Rightarrow> Inr (c # cs)))"

text \<open>The 52 real cards.\<close>

definition valid_card :: "Card \<Rightarrow> bool" where
  "valid_card c \<longleftrightarrow> Suit c < 4 \<and> Rank c < 13"

section \<open>Lemmas\<close>

lemma valid_card_uint: "valid_card c \<longleftrightarrow> uint (Suit c) < 4 \<and> uint (Rank c) < 13"
  by (simp add: valid_card_def word_less_def)

lemma Card_Int_bounds: "valid_card c \<Longrightarrow> 0 \<le> Card_Int c \<and> Card_Int c < 52"
  by (auto simp: valid_card_uint Card_Int_def)

lemma uint_of_int_byte: "0 \<le> i \<Longrightarrow> i < 256 \<Longrightarrow> uint (of_int i :: u8) = i"
  by (simp add: uint_word_of_int)

lemma FromInt_valid: "FromInt i = Inr c \<Longrightarrow> valid_card c"
  by (auto simp: FromInt_def valid_card_uint uint_of_int_byte split: if_splits)

lemma FromInt_Int: "FromInt i = Inr c \<Longrightarrow> Card_Int c = i"
  by (auto simp: FromInt_def Card_Int_def uint_of_int_byte split: if_splits)

lemma Int_FromInt:
  assumes "valid_card c"
  shows "FromInt (Card_Int c) = Inr c"
proof -
  have r: "uint (Rank c) < 13" using assms by (simp add: valid_card_uint)
  have "Card_Int c div 13 = uint (Suit c)" "Card_Int c mod 13 = uint (Rank c)"
    using r by (simp_all add: Card_Int_def)
  then have "(of_int (Card_Int c div 13) :: u8) = Suit c" "(of_int (Card_Int c mod 13) :: u8) = Rank c"
    by simp_all
  then show ?thesis
    using Card_Int_bounds [OF assms] by (simp add: FromInt_def)
qed

lemma ParseDeckString_valid: "ParseDeckString s = Inr c \<Longrightarrow> valid_card c"
  by (auto simp: ParseDeckString_def split: sum.splits dest: FromInt_valid)

lemma Parse_DeckString: "valid_card c \<Longrightarrow> ParseDeckString (DeckString c) = Inr c"
proof -
  assume v: "valid_card c"
  from Card_Int_bounds [OF v] have b: "0 \<le> Card_Int c" "Card_Int c < 52" by auto
  have "DeckString c = itoa (nat (Card_Int c + 1))"
    using b by (simp add: DeckString_def itoa_int_def)
  moreover have "nat (Card_Int c + 1) < 2 ^ 63" using b by (simp add: nat_less_iff)
  ultimately have "atoi (DeckString c) = Inr (int (nat (Card_Int c + 1)))"
    by (simp add: atoi_itoa)
  then show ?thesis
    using b by (simp add: ParseDeckString_def wrap_int_id Int_FromInt [OF v])
qed

lemma ParseDeckStrings_all:
  "ParseDeckStrings ss = Inr cs \<longleftrightarrow> list_all2 (\<lambda>s c. ParseDeckString s = Inr c) ss cs"
proof (induction ss arbitrary: cs)
  case (Cons s ss)
  show ?case by (cases cs) (auto simp: Cons.IH [symmetric] split: sum.splits)
qed auto

lemma ParseDeckStrings_length: "ParseDeckStrings ss = Inr cs \<Longrightarrow> length cs = length ss"
  by (auto simp: ParseDeckStrings_all dest: list_all2_lengthD)

lemma ParseDeckStrings_valid: "ParseDeckStrings ss = Inr cs \<Longrightarrow> list_all valid_card cs"
  by (induction ss arbitrary: cs) (auto split: sum.splits dest: ParseDeckString_valid)

section \<open>Properties\<close>

text \<open>
  C36. The deck index and the 1-based wire string are faithful: the 52 real cards and the indices
  \<open>0..51\<close> correspond one to one, every other index is refused with its value, and parsing the wire
  string of a card gives the card back.
\<close>

theorem card_encodings:
  "(\<forall>c. valid_card c \<longrightarrow> FromInt (Card_Int c) = Inr c \<and> 0 \<le> Card_Int c \<and> Card_Int c < 52 \<and>
          ParseDeckString (DeckString c) = Inr c) \<and>
   (\<forall>i. if 0 \<le> i \<and> i < 52 then \<exists>c. FromInt i = Inr c \<and> valid_card c \<and> Card_Int c = i
        else FromInt i = Inl (CardIntOutOfRange i))"
proof (intro conjI allI impI)
  fix i :: int
  show "if 0 \<le> i \<and> i < 52 then \<exists>c. FromInt i = Inr c \<and> valid_card c \<and> Card_Int c = i
        else FromInt i = Inl (CardIntOutOfRange i)"
  proof (cases "0 \<le> i \<and> i < 52")
    case True
    then obtain c where "FromInt i = Inr c" by (auto simp: FromInt_def)
    with True show ?thesis by (auto dest: FromInt_valid FromInt_Int)
  qed (auto simp: FromInt_def)
qed (simp_all add: Int_FromInt Card_Int_bounds Parse_DeckString)

theorem card_encodings_witness:
  "ParseDeckString (DeckString \<lparr>Suit = Spades, Rank = Ace\<rparr>) = Inr \<lparr>Suit = Spades, Rank = Ace\<rparr> \<and>
   DeckString \<lparr>Suit = Spades, Rank = Ace\<rparr> = ''52'' \<and> FromInt 52 = Inl (CardIntOutOfRange 52)"
proof -
  have "valid_card \<lparr>Suit = Spades, Rank = Ace\<rparr>" by (simp add: valid_card_def)
  moreover have "DeckString \<lparr>Suit = Spades, Rank = Ace\<rparr> = ''52''" by code_simp
  ultimately show ?thesis
    using card_encodings by (metis (no_types, opaque_lifting) order_less_irrefl)
qed

end
