(* ===== verification/Hand_Eval.thy ===== *)
theory Hand_Eval
  imports Cards "HOL-Library.Product_Lexorder"
begin

text \<open>
  \<^verbatim>\<open>internal/card/eval.go\<close>: the Texas Hold'em evaluator.  \<open>Rank5\<close> classifies five cards,
  \<open>Compare\<close> orders the results, \<open>Best\<close> walks the bit masks with five bits set and keeps the
  strongest hand.  Go's arrays \<^verbatim>\<open>[5]Card\<close> and \<^verbatim>\<open>[5]Rank\<close> are lists of length five; the map
  that counts ranks is enumerated in order of first appearance, and the sort that follows is
  shown to hide any other enumeration order.
\<close>

section \<open>Categories and hand ranks\<close>

type_synonym Category = u8

abbreviation (input) HighCard :: Category where "HighCard \<equiv> 0"
abbreviation (input) OnePair :: Category where "OnePair \<equiv> 1"
abbreviation (input) TwoPair :: Category where "TwoPair \<equiv> 2"
abbreviation (input) ThreeOfAKind :: Category where "ThreeOfAKind \<equiv> 3"
abbreviation (input) Straight :: Category where "Straight \<equiv> 4"
abbreviation (input) Flush :: Category where "Flush \<equiv> 5"
abbreviation (input) FullHouse :: Category where "FullHouse \<equiv> 6"
abbreviation (input) FourOfAKind :: Category where "FourOfAKind \<equiv> 7"
abbreviation (input) StraightFlush :: Category where "StraightFlush \<equiv> 8"

definition Category_String :: "Category \<Rightarrow> string" where
  "Category_String c =
     (if c = HighCard then ''High Card'' else if c = OnePair then ''One Pair''
      else if c = TwoPair then ''Two Pair'' else if c = ThreeOfAKind then ''Three of a Kind''
      else if c = Straight then ''Straight'' else if c = Flush then ''Flush''
      else if c = FullHouse then ''Full House'' else if c = FourOfAKind then ''Four of a Kind''
      else if c = StraightFlush then ''Straight Flush'' else ''?'')"

record HandRank =
  Category :: Category
  Tiebreakers :: "Rank list"
  BestCards :: "Card list"

definition zero_HandRank :: HandRank where
  "zero_HandRank = \<lparr>Category = 0, Tiebreakers = replicate 5 0, BestCards = replicate 5 zero_card\<rparr>"

text \<open>The loop of \<^verbatim>\<open>Compare\<close> over the tie-breaker arrays.\<close>

fun compare_ties :: "Rank list \<Rightarrow> Rank list \<Rightarrow> int" where
  "compare_ties (x # xs) (y # ys) =
     (if x \<noteq> y then (if y < x then 1 else -1) else compare_ties xs ys)"
| "compare_ties _ _ = 0"

definition Compare :: "HandRank \<Rightarrow> HandRank \<Rightarrow> int" where
  "Compare a b =
     (if Category a \<noteq> Category b then (if Category b < Category a then 1 else -1)
      else compare_ties (Tiebreakers a) (Tiebreakers b))"

definition Describe :: "HandRank \<Rightarrow> string" where
  "Describe h =
     (let t = Tiebreakers h in
      if Category h = StraightFlush then
        (if t ! 0 = Ace then ''Royal Flush'' else ''Straight Flush, '' @ Rank_Name (t ! 0) @ ''-high'')
      else if Category h = FourOfAKind then ''Four of a Kind, '' @ Rank_Plural (t ! 0)
      else if Category h = FullHouse then
        ''Full House, '' @ Rank_Plural (t ! 0) @ '' full of '' @ Rank_Plural (t ! 1)
      else if Category h = Flush then ''Flush, '' @ Rank_Name (t ! 0) @ ''-high''
      else if Category h = Straight then ''Straight, '' @ Rank_Name (t ! 0) @ ''-high''
      else if Category h = ThreeOfAKind then ''Three of a Kind, '' @ Rank_Plural (t ! 0)
      else if Category h = TwoPair then
        ''Two Pair, '' @ Rank_Plural (t ! 0) @ '' and '' @ Rank_Plural (t ! 1)
      else if Category h = OnePair then ''Pair of '' @ Rank_Plural (t ! 0)
      else if Category h = HighCard then ''High Card, '' @ Rank_Name (t ! 0)
      else Category_String (Category h))"

section \<open>Ranking five cards\<close>

record rankGroup =
  grank :: Rank
  gcount :: nat

text \<open>The comparison functions passed to \<^verbatim>\<open>sort.Slice\<close>.\<close>

definition rank_desc :: "Card \<Rightarrow> Card \<Rightarrow> bool" where
  "rank_desc c d \<longleftrightarrow> Rank d < Rank c"

definition group_less :: "rankGroup \<Rightarrow> rankGroup \<Rightarrow> bool" where
  "group_less g h \<longleftrightarrow> (if gcount g \<noteq> gcount h then gcount h < gcount g else grank h < grank g)"

text \<open>The map \<^verbatim>\<open>counts\<close> as a list of groups, in order of first appearance.\<close>

definition rank_counts :: "Card list \<Rightarrow> rankGroup list" where
  "rank_counts cs =
     map (\<lambda>r. \<lparr>grank = r, gcount = count_list (map Rank cs) r\<rparr>) (remdups (map Rank cs))"

definition groupByRank :: "Card list \<Rightarrow> rankGroup list" where
  "groupByRank cs = go_sort group_less (rank_counts cs)"

definition detectStraight :: "Rank list \<Rightarrow> bool \<times> Rank" where
  "detectStraight r =
     (if r ! 0 = Ace \<and> r ! 1 = Five \<and> r ! 2 = Four \<and> r ! 3 = Three \<and> r ! 4 = Two then (True, Five)
      else if \<not> list_all (\<lambda>i. r ! i = r ! (i + 1) + 1) [0..<4] then (False, 0)
      else (True, r ! 0))"

text \<open>A fresh \<^verbatim>\<open>[5]Card\<close> whose first cells are written in order.\<close>

definition fill5 :: "Card list \<Rightarrow> Card list" where
  "fill5 cs = take 5 (cs @ replicate 5 zero_card)"

definition arrangeByGroups :: "Card list \<Rightarrow> rankGroup list \<Rightarrow> Card list" where
  "arrangeByGroups cs gs = fill5 (concat (map (\<lambda>g. filter (\<lambda>c. Rank c = grank g) cs) gs))"

definition arrangeStraight :: "Card list \<Rightarrow> Rank \<Rightarrow> Card list" where
  "arrangeStraight cs high =
     (if high \<noteq> Five then cs
      else (fill5 (filter (\<lambda>c. Rank c \<noteq> Ace) cs))[4 := cs ! 0])"

text \<open>Tie-breaker arrays: the given ranks, then zeros.\<close>

definition ties5 :: "Rank list \<Rightarrow> Rank list" where
  "ties5 rs = take 5 (rs @ replicate 5 0)"

definition is_flush5 :: "Card list \<Rightarrow> bool" where
  "is_flush5 s \<longleftrightarrow> Suit (s ! 0) = Suit (s ! 1) \<and> Suit (s ! 1) = Suit (s ! 2) \<and>
     Suit (s ! 2) = Suit (s ! 3) \<and> Suit (s ! 3) = Suit (s ! 4)"

definition Rank5 :: "Card list \<Rightarrow> HandRank" where
  "Rank5 hand =
     (let srt = go_sort rank_desc hand;
          flush = is_flush5 srt;
          ranks = map Rank srt;
          (straight, straightHigh) = detectStraight ranks
      in if straight \<and> flush then
           \<lparr>Category = StraightFlush, Tiebreakers = ties5 [straightHigh],
            BestCards = arrangeStraight srt straightHigh\<rparr>
         else let groups = groupByRank srt in
         if gcount (groups ! 0) = 4 then
           \<lparr>Category = FourOfAKind, Tiebreakers = ties5 [grank (groups ! 0), grank (groups ! 1)],
            BestCards = arrangeByGroups srt groups\<rparr>
         else if gcount (groups ! 0) = 3 \<and> 1 < length groups \<and> gcount (groups ! 1) = 2 then
           \<lparr>Category = FullHouse, Tiebreakers = ties5 [grank (groups ! 0), grank (groups ! 1)],
            BestCards = arrangeByGroups srt groups\<rparr>
         else if flush then
           \<lparr>Category = Flush, Tiebreakers = ties5 ranks, BestCards = srt\<rparr>
         else if straight then
           \<lparr>Category = Straight, Tiebreakers = ties5 [straightHigh],
            BestCards = arrangeStraight srt straightHigh\<rparr>
         else if gcount (groups ! 0) = 3 then
           \<lparr>Category = ThreeOfAKind,
            Tiebreakers = ties5 [grank (groups ! 0), grank (groups ! 1), grank (groups ! 2)],
            BestCards = arrangeByGroups srt groups\<rparr>
         else if gcount (groups ! 0) = 2 \<and> 1 < length groups \<and> gcount (groups ! 1) = 2 then
           \<lparr>Category = TwoPair,
            Tiebreakers = ties5 [grank (groups ! 0), grank (groups ! 1), grank (groups ! 2)],
            BestCards = arrangeByGroups srt groups\<rparr>
         else if gcount (groups ! 0) = 2 then
           \<lparr>Category = OnePair,
            Tiebreakers = ties5 [grank (groups ! 0), grank (groups ! 1), grank (groups ! 2), grank (groups ! 3)],
            BestCards = arrangeByGroups srt groups\<rparr>
         else \<lparr>Category = HighCard, Tiebreakers = ties5 ranks, BestCards = srt\<rparr>)"

section \<open>The best hand of five to seven cards\<close>

text \<open>\<^verbatim>\<open>x & 1\<close> and \<^verbatim>\<open>x >>= 1\<close> on a number that is not negative.\<close>

fun popcount :: "nat \<Rightarrow> nat" where
  "popcount x = (if x = 0 then 0 else x mod 2 + popcount (x div 2))"

declare popcount.simps [simp del]

fun first_dup :: "Card set \<Rightarrow> Card list \<Rightarrow> Card option" where
  "first_dup seen [] = None"
| "first_dup seen (c # cs) = (if c \<in> seen then Some c else first_dup (insert c seen) cs)"

definition firstDuplicate :: "Card list \<Rightarrow> Card option" where
  "firstDuplicate cs = first_dup {} cs"

text \<open>The inner loop of \<^verbatim>\<open>Best\<close>: the cards whose index bit is set in the mask.\<close>

definition mask_combo :: "Card list \<Rightarrow> nat \<Rightarrow> Card list" where
  "mask_combo cards msk = map (\<lambda>k. cards ! k) (filter (bit msk) [0..<length cards])"

text \<open>The loop over the masks; \<open>None\<close> is the state in which \<^verbatim>\<open>first\<close> is still true.\<close>

fun best_loop :: "Card list \<Rightarrow> nat list \<Rightarrow> HandRank option \<Rightarrow> HandRank option" where
  "best_loop cards [] best = best"
| "best_loop cards (msk # masks) best =
     (if popcount msk \<noteq> 5 then best_loop cards masks best
      else let r = Rank5 (mask_combo cards msk) in
        best_loop cards masks
          (case best of None \<Rightarrow> Some r | Some b \<Rightarrow> if 0 < Compare r b then Some r else best))"

definition Best :: "Card list \<Rightarrow> card_error + HandRank" where
  "Best cards =
     (if length cards < 5 then Inl (BestTooFew (length cards))
      else if 7 < length cards then Inl (BestTooMany (length cards))
      else case firstDuplicate cards of
        Some c \<Rightarrow> Inl (DuplicateCard c)
      | None \<Rightarrow> Inr (case best_loop cards [1..<2 ^ length cards] None of
                       None \<Rightarrow> zero_HandRank | Some b \<Rightarrow> b))"

section \<open>Comparing hands\<close>

locale three_way =
  fixes cmp :: "'a \<Rightarrow> 'a \<Rightarrow> int" and key :: "'a \<Rightarrow> 'k::linorder" and ok :: "'a \<Rightarrow> bool"
  assumes cmp_key: "ok a \<Longrightarrow> ok b \<Longrightarrow>
    cmp a b = (if key a < key b then -1 else if key a = key b then 0 else 1)"
begin

lemma cmp_pos: "ok a \<Longrightarrow> ok b \<Longrightarrow> 0 < cmp a b \<longleftrightarrow> key b < key a"
  by (auto simp: cmp_key)

lemma cmp_le: "ok a \<Longrightarrow> ok b \<Longrightarrow> cmp a b \<le> 0 \<longleftrightarrow> key a \<le> key b"
  by (auto simp: cmp_key)

lemma cmp_zero: "ok a \<Longrightarrow> ok b \<Longrightarrow> cmp a b = 0 \<longleftrightarrow> key a = key b"
  by (auto simp: cmp_key)

lemma cmp_one: "ok a \<Longrightarrow> ok b \<Longrightarrow> cmp a b = 1 \<longleftrightarrow> key b < key a"
  by (auto simp: cmp_key)

lemma cmp_flip: "ok a \<Longrightarrow> ok b \<Longrightarrow> cmp b a = - cmp a b"
  by (auto simp: cmp_key)

lemma cmp_trans: "ok a \<Longrightarrow> ok b \<Longrightarrow> ok c \<Longrightarrow> cmp a b \<le> 0 \<Longrightarrow> cmp b c \<le> 0 \<Longrightarrow> cmp a c \<le> 0"
  by (auto simp: cmp_le)

end

definition hand_key :: "HandRank \<Rightarrow> u8 list" where
  "hand_key h = Category h # Tiebreakers h"

definition hand_ok :: "HandRank \<Rightarrow> bool" where
  "hand_ok h \<longleftrightarrow> length (Tiebreakers h) = 5"

lemma compare_ties_lex:
  "length xs = length ys \<Longrightarrow>
   compare_ties xs ys = (if xs < ys then -1 else if xs = ys then 0 else 1)"
  by (induction xs ys rule: compare_ties.induct) auto

interpretation hr: three_way Compare hand_key hand_ok
  by unfold_locales (auto simp: Compare_def hand_key_def hand_ok_def compare_ties_lex)

lemma length_ties5 [simp]: "length (ties5 rs) = 5"
  by (simp add: ties5_def)

lemma Rank5_ok [simp]: "hand_ok (Rank5 h)"
  by (simp add: hand_ok_def Rank5_def Let_def split: prod.split)

section \<open>The masks enumerate the five-card subsequences\<close>

lemma mask_combo_Nil [simp]: "mask_combo [] m = []"
  by (simp add: mask_combo_def)

lemma filter_bit_Suc:
  "filter (bit m) [0..<Suc n] =
   (if odd m then [0] else []) @ map Suc (filter (bit (m div 2)) [0..<n])" for m :: nat
proof -
  have "[0..<Suc n] = 0 # map Suc [0..<n]"
    by (metis map_Suc_upt upt_conv_Cons zero_less_Suc)
  then show ?thesis
    by (simp add: filter_map comp_def bit_Suc bit_0 del: upt_Suc)
qed

lemma mask_combo_Cons:
  "mask_combo (c # cs) m = (if odd m then [c] else []) @ mask_combo cs (m div 2)"
  by (simp add: mask_combo_def filter_bit_Suc comp_def del: upt_Suc)

lemma length_mask_combo: "m < 2 ^ length cs \<Longrightarrow> length (mask_combo cs m) = popcount m"
proof (induction cs arbitrary: m)
  case Nil
  then show ?case by (simp add: popcount.simps)
next
  case (Cons c cs)
  then have "length (mask_combo cs (m div 2)) = popcount (m div 2)" by simp
  then show ?case
    by (cases "m = 0")
      (auto simp: mask_combo_Cons popcount.simps [of m] popcount.simps [of 0] odd_iff_mod_2_eq_one
        even_iff_mod_2_eq_zero)
qed

lemma mask_combos: "mask_combo cs ` {m. m < 2 ^ length cs} = set (subseqs cs)"
proof (induction cs)
  case Nil
  then show ?case by auto
next
  case (Cons c cs)
  let ?M = "{m::nat. m < 2 ^ length cs}"
  have split: "{m. m < 2 ^ length (c # cs)} = (\<lambda>m. 2 * m) ` ?M \<union> (\<lambda>m. 2 * m + 1) ` ?M"
  proof (intro set_eqI iffI)
    fix m :: nat
    assume "m \<in> {m. m < 2 ^ length (c # cs)}"
    then have "m div 2 \<in> ?M" by auto
    moreover have "m = 2 * (m div 2) \<or> m = 2 * (m div 2) + 1" by presburger
    ultimately show "m \<in> (\<lambda>m. 2 * m) ` ?M \<union> (\<lambda>m. 2 * m + 1) ` ?M" by blast
  qed auto
  have "mask_combo (c # cs) ` {m. m < 2 ^ length (c # cs)} =
        mask_combo cs ` ?M \<union> (#) c ` mask_combo cs ` ?M"
    unfolding split by (simp add: image_Un image_image mask_combo_Cons)
  then show ?case
    using Cons.IH by (auto simp: Let_def)
qed

section \<open>Best keeps a strongest hand\<close>

definition combo_ranks :: "Card list \<Rightarrow> nat list \<Rightarrow> HandRank list" where
  "combo_ranks cards msks = map (\<lambda>m. Rank5 (mask_combo cards m)) (filter (\<lambda>m. popcount m = 5) msks)"

lemma best_loop_max:
  assumes "best_loop cards msks best = res" "\<And>b. best = Some b \<Longrightarrow> hand_ok b"
  shows "(case res of
      None \<Rightarrow> best = None \<and> combo_ranks cards msks = []
    | Some r \<Rightarrow> r \<in> set (combo_ranks cards msks) \<union> set_option best \<and>
        (\<forall>h \<in> set (combo_ranks cards msks) \<union> set_option best. hand_key h \<le> hand_key r))"
  using assms
proof (induction cards msks best arbitrary: res rule: best_loop.induct)
  case (1 cards best)
  then show ?case by (cases res) (auto simp: combo_ranks_def)
next
  case (2 cards m msks best)
  show ?case
  proof (cases "popcount m = 5")
    case False
    then have "combo_ranks cards (m # msks) = combo_ranks cards msks"
      by (simp add: combo_ranks_def)
    with False 2 show ?thesis by (cases res) simp_all
  next
    case True
    define r where "r = Rank5 (mask_combo cards m)"
    define best' where "best' = (case best of None \<Rightarrow> Some r | Some b \<Rightarrow> if 0 < Compare r b then Some r else best)"
    have res: "best_loop cards msks best' = res"
      using "2.prems"(1) True unfolding best'_def r_def by (simp add: Let_def)
    have ok: "\<And>b. best' = Some b \<Longrightarrow> hand_ok b"
      using "2.prems"(2) by (auto simp: best'_def r_def split: option.splits if_splits)
    have ranks: "combo_ranks cards (m # msks) = r # combo_ranks cards msks"
      using True by (simp add: combo_ranks_def r_def)
    have IH: "case res of
        None \<Rightarrow> best' = None \<and> combo_ranks cards msks = []
      | Some q \<Rightarrow> q \<in> set (combo_ranks cards msks) \<union> set_option best' \<and>
          (\<forall>h \<in> set (combo_ranks cards msks) \<union> set_option best'. hand_key h \<le> hand_key q)"
      using "2.IH"(2) [OF _ r_def, folded best'_def] True res ok by blast
    obtain b' where b': "best' = Some b'" "b' = r \<or> best = Some b'" "hand_key r \<le> hand_key b'"
        "\<And>b. best = Some b \<Longrightarrow> hand_key b \<le> hand_key b'"
    proof (cases best)
      case None
      then show ?thesis using that [of r] by (simp add: best'_def)
    next
      case (Some b)
      then have "0 < Compare r b \<longleftrightarrow> hand_key b < hand_key r"
        using "2.prems"(2) by (simp add: hr.cmp_pos r_def)
      with Some show ?thesis
        using that by (cases "0 < Compare r b") (auto simp: best'_def)
    qed
    show ?thesis
      using IH b' ranks by (cases res) (auto intro: order_trans)
  qed
qed

lemma combo_ranks_subseqs:
  "set (combo_ranks cards [1..<2 ^ length cards]) =
   Rank5 ` {h \<in> set (subseqs cards). length h = 5}"
proof -
  let ?M = "{m::nat. m < 2 ^ length cards}"
  have "set (combo_ranks cards [1..<2 ^ length cards]) =
        (\<lambda>m. Rank5 (mask_combo cards m)) ` {m \<in> ?M. popcount m = 5}"
    by (auto simp: combo_ranks_def popcount.simps [of 0] Suc_le_eq intro!: image_eqI)
      (metis gr0I popcount.simps zero_neq_numeral)
  also have "\<dots> = Rank5 ` {h \<in> mask_combo cards ` ?M. length h = 5}"
    by (auto simp: length_mask_combo)
  finally show ?thesis by (simp add: mask_combos)
qed

lemma first_dup_None: "first_dup seen cs = None \<longleftrightarrow> distinct cs \<and> set cs \<inter> seen = {}"
  by (induction cs arbitrary: seen) auto

lemma firstDuplicate_None: "firstDuplicate cs = None \<longleftrightarrow> distinct cs"
  by (simp add: firstDuplicate_def first_dup_None)

lemma firstDuplicate_Some: "firstDuplicate cs = Some c \<Longrightarrow>
  \<exists>xs ys. cs = xs @ c # ys \<and> distinct xs \<and> c \<in> set xs"
proof -
  have gen: "first_dup seen cs = Some c \<Longrightarrow>
    \<exists>xs ys. cs = xs @ c # ys \<and> distinct xs \<and> set xs \<inter> seen = {} \<and> c \<in> set xs \<union> seen" for seen
  proof (induction cs arbitrary: seen)
    case (Cons d cs)
    show ?case
    proof (cases "d \<in> seen")
      case True
      with Cons.prems show ?thesis by (intro exI [of _ "[]"] exI [of _ cs]) auto
    next
      case False
      with Cons.prems have "first_dup (insert d seen) cs = Some c" by simp
      from Cons.IH [OF this] obtain xs ys where
        "cs = xs @ c # ys" "distinct xs" "set xs \<inter> insert d seen = {}" "c \<in> set xs \<union> insert d seen"
        by blast
      with False show ?thesis by (intro exI [of _ "d # xs"] exI [of _ ys]) auto
    qed
  qed simp
  then show "firstDuplicate cs = Some c \<Longrightarrow> ?thesis"
    using gen [of "{}"] by (simp add: firstDuplicate_def)
qed

lemma take5_combo: "5 \<le> length cards \<Longrightarrow> take 5 cards \<in> {h \<in> set (subseqs cards). length h = 5}"
proof -
  have "take 5 cards \<in> set (subseqs (take 5 cards @ drop 5 cards))"
    by (metis append_take_drop_id in_set_subseqs prefix_imp_subseq take_is_prefix)
  then show "5 \<le> length cards \<Longrightarrow> ?thesis" by simp
qed

lemma Best_max:
  assumes "5 \<le> length cards" "length cards \<le> 7" "distinct cards"
  shows "\<exists>r h. Best cards = Inr r \<and> h \<in> set (subseqs cards) \<and> length h = 5 \<and> r = Rank5 h \<and>
    (\<forall>g \<in> set (subseqs cards). length g = 5 \<longrightarrow> hand_key (Rank5 g) \<le> hand_key r)"
proof -
  let ?res = "best_loop cards [1..<2 ^ length cards] None"
  have ne: "combo_ranks cards [1..<2 ^ length cards] \<noteq> []"
    using combo_ranks_subseqs [of cards] take5_combo [OF assms(1)] by force
  note m = best_loop_max [OF refl, of None cards "[1..<2 ^ length cards]"]
  from m ne obtain r where r: "?res = Some r" by (cases ?res) auto
  have "Best cards = Inr r"
    using assms r by (simp add: Best_def firstDuplicate_None [THEN iffD2])
  moreover from m r have "r \<in> Rank5 ` {h \<in> set (subseqs cards). length h = 5}"
    "\<forall>h \<in> Rank5 ` {h \<in> set (subseqs cards). length h = 5}. hand_key h \<le> hand_key r"
    by (simp_all add: combo_ranks_subseqs del: One_nat_def)
  ultimately show ?thesis by auto
qed

section \<open>Rank5 does not depend on the order of the cards\<close>

interpretation rd: less_fun rank_desc
  by unfold_locales (auto simp: rank_desc_def)

interpretation gl: total_less_fun group_less
proof
  fix g h i :: rankGroup
  show "group_less g h \<Longrightarrow> \<not> group_less h g"
    by (auto simp: group_less_def split: if_splits)
  show "\<not> group_less g h \<Longrightarrow> \<not> group_less h i \<Longrightarrow> \<not> group_less g i"
    by (auto simp: group_less_def split: if_splits)
  show "\<not> group_less g h \<Longrightarrow> \<not> group_less h g \<Longrightarrow> g = h"
    by (auto simp: group_less_def split: if_splits)
qed

lemma ranks_go_sort: "map Rank (go_sort rank_desc h) = rev (sort (map Rank h))"
proof (rule sorted_desc_unique)
  show "sorted_wrt (\<ge>) (map Rank (go_sort rank_desc h))"
    using rd.sorted_go_sort [of h] by (simp add: sorted_wrt_map rank_desc_def not_less)
  show "sorted_wrt (\<ge>) (rev (sort (map Rank h)))"
    by (simp add: sorted_wrt_rev)
  show "mset (map Rank (go_sort rank_desc h)) = mset (rev (sort (map Rank h)))"
    by simp
qed

definition same_suit :: "Card set \<Rightarrow> bool" where
  "same_suit C \<longleftrightarrow> (\<forall>c \<in> C. \<forall>d \<in> C. Suit c = Suit d)"

lemma length5E:
  assumes "length xs = 5"
  obtains a b c d e where "xs = [a, b, c, d, e]"
  using assms by (auto simp: length_Suc_conv numeral_eq_Suc)

lemma is_flush5_same_suit: "length s = 5 \<Longrightarrow> is_flush5 s \<longleftrightarrow> same_suit (set s)"
  by (erule length5E) (auto simp: is_flush5_def same_suit_def)

lemma is_flush5_sorted: "length h = 5 \<Longrightarrow> is_flush5 (go_sort rank_desc h) \<longleftrightarrow> same_suit (set h)"
  by (simp add: is_flush5_same_suit)

lemma groupByRank_cong: "map Rank s = map Rank t \<Longrightarrow> groupByRank s = groupByRank t"
  by (simp add: groupByRank_def rank_counts_def)

lemma hand_key_perm:
  assumes "mset g = mset h" "length h = 5"
  shows "hand_key (Rank5 g) = hand_key (Rank5 h)"
proof -
  let ?g = "go_sort rank_desc g" and ?h = "go_sort rank_desc h"
  have len: "length g = 5" using assms by (metis size_mset)
  have ranks: "map Rank ?g = map Rank ?h"
    using assms(1) by (simp add: ranks_go_sort mset_map sorted_list_of_multiset_mset [symmetric])
  have flush: "is_flush5 ?g = is_flush5 ?h"
    using is_flush5_sorted [OF len] is_flush5_sorted [OF assms(2)] assms(1)
    by (metis set_mset_mset)
  show ?thesis
    using ranks flush groupByRank_cong [OF ranks]
    by (cases "detectStraight (map Rank ?h)") (simp add: hand_key_def Rank5_def Let_def)
qed

lemma Best_perm:
  assumes "mset xs = mset ys" "5 \<le> length xs" "length xs \<le> 7" "distinct xs"
  shows "\<exists>r q. Best xs = Inr r \<and> Best ys = Inr q \<and> hand_key r = hand_key q"
proof -
  have ys: "5 \<le> length ys" "length ys \<le> 7" "distinct ys"
    using assms by (metis size_mset, metis size_mset, metis mset_eq_imp_distinct_iff)
  have le: "hand_key r \<le> hand_key q"
    if m: "mset us = mset vs" "subseq g us" "length g = 5" "r = Rank5 g"
      "\<forall>g \<in> set (subseqs vs). length g = 5 \<longrightarrow> hand_key (Rank5 g) \<le> hand_key q" for us vs g r q
  proof -
    obtain h where h: "subseq h vs" "mset h = mset g"
      using subseq_of_perm [OF m(1,2)] by blast
    then have "length h = 5" using m(3) by (metis size_mset)
    with h m show ?thesis using hand_key_perm [of h g] by auto
  qed
  from Best_max [OF assms(2-4)] Best_max [OF ys] show ?thesis
    using le [OF assms(1)] le [OF assms(1) [symmetric]] by (metis in_set_subseqs order_antisym)
qed

section \<open>The rules of poker, stated without the algorithm\<close>

text \<open>
  A reference reading of a five-card hand: the multiplicities of its ranks in descending order,
  whether it has one suit, the high card of a straight, and the ranks ordered by multiplicity and
  then by rank.
\<close>

definition rank_pattern :: "Card list \<Rightarrow> nat list" where
  "rank_pattern h = rev (sort (map (count_list (map Rank h)) (remdups (map Rank h))))"

definition spec_straight :: "Card list \<Rightarrow> Rank option" where
  "spec_straight h =
     (let R = set (map Rank h) in
      if R = {Ace, Five, Four, Three, Two} then Some Five
      else if \<exists>l. R = {l + 4, l + 3, l + 2, l + 1, l} then Some (Max R) else None)"

definition spec_category :: "Card list \<Rightarrow> Category" where
  "spec_category h =
     (let st = spec_straight h \<noteq> None; fl = same_suit (set h); pat = rank_pattern h in
      if st \<and> fl then StraightFlush else if pat = [4, 1] then FourOfAKind
      else if pat = [3, 2] then FullHouse else if fl then Flush else if st then Straight
      else if pat = [3, 1, 1] then ThreeOfAKind else if pat = [2, 2, 1] then TwoPair
      else if pat = [2, 1, 1, 1] then OnePair else HighCard)"

definition ranks_by_weight :: "Card list \<Rightarrow> Rank list" where
  "ranks_by_weight h =
     map snd (rev (sort (map (\<lambda>r. (count_list (map Rank h) r, r)) (remdups (map Rank h)))))"

definition spec_ties :: "Card list \<Rightarrow> Rank list" where
  "spec_ties h = (case spec_straight h of Some hi \<Rightarrow> [hi] | None \<Rightarrow> ranks_by_weight h)"

subsection \<open>Straights\<close>

lemma sorted_desc_of_set:
  fixes xs ys :: "'a::linorder list"
  assumes "sorted_wrt (\<ge>) xs" "sorted_wrt (\<ge>) ys" "set xs = set ys" "distinct ys" "length xs = length ys"
  shows "xs = ys"
proof -
  have "distinct xs" using assms by (metis card_distinct distinct_card)
  then have "mset xs = mset ys" using assms by (simp add: set_eq_iff_mset_eq_distinct)
  with assms show ?thesis by (blast intro: sorted_desc_unique)
qed

lemma run_desc:
  assumes "(l :: u8) < 13" "l + 4 < 13"
  shows "sorted_wrt (\<ge>) [l + 4, l + 3, l + 2, l + 1, l]"
  using assms by (simp add: word_le_nat_alt word_less_nat_alt unat_word_ariths)

lemma run_distinct: "distinct [l + 4, l + 3, l + 2, l + 1, l :: u8]"
  by simp

lemma detectStraight5:
  "detectStraight [a, b, c, d, e] =
     (if [a, b, c, d, e] = [Ace, Five, Four, Three, Two] then (True, Five)
      else if a = b + 1 \<and> b = c + 1 \<and> c = d + 1 \<and> d = e + 1 then (True, a) else (False, 0))"
proof -
  have "[0..<4] = [0, 1, 2, 3::nat]" by (simp add: upt_rec)
  then show ?thesis by (auto simp: detectStraight_def)
qed

lemma detectStraight_sorted:
  assumes "length rs = 5" "sorted_wrt (\<ge>) rs" "\<forall>r \<in> set rs. r < 13"
  shows "detectStraight rs =
    (if set rs = {Ace, Five, Four, Three, Two} then (True, Five)
     else if \<exists>l. set rs = {l + 4, l + 3, l + 2, l + 1, l} then (True, Max (set rs)) else (False, 0))"
proof -
  obtain a b c d e where rs: "rs = [a, b, c, d, e]" using assms(1) by (rule length5E)
  have wheel: "rs = [Ace, Five, Four, Three, Two] \<longleftrightarrow> set rs = {Ace, Five, Four, Three, Two}"
  proof
    assume "set rs = {Ace, Five, Four, Three, Two}"
    then show "rs = [Ace, Five, Four, Three, Two]"
      using assms by (intro sorted_desc_of_set) auto
  qed auto
  have run: "(a = b + 1 \<and> b = c + 1 \<and> c = d + 1 \<and> d = e + 1) \<longleftrightarrow>
    (\<exists>l. set rs = {l + 4, l + 3, l + 2, l + 1, l})"
  proof
    assume "a = b + 1 \<and> b = c + 1 \<and> c = d + 1 \<and> d = e + 1"
    then have "set rs = {e + 4, e + 3, e + 2, e + 1, e}" by (simp add: rs add.commute [of e])
    then show "\<exists>l. set rs = {l + 4, l + 3, l + 2, l + 1, l}" by blast
  next
    assume "\<exists>l. set rs = {l + 4, l + 3, l + 2, l + 1, l}"
    then obtain l where l: "set rs = {l + 4, l + 3, l + 2, l + 1, l}" by blast
    then have "l < 13" "l + 4 < 13" using assms(3) by auto
    then have "rs = [l + 4, l + 3, l + 2, l + 1, l]"
      using assms run_desc run_distinct l by (intro sorted_desc_of_set) auto
    then show "a = b + 1 \<and> b = c + 1 \<and> c = d + 1 \<and> d = e + 1" by (simp add: rs)
  qed
  have "Max (set rs) = a" using assms(2) by (intro Max_eqI) (auto simp: rs)
  then show ?thesis
    using wheel run unfolding rs detectStraight5 by presburger
qed

lemma detectStraight_spec:
  assumes "length h = 5" "list_all valid_card h"
  shows "detectStraight (rev (sort (map Rank h))) =
    (case spec_straight h of None \<Rightarrow> (False, 0) | Some hi \<Rightarrow> (True, hi))"
proof -
  have "\<forall>r \<in> set (rev (sort (map Rank h))). r < 13"
    using assms(2) by (auto simp: list_all_iff valid_card_def)
  then show ?thesis
    using assms(1) by (subst detectStraight_sorted) (simp_all add: spec_straight_def Let_def sorted_wrt_rev)
qed

lemma spec_straight_distinct:
  assumes "length h = 5" "spec_straight h \<noteq> None"
  shows "distinct (map Rank h)"
proof -
  have "card (set (map Rank h)) = 5"
    using assms(2) by (auto simp: spec_straight_def Let_def split: if_splits)
  then show ?thesis using assms(1) by (intro card_distinct) simp
qed

subsection \<open>Groups\<close>

lemma groups_by_weight:
  assumes "s = go_sort rank_desc h"
  shows "map (\<lambda>g. (gcount g, grank g)) (groupByRank s) =
    rev (sort (map (\<lambda>r. (count_list (map Rank h) r, r)) (remdups (map Rank h))))"
proof (rule sorted_desc_unique)
  have "sorted_wrt (\<lambda>g i. (gcount i, grank i) \<le> (gcount g, grank g)) (groupByRank s)"
    using gl.sorted_go_sort [of "rank_counts s"]
    by (auto simp: groupByRank_def group_less_def less_eq_prod_def elim!: sorted_wrt_mono_rel [rotated]
        split: if_splits)
  then show "sorted_wrt (\<ge>) (map (\<lambda>g. (gcount g, grank g)) (groupByRank s))"
    by (simp add: sorted_wrt_map)
  show "sorted_wrt (\<ge>) (rev (sort (map (\<lambda>r. (count_list (map Rank h) r, r)) (remdups (map Rank h)))))"
    by (simp add: sorted_wrt_rev)
  have m: "mset (map Rank s) = mset (map Rank h)" by (simp add: assms)
  then have "mset (remdups (map Rank s)) = mset (remdups (map Rank h))"
    by (metis set_eq_iff_mset_remdups_eq set_mset_mset)
  moreover have "count_list (map Rank s) = count_list (map Rank h)"
    using m by (metis count_mset ext)
  ultimately show "mset (map (\<lambda>g. (gcount g, grank g)) (groupByRank s)) =
    mset (rev (sort (map (\<lambda>r. (count_list (map Rank h) r, r)) (remdups (map Rank h)))))"
    by (simp add: groupByRank_def rank_counts_def multiset.map_comp comp_def)
qed

lemma granks_by_weight: "map grank (groupByRank (go_sort rank_desc h)) = ranks_by_weight h"
  using arg_cong [OF groups_by_weight [OF refl], of "map snd" h] by (simp add: ranks_by_weight_def comp_def)

lemma gcounts_pattern: "map gcount (groupByRank (go_sort rank_desc h)) = rank_pattern h"
proof (rule sorted_desc_unique)
  let ?G = "groupByRank (go_sort rank_desc h)"
  let ?P = "map (\<lambda>r. (count_list (map Rank h) r, r)) (remdups (map Rank h))"
  have "sorted_wrt (\<ge>) (map (\<lambda>g. (gcount g, grank g)) ?G)"
    by (simp add: groups_by_weight [OF refl] sorted_wrt_rev)
  then show "sorted_wrt (\<ge>) (map gcount ?G)"
    by (auto simp: sorted_wrt_map less_eq_prod_def elim!: sorted_wrt_mono_rel [rotated])
  show "sorted_wrt (\<ge>) (rank_pattern h)"
    by (simp add: rank_pattern_def sorted_wrt_rev)
  have "mset (map (\<lambda>g. (gcount g, grank g)) ?G) = mset ?P"
    by (simp add: groups_by_weight [OF refl])
  from arg_cong [OF this, of "image_mset fst"]
  show "mset (map gcount ?G) = mset (rank_pattern h)"
    by (simp add: rank_pattern_def multiset.map_comp comp_def flip: mset_map)
qed


lemma pattern_props:
  assumes "length h = 5"
  shows "sorted_wrt (\<ge>) (rank_pattern h)" "sum_list (rank_pattern h) = 5" "\<forall>n \<in> set (rank_pattern h). 0 < n"
proof -
  let ?rs = "map Rank h"
  show "sorted_wrt (\<ge>) (rank_pattern h)"
    by (simp add: rank_pattern_def sorted_wrt_rev)
  have "sum_list (rank_pattern h) = sum_list (map (count_list ?rs) (remdups ?rs))"
    by (simp add: rank_pattern_def sum_list_rev flip: sum_mset_sum_list)
  also have "\<dots> = (\<Sum>r \<in> set ?rs. count_list ?rs r)"
    by (metis distinct_remdups set_remdups sum_list_distinct_conv_sum_set)
  also have "\<dots> = 5" using assms by (metis length_map sum_count_set subset_refl finite_set)
  finally show "sum_list (rank_pattern h) = 5" .
  show "\<forall>n \<in> set (rank_pattern h). 0 < n"
    by (auto simp: rank_pattern_def count_list_0_iff simp flip: neq0_conv)
qed

lemma partition5:
  fixes p :: "nat list"
  assumes "sorted_wrt (\<ge>) p" "sum_list p = 5" "\<forall>n \<in> set p. 0 < n"
  shows "p \<in> {[5], [4, 1], [3, 2], [3, 1, 1], [2, 2, 1], [2, 1, 1, 1], [1, 1, 1, 1, 1]}"
proof -
  have "length p \<le> sum_list p" using assms(3) by (induction p) auto
  then have "length p \<in> {0, 1, 2, 3, 4, 5}" unfolding assms(2) by (auto simp: le_Suc_eq numeral_eq_Suc)
  then consider "p = []" | a where "p = [a]" | a b where "p = [a, b]" | a b c where "p = [a, b, c]"
    | a b c d where "p = [a, b, c, d]" | a b c d e where "p = [a, b, c, d, e]"
    by (auto simp: length_Suc_conv numeral_eq_Suc)
  then show ?thesis
  proof cases
    case 1 with assms show ?thesis by simp
  next
    case 2 with assms show ?thesis by simp
  next
    case 3 with assms show ?thesis by simp linarith
  next
    case 4 with assms show ?thesis by simp linarith
  next
    case 5 with assms show ?thesis by simp
  next
    case 6 with assms show ?thesis by simp
  qed
qed

lemmas pattern_cases = partition5 [OF pattern_props]

lemma count_list_distinct: "distinct xs \<Longrightarrow> x \<in> set xs \<Longrightarrow> count_list xs x = 1"
  by (metis count_mset distinct_count_atmost_1)

lemma singles_pattern: "length h = 5 \<Longrightarrow> distinct (map Rank h) \<Longrightarrow> rank_pattern h = [1, 1, 1, 1, 1]"
proof -
  assume h: "length h = 5" "distinct (map Rank h)"
  have "map (count_list (map Rank h)) (map Rank h) = map (\<lambda>_. 1) (map Rank h)"
    using h(2) by (intro map_cong refl count_list_distinct)
  also have "\<dots> = [1, 1, 1, 1, 1]" using h(1) by (simp add: map_replicate_const numeral_eq_Suc)
  finally show ?thesis
    using h by (simp add: rank_pattern_def distinct_remdups_id del: map_map)
qed

lemma pattern_singles: "rank_pattern h = [1, 1, 1, 1, 1] \<Longrightarrow> length h = 5 \<Longrightarrow> distinct (map Rank h)"
  by (drule arg_cong [of _ _ length], rule card_distinct)
    (simp add: rank_pattern_def length_remdups_card_conv)

lemma singles_by_weight:
  assumes "distinct (map Rank h)"
  shows "ranks_by_weight h = rev (sort (map Rank h))"
proof (rule sorted_desc_unique)
  let ?rs = "map Rank h"
  have ones: "map (\<lambda>r. (count_list ?rs r, r)) ?rs = map (\<lambda>r. (1, r)) ?rs"
    using assms by (intro map_cong refl) (simp add: count_list_distinct del: set_map map_map)
  define ps where "ps = rev (sort (map (\<lambda>r. (1::nat, r)) ?rs))"
  have w: "ranks_by_weight h = map snd ps"
    unfolding ranks_by_weight_def ps_def ones [symmetric] using assms by (simp only: distinct_remdups_id)
  have one: "fst p = 1" if "p \<in> set ps" for p
    using that by (auto simp: ps_def)
  have "sorted_wrt (\<ge>) ps" by (simp add: ps_def sorted_wrt_rev)
  then have "sorted_wrt (\<lambda>p q. snd q \<le> snd p) ps"
    using one by (elim sorted_wrt_mono_rel [rotated]) (auto simp: less_eq_prod_def)
  then show "sorted_wrt (\<ge>) (ranks_by_weight h)"
    unfolding w by (simp add: sorted_wrt_map)
  show "sorted_wrt (\<ge>) (rev (sort (map Rank h)))" by (simp add: sorted_wrt_rev)
  show "mset (ranks_by_weight h) = mset (rev (sort (map Rank h)))"
    unfolding w by (simp add: ps_def multiset.map_comp comp_def)
qed

text \<open>Five distinct cards of one suit have five ranks, and five of one rank would need five suits.\<close>

lemma Card_eqI: "Suit c = Suit d \<Longrightarrow> Rank c = Rank d \<Longrightarrow> c = (d :: Card)"
  by simp

lemma flush_distinct_ranks:
  assumes "distinct h" "same_suit (set h)"
  shows "distinct (map Rank h)"
  using assms by (auto simp: distinct_map same_suit_def intro!: inj_onI intro: Card_eqI)

lemma not_five_of_a_kind:
  assumes "length h = 5" "distinct h" "list_all valid_card h"
  shows "rank_pattern h \<noteq> [5]"
proof
  assume "rank_pattern h = [5]"
  from arg_cong [OF this, of length] have "card (Rank ` set h) = 1"
    by (simp add: rank_pattern_def length_remdups_card_conv)
  then obtain r where "Rank ` set h = {r}" by (auto simp: card_1_singleton_iff)
  then have "\<And>c. c \<in> set h \<Longrightarrow> Rank c = r" by blast
  then have "inj_on Suit (set h)" by (auto intro!: inj_onI intro: Card_eqI)
  then have "card (Suit ` set h) = 5" using assms by (simp add: card_image distinct_card)
  moreover have "card (Suit ` set h) \<le> card {..<4::nat}"
    using assms(3) by (intro card_inj_on_le [of unat])
      (auto simp: list_all_iff valid_card_def word_less_nat_alt intro!: inj_onI
        intro: word_unat_eq_iff [THEN iffD2])
  ultimately show False by simp
qed


subsection \<open>Rank5 follows the rules\<close>

lemma Rank5_category_ties:
  assumes "length h = 5" "distinct h" "list_all valid_card h"
  shows "Category (Rank5 h) = spec_category h \<and> Tiebreakers (Rank5 h) = ties5 (spec_ties h)"
proof -
  define s where "s = go_sort rank_desc h"
  define G where "G = groupByRank s"
  have fl: "is_flush5 s = same_suit (set h)" by (simp add: s_def is_flush5_sorted assms(1))
  have rs: "map Rank s = rev (sort (map Rank h))" by (simp add: s_def ranks_go_sort)
  have st: "detectStraight (map Rank s) = (case spec_straight h of None \<Rightarrow> (False, 0) | Some hi \<Rightarrow> (True, hi))"
    unfolding rs by (rule detectStraight_spec [OF assms(1,3)])
  have gc: "map gcount G = rank_pattern h" and gr: "map grank G = ranks_by_weight h"
    by (simp_all add: G_def s_def gcounts_pattern granks_by_weight)
  have pat: "rank_pattern h \<in> {[4, 1], [3, 2], [3, 1, 1], [2, 2, 1], [2, 1, 1, 1], [1, 1, 1, 1, 1]}"
    using pattern_cases [OF assms(1) assms(1) assms(1)] not_five_of_a_kind [OF assms] by auto
  have single: "distinct (map Rank h) \<Longrightarrow> rank_pattern h = [1, 1, 1, 1, 1] \<and> ranks_by_weight h = map Rank s"
    using singles_pattern [OF assms(1)] singles_by_weight by (simp add: rs)
  show ?thesis
  proof (cases "spec_straight h")
    case (Some hi)
    then have "rank_pattern h = [1, 1, 1, 1, 1]"
      using single spec_straight_distinct [OF assms(1)] by simp
    moreover from this gc have "gcount (G ! 0) = 1" by (cases G) auto
    ultimately show ?thesis
      using Some st fl
      by (simp add: Rank5_def Let_def spec_category_def spec_ties_def flip: s_def G_def)
  next
    case None
    then have nst: "detectStraight (map Rank s) = (False, 0)" using st by simp
    show ?thesis
    proof (cases "same_suit (set h)")
      case True
      then have "rank_pattern h = [1, 1, 1, 1, 1] \<and> ranks_by_weight h = map Rank s"
        using single flush_distinct_ranks [OF assms(2)] by simp
      moreover from this gc have "gcount (G ! 0) = 1" by (cases G) auto
      ultimately show ?thesis
        using None True nst fl
        by (simp add: Rank5_def Let_def spec_category_def spec_ties_def flip: s_def G_def)
    next
      case False
      show ?thesis
        using pat
      proof (elim insertE emptyE)
        assume "rank_pattern h = [1, 1, 1, 1, 1]"
        moreover from this have "ranks_by_weight h = map Rank s"
          using single pattern_singles [OF _ assms(1)] by blast
        ultimately show ?thesis
          using gc None False nst fl
          by (auto simp: Rank5_def Let_def spec_category_def spec_ties_def map_eq_Cons_conv
              simp flip: s_def G_def)
      qed (use gc gr None False nst fl in
          \<open>auto simp: Rank5_def Let_def spec_category_def spec_ties_def map_eq_Cons_conv
              simp flip: s_def G_def\<close>)
    qed
  qed
qed

section \<open>The displayed cards are the cards of the hand\<close>

lemma fill5_id: "length cs = 5 \<Longrightarrow> fill5 cs = cs"
  by (simp add: fill5_def)

lemma mset_concat_filter:
  "distinct rs \<Longrightarrow>
   mset (concat (map (\<lambda>r. filter (\<lambda>c. f c = r) s) rs)) = mset (filter (\<lambda>c. f c \<in> set rs) s)"
proof (induction rs)
  case (Cons r rs)
  have "{#c \<in># mset s. f c = r#} + {#c \<in># mset s. f c \<in> set rs#} = {#c \<in># mset s. f c \<in> set (r # rs)#}"
    using Cons.prems by (auto simp: multiset_eq_iff)
  with Cons show ?case by simp
qed simp

lemma distinct_granks: "distinct (map grank (groupByRank s))"
proof -
  have "mset (map grank (groupByRank s)) = mset (remdups (map Rank s))"
    by (simp add: groupByRank_def rank_counts_def multiset.map_comp comp_def)
  then show ?thesis by (metis distinct_remdups mset_eq_imp_distinct_iff)
qed

lemma set_granks: "grank ` set (groupByRank s) = Rank ` set s"
  by (auto simp: groupByRank_def rank_counts_def image_iff)

lemma mset_arrangeByGroups:
  assumes "length s = 5"
  shows "mset (arrangeByGroups s (groupByRank s)) = mset s"
proof -
  let ?cs = "concat (map (\<lambda>r. filter (\<lambda>c. Rank c = r) s) (map grank (groupByRank s)))"
  have m: "mset ?cs = mset s"
    by (subst mset_concat_filter [OF distinct_granks]) (simp add: set_granks filter_mset_eq_conv)
  then have "length ?cs = 5" using assms by (metis size_mset)
  moreover have "arrangeByGroups s (groupByRank s) = fill5 ?cs"
    by (simp add: arrangeByGroups_def comp_def)
  ultimately show ?thesis using m by (simp add: fill5_id)
qed

lemma mset_arrangeStraight:
  assumes "length s = 5" "\<forall>c \<in> set s. Rank c < 13" "detectStraight (map Rank s) = (True, hi)"
  shows "mset (arrangeStraight s hi) = mset s"
proof (cases "hi = Five")
  case True
  obtain a b c d e where s: "s = [a, b, c, d, e]" using assms(1) by (rule length5E)
  have "map Rank s = [Ace, Five, Four, Three, Two]"
  proof (rule ccontr)
    assume "map Rank s \<noteq> [Ace, Five, Four, Three, Two]"
    then have "Rank e + 4 = 3" "Rank e < 13"
      using assms(2,3) True by (auto simp: s detectStraight5 split: if_splits)
    then have "Rank e = 3 - 4" by (simp only: eq_diff_eq)
    with \<open>Rank e < 13\<close> show False by simp
  qed
  then show ?thesis
    using True by (simp add: s arrangeStraight_def fill5_def)
qed (simp add: arrangeStraight_def)

lemma Rank5_BestCards:
  assumes "length h = 5" "list_all valid_card h"
  shows "mset (BestCards (Rank5 h)) = mset h"
proof -
  define s where "s = go_sort rank_desc h"
  have s: "length s = 5" "mset s = mset h" "\<forall>c \<in> set s. Rank c < 13"
    using assms by (auto simp: s_def list_all_iff valid_card_def)
  obtain st hi where d: "detectStraight (map Rank s) = (st, hi)" by fastforce
  show ?thesis
    using s d mset_arrangeByGroups [OF s(1)] mset_arrangeStraight [OF s(1) s(3), of hi]
    by (auto simp: Rank5_def Let_def simp flip: s_def)
qed

section \<open>Properties\<close>

text \<open>
  C4. For five to seven distinct cards \<open>Best\<close> succeeds, its result is the rank of some five of
  the cards taken in order, and no five of the cards compare stronger.
\<close>

theorem Best_is_strongest:
  assumes "5 \<le> length cards" "length cards \<le> 7" "distinct cards"
  shows "\<exists>r. Best cards = Inr r \<and>
    (\<exists>h. subseq h cards \<and> length h = 5 \<and> r = Rank5 h) \<and>
    (\<forall>h. subseq h cards \<and> length h = 5 \<longrightarrow> Compare (Rank5 h) r \<le> 0)"
  using Best_max [OF assms] by (metis Rank5_ok hr.cmp_le in_set_subseqs)

definition example_seven :: "Card list" where
  "example_seven = map (\<lambda>(s, r). \<lparr>Suit = s, Rank = r\<rparr>)
     [(Clubs, Ace), (Spades, Ace), (Diamonds, Ace), (Hearts, King), (Clubs, Seven), (Diamonds, Seven), (Spades, Two)]"

theorem Best_is_strongest_witness:
  "(\<exists>r. Best example_seven = Inr r \<and>
     (\<exists>h. subseq h example_seven \<and> length h = 5 \<and> r = Rank5 h) \<and>
     (\<forall>h. subseq h example_seven \<and> length h = 5 \<longrightarrow> Compare (Rank5 h) r \<le> 0)) \<and>
   map_sum id (\<lambda>r. (Category r, take 2 (Tiebreakers r))) (Best example_seven) = Inr (FullHouse, [Ace, Seven])"
proof
  show "map_sum id (\<lambda>r. (Category r, take 2 (Tiebreakers r))) (Best example_seven) = Inr (FullHouse, [Ace, Seven])"
    by code_simp
qed (rule Best_is_strongest; simp add: example_seven_def)

text \<open>
  C9. On five distinct real cards \<open>Rank5\<close> returns the category that the rules of poker give
  (stated by the multiplicities of the ranks, the suits and the run of ranks, without sorting or
  grouping), and the tie-breakers are the straight's high card, or the ranks ordered by
  multiplicity and then by rank, padded with zeros.
\<close>

theorem Rank5_follows_rules:
  assumes "length h = 5" "distinct h" "list_all valid_card h"
  shows "Category (Rank5 h) = spec_category h \<and> Tiebreakers (Rank5 h) = ties5 (spec_ties h)"
  by (rule Rank5_category_ties [OF assms])

theorem Rank5_follows_rules_witness:
  "Category (Rank5 (take 5 example_seven)) = spec_category (take 5 example_seven) \<and>
   Tiebreakers (Rank5 (take 5 example_seven)) = ties5 (spec_ties (take 5 example_seven)) \<and>
   Category (Rank5 (take 5 example_seven)) = ThreeOfAKind"
proof -
  have h: "length (take 5 example_seven) = 5" "distinct (take 5 example_seven)"
    "list_all valid_card (take 5 example_seven)"
    by (simp_all add: example_seven_def valid_card_def)
  have "Category (Rank5 (take 5 example_seven)) = ThreeOfAKind" by code_simp
  with Rank5_follows_rules [OF h] show ?thesis by simp
qed

text \<open>
  The order in which the cards are given does not matter: any permutation of five to seven
  distinct cards evaluates to a hand of equal strength.
\<close>

theorem Best_order_irrelevant:
  assumes "mset xs = mset ys" "5 \<le> length xs" "length xs \<le> 7" "distinct xs"
  shows "\<exists>r q. Best xs = Inr r \<and> Best ys = Inr q \<and> Compare r q = 0"
proof -
  obtain r q where rq: "Best xs = Inr r" "Best ys = Inr q" "hand_key r = hand_key q"
    using Best_perm [OF assms] by blast
  then have "hand_ok r" "hand_ok q"
    using Best_max [OF assms(2-4)] Best_max [of ys] assms
    by (metis Rank5_ok sum.inject(2), metis Rank5_ok mset_eq_imp_distinct_iff size_mset sum.inject(2))
  with rq show ?thesis by (auto simp: hr.cmp_zero)
qed

theorem Best_order_irrelevant_witness:
  "\<exists>r q. Best example_seven = Inr r \<and> Best (rev example_seven) = Inr q \<and> Compare r q = 0"
  by (rule Best_order_irrelevant) (simp_all add: example_seven_def)

text \<open>The five cards that \<open>Rank5\<close> reports are the five cards it was given, rearranged.\<close>

theorem Rank5_shows_the_hand:
  assumes "length h = 5" "list_all valid_card h"
  shows "mset (BestCards (Rank5 h)) = mset h"
  by (rule Rank5_BestCards [OF assms])

theorem Rank5_shows_the_hand_witness:
  "mset (BestCards (Rank5 (take 5 example_seven))) = mset (take 5 example_seven)"
  by (rule Rank5_shows_the_hand) (simp_all add: example_seven_def valid_card_def)

text \<open>
  C35. \<open>Best\<close> fails exactly on fewer than five cards, more than seven, or a repeated card, and
  the card it reports is the first one that occurred before.
\<close>

theorem Best_errors:
  "(Best cards = Inl e \<longleftrightarrow>
    (if length cards < 5 then e = BestTooFew (length cards)
     else if 7 < length cards then e = BestTooMany (length cards)
     else \<not> distinct cards \<and> e = DuplicateCard (the (firstDuplicate cards)))) \<and>
   (\<not> distinct cards \<longrightarrow>
     (\<exists>xs ys. cards = xs @ the (firstDuplicate cards) # ys \<and> distinct xs \<and> the (firstDuplicate cards) \<in> set xs))"
proof
  show "Best cards = Inl e \<longleftrightarrow>
    (if length cards < 5 then e = BestTooFew (length cards)
     else if 7 < length cards then e = BestTooMany (length cards)
     else \<not> distinct cards \<and> e = DuplicateCard (the (firstDuplicate cards)))"
    using firstDuplicate_None [of cards] by (auto simp: Best_def split: option.splits)
  show "\<not> distinct cards \<longrightarrow>
    (\<exists>xs ys. cards = xs @ the (firstDuplicate cards) # ys \<and> distinct xs \<and> the (firstDuplicate cards) \<in> set xs)"
    using firstDuplicate_None [of cards] firstDuplicate_Some [of cards] by fastforce
qed

definition example_dup :: "Card list" where
  "example_dup = hd example_seven # take 5 example_seven"

theorem Best_errors_witness:
  "\<not> distinct example_dup \<and> Best example_dup = Inl (DuplicateCard (hd example_seven)) \<and>
   (\<exists>xs ys. example_dup = xs @ the (firstDuplicate example_dup) # ys \<and> distinct xs \<and>
      the (firstDuplicate example_dup) \<in> set xs)"
proof -
  have "\<not> distinct example_dup" by (simp add: example_dup_def example_seven_def)
  moreover have "Best example_dup = Inl (DuplicateCard (hd example_seven))" by code_simp
  ultimately show ?thesis
    using Best_errors [of example_dup "DuplicateCard (hd example_seven)"] by blast
qed

end
