(* ===== verification/Game_Action.thy ===== *)
theory Game_Action
  imports Prelude
begin

text \<open>
  \<^verbatim>\<open>internal/game/action.go\<close> and the entry type of \<^verbatim>\<open>internal/game/log.go\<close>: actions, log entries
  and their byte encodings, which are what the hash chain and the signatures cover.  The encodings
  truncate lengths to two, one and four bytes; \<open>entry_fits\<close> is the range in which nothing is
  cut off, and there the concatenated encoding of a log can be read back in one way only.
\<close>

section \<open>Actions\<close>

type_synonym ActionKind = u8

abbreviation (input) ActionFold :: ActionKind where "ActionFold \<equiv> 0"
abbreviation (input) ActionCheck :: ActionKind where "ActionCheck \<equiv> 1"
abbreviation (input) ActionCall :: ActionKind where "ActionCall \<equiv> 2"
abbreviation (input) ActionRaise :: ActionKind where "ActionRaise \<equiv> 3"

record Action =
  Kind :: ActionKind
  Amount :: u64

definition Action_Bytes :: "Action \<Rightarrow> bytes" where
  "Action_Bytes a = Kind a # be_bytes 8 (unat (Amount a))"

datatype action_error = ActionBytesTooShort

definition UnmarshalAction :: "bytes \<Rightarrow> action_error + Action" where
  "UnmarshalAction b =
     (if length b < 9 then Inl ActionBytesTooShort
      else Inr \<lparr>Kind = b ! 0, Amount = of_nat (be_nat (take 8 (drop 1 b)))\<rparr>)"

section \<open>Log entries\<close>

record Entry =
  RoundID :: u64
  PlayerID :: u8
  EAction :: Action
  Signature :: bytes
  CoSigners :: "u8 list"
  CoSignatures :: "bytes list"
  Data :: bytes

definition IsAutoFold :: "Entry \<Rightarrow> bool" where
  "IsAutoFold e \<longleftrightarrow> Kind (EAction e) = ActionFold \<and> length (Signature e) = 0"

text \<open>One co-signature: signer, two length bytes, signature.\<close>

definition cosig_bytes :: "u8 \<Rightarrow> bytes \<Rightarrow> bytes" where
  "cosig_bytes signer sig = signer # be_bytes 2 (length sig) @ sig"

definition cosig_section :: "Entry \<Rightarrow> bytes" where
  "cosig_section e =
     (if IsAutoFold e then
        of_nat (length (CoSigners e)) # concat (map2 cosig_bytes (CoSigners e) (CoSignatures e))
      else [])"

definition Entry_Bytes :: "Entry \<Rightarrow> bytes" where
  "Entry_Bytes e =
     be_bytes 8 (unat (RoundID e)) @ [PlayerID e] @ Action_Bytes (EAction e) @
     be_bytes 2 (length (Signature e)) @ Signature e @ cosig_section e @
     be_bytes 4 (length (Data e)) @ Data e"

text \<open>
  \<^verbatim>\<open>Bytes\<close> indexes \<^verbatim>\<open>CoSignatures[i]\<close> for every co-signer, so it panics on an auto-fold entry
  with too few co-signatures; on every other entry it returns \<open>Entry_Bytes\<close>.
\<close>

definition Entry_Bytes_panics :: "Entry \<Rightarrow> bool" where
  "Entry_Bytes_panics e \<longleftrightarrow> IsAutoFold e \<and> length (CoSignatures e) < length (CoSigners e)"

section \<open>Encoding limits and canonical entries\<close>

text \<open>The lengths fit their length fields.\<close>

definition entry_fits :: "Entry \<Rightarrow> bool" where
  "entry_fits e \<longleftrightarrow> length (Signature e) < 2 ^ 16 \<and> length (Data e) < 2 ^ 32 \<and>
     length (CoSigners e) < 2 ^ 8 \<and> (\<forall>s \<in> set (CoSignatures e). length s < 2 ^ 16)"

text \<open>
  Co-signers are encoded for auto-folds only, so other entries are determined by their bytes only
  when they carry none.
\<close>

definition entry_canonical :: "Entry \<Rightarrow> bool" where
  "entry_canonical e \<longleftrightarrow> entry_fits e \<and>
     (if IsAutoFold e then length (CoSignatures e) = length (CoSigners e)
      else CoSigners e = [] \<and> CoSignatures e = [])"

text \<open>A reader for the encoding: the specification against which the encoder is shown faithful.\<close>

fun read_cosigs :: "nat \<Rightarrow> bytes \<Rightarrow> (u8 \<times> bytes) list \<times> bytes" where
  "read_cosigs 0 b = ([], b)"
| "read_cosigs (Suc k) b =
     (let n = be_nat (take 2 (drop 1 b)); (cs, rest) = read_cosigs k (drop n (drop 3 b))
      in ((hd b, take n (drop 3 b)) # cs, rest))"

definition read_entry :: "bytes \<Rightarrow> Entry \<times> bytes" where
  "read_entry b =
     (let n = be_nat (take 2 (drop 18 b));
          sig = take n (drop 20 b);
          act = projr (UnmarshalAction (drop 9 b));
          b2 = drop n (drop 20 b);
          (cs, b3) = (if Kind act = ActionFold \<and> n = 0
                      then read_cosigs (unat (hd b2)) (tl b2) else ([], b2));
          m = be_nat (take 4 b3)
      in (\<lparr>RoundID = of_nat (be_nat (take 8 b)), PlayerID = hd (drop 8 b), EAction = act, Signature = sig,
           CoSigners = map fst cs, CoSignatures = map snd cs, Data = take m (drop 4 b3)\<rparr>,
          drop m (drop 4 b3)))"

section \<open>Lemmas\<close>

lemma of_nat_be_u64 [simp]: "(of_nat (be_nat (be_bytes 8 (unat (w :: u64)))) :: u64) = w"
proof -
  have "unat w < 2 ^ 64" using unsigned_less [of w] by simp
  then have "unat w mod 256 ^ 8 = unat w" by simp
  then show ?thesis by (simp add: be_nat_be_bytes)
qed

lemma length_Action_Bytes [simp]: "length (Action_Bytes a) = 9"
  by (simp add: Action_Bytes_def)

lemma Unmarshal_Action_Bytes [simp]: "UnmarshalAction (Action_Bytes a @ rest) = Inr a"
  by (simp add: UnmarshalAction_def Action_Bytes_def)

lemma be_nat_len2 [simp]: "n < 2 ^ 16 \<Longrightarrow> be_nat (be_bytes 2 n) = n"
  by (simp add: be_nat_be_bytes)

lemma be_nat_len4 [simp]: "n < 2 ^ 32 \<Longrightarrow> be_nat (be_bytes 4 n) = n"
  by (simp add: be_nat_be_bytes)

lemma read_cosig:
  assumes "length s < 2 ^ 16"
  shows "read_cosigs (Suc k) (cosig_bytes c s @ r) = (case read_cosigs k r of (cs, q) \<Rightarrow> ((c, s) # cs, q))"
proof -
  have "be_nat (take 2 (drop 1 (cosig_bytes c s @ r))) = length s"
    "take (length s) (drop 3 (cosig_bytes c s @ r)) = s"
    "drop (length s) (drop 3 (cosig_bytes c s @ r)) = r" "hd (cosig_bytes c s @ r) = c"
    using assms by (simp_all add: cosig_bytes_def)
  then show ?thesis by (simp only: read_cosigs.simps Let_def)
qed

lemma read_cosigs_section:
  assumes "length ss = length cs" "\<forall>s \<in> set ss. length s < 2 ^ 16"
  shows "read_cosigs (length cs) (concat (map2 cosig_bytes cs ss) @ rest) = (zip cs ss, rest)"
  using assms
proof (induction cs ss rule: list_induct2')
  case (4 c cs s ss)
  then show ?case by (simp add: read_cosig del: read_cosigs.simps)
qed auto

lemma read_Entry_Bytes:
  assumes "entry_canonical e"
  shows "read_entry (Entry_Bytes e @ rest) = (e, rest)"
proof -
  define tail where "tail = be_bytes 4 (length (Data e)) @ Data e @ rest"
  define b where "b = Entry_Bytes e @ rest"
  have b: "b = be_bytes 8 (unat (RoundID e)) @ PlayerID e # Action_Bytes (EAction e) @
      be_bytes 2 (length (Signature e)) @ Signature e @ cosig_section e @ tail"
    by (simp add: b_def Entry_Bytes_def tail_def)
  have fits: "length (Signature e) < 2 ^ 16" "length (Data e) < 2 ^ 32" "length (CoSigners e) < 256"
    "\<forall>s \<in> set (CoSignatures e). length s < 2 ^ 16"
    using assms by (auto simp: entry_canonical_def entry_fits_def)
  have n: "be_nat (take 2 (drop 18 b)) = length (Signature e)"
    and sig: "take (length (Signature e)) (drop 20 b) = Signature e"
    and act: "UnmarshalAction (drop 9 b) = Inr (EAction e)"
    and b2: "drop (length (Signature e)) (drop 20 b) = cosig_section e @ tail"
    and rid: "take 8 b = be_bytes 8 (unat (RoundID e))" and pid: "hd (drop 8 b) = PlayerID e"
    using fits(1) by (simp_all add: b)
  define cs where "cs = (if IsAutoFold e then zip (CoSigners e) (CoSignatures e) else [])"
  have cosigs: "(if Kind (EAction e) = ActionFold \<and> length (Signature e) = 0
         then read_cosigs (unat (hd (cosig_section e @ tail))) (tl (cosig_section e @ tail))
         else ([], cosig_section e @ tail)) = (cs, tail)"
  proof (cases "IsAutoFold e")
    case True
    have count: "unat (of_nat (length (CoSigners e)) :: u8) = length (CoSigners e)"
      using fits(3) by (simp add: unat_of_nat)
    have "cosig_section e @ tail =
        of_nat (length (CoSigners e)) # concat (map2 cosig_bytes (CoSigners e) (CoSignatures e)) @ tail"
      using True by (simp add: cosig_section_def)
    moreover have "Kind (EAction e) = ActionFold \<and> length (Signature e) = 0"
      using True by (simp add: IsAutoFold_def)
    moreover have "length (CoSignatures e) = length (CoSigners e)"
      using True assms by (simp add: entry_canonical_def)
    note read_cosigs_section [OF this fits(4), of tail]
    ultimately show ?thesis using True by (simp only: list.sel count cs_def if_True simp_thms)
  next
    case False
    then have "\<not> (Kind (EAction e) = ActionFold \<and> length (Signature e) = 0)"
      by (simp add: IsAutoFold_def)
    moreover have "cosig_section e = []" "cs = []" using False by (simp_all add: cosig_section_def cs_def)
    ultimately show ?thesis by (simp only: if_False append_Nil)
  qed
  have "map fst cs = CoSigners e" "map snd cs = CoSignatures e"
    using assms by (auto simp: cs_def entry_canonical_def split: if_splits)
  moreover have "be_nat (take 4 tail) = length (Data e)" "take (length (Data e)) (drop 4 tail) = Data e"
    "drop (length (Data e)) (drop 4 tail) = rest"
    using fits(2) by (simp_all add: tail_def)
  ultimately show ?thesis
    unfolding b_def [symmetric] read_entry_def Let_def n sig act b2 rid pid sum.sel cosigs prod.case
    by (simp only: of_nat_be_u64 prod.case) simp
qed

lemma length_Entry_Bytes: "24 \<le> length (Entry_Bytes e)"
  by (simp add: Entry_Bytes_def)

lemma Entry_Bytes_not_Nil [simp]: "Entry_Bytes e \<noteq> []"
  using length_Entry_Bytes [of e] by auto

text \<open>No entry's bytes begin another's: reading decides where an entry ends.\<close>

lemma Entry_Bytes_prefix_free:
  assumes "entry_canonical e" "entry_canonical f" "Entry_Bytes e @ xs = Entry_Bytes f @ ys"
  shows "e = f \<and> xs = ys"
  using arg_cong [OF assms(3), of read_entry] by (simp only: read_Entry_Bytes assms(1, 2) prod.inject)

end
