(* ===== verification/Game_State.thy ===== *)
theory Game_State
  imports Game_Action
begin

text \<open>
  \<^verbatim>\<open>internal/game/state.go\<close>: the derived game state, \<^verbatim>\<open>Replay\<close> and \<^verbatim>\<open>ValidateAction\<close>, over 64-bit
  chip counts.  The second half states the rules of a betting hand over plain numbers (\<open>table\<close>,
  \<open>play\<close>, \<open>allowed\<close>) and shows that replaying a legal log is playing those rules, that chips are
  never created or lost, that no legal log makes \<^verbatim>\<open>Replay\<close> panic and that every hand ends.
\<close>

section \<open>State\<close>

type_synonym Street = u8

abbreviation (input) StreetPreflop :: Street where "StreetPreflop \<equiv> 0"
abbreviation (input) StreetFlop :: Street where "StreetFlop \<equiv> 1"
abbreviation (input) StreetTurn :: Street where "StreetTurn \<equiv> 2"
abbreviation (input) StreetRiver :: Street where "StreetRiver \<equiv> 3"
abbreviation (input) StreetShowdown :: Street where "StreetShowdown \<equiv> 4"

record State =
  Stacks :: "u64 list"
  Pot :: u64
  CurrentBet :: u64
  Contributions :: "u64 list"
  Folded :: "bool list"
  NumPlayers :: u8
  Street :: Street
  HandOver :: bool

definition NumNonFolded :: "State \<Rightarrow> nat" where
  "NumNonFolded s = length (filter Not (Folded s))"

section \<open>Replaying a log\<close>

text \<open>
  The loop of \<^verbatim>\<open>Replay\<close> carries the state and the local variable \<^verbatim>\<open>unsettled\<close>.  Indexing a slice
  with a seat that is out of range panics, which is \<open>None\<close>.
\<close>

type_synonym replay_state = "State \<times> int"

definition pay :: "nat \<Rightarrow> u64 \<Rightarrow> State \<Rightarrow> State" where
  "pay p target s =
     (let cost = min (target - Contributions s ! p) (Stacks s ! p)
      in s\<lparr>Stacks := (Stacks s)[p := Stacks s ! p - cost],
           Contributions := (Contributions s)[p := Contributions s ! p + cost],
           Pot := Pot s + cost\<rparr>)"

definition apply_entry :: "Entry \<Rightarrow> replay_state \<Rightarrow> replay_state option" where
  "apply_entry e r =
     (let (s, unsettled) = r; p = unat (PlayerID e); k = Kind (EAction e) in
      if k = ActionFold then
        if p < length (Folded s) then Some (s\<lparr>Folded := (Folded s)[p := True]\<rparr>, unsettled - 1) else None
      else if k = ActionCheck then Some (s, unsettled - 1)
      else if k = ActionCall then
        if p < length (Contributions s) \<and> p < length (Stacks s)
        then Some (pay p (CurrentBet s) s, unsettled - 1) else None
      else if k = ActionRaise then
        if p < length (Contributions s) \<and> p < length (Stacks s)
        then let s' = pay p (Amount (EAction e)) s
             in Some (s'\<lparr>CurrentBet := Contributions s' ! p\<rparr>, int (NumNonFolded s') - 1)
        else None
      else Some (s, unsettled))"

definition settle :: "replay_state \<Rightarrow> replay_state" where
  "settle r =
     (let (s, unsettled) = r in
      if NumNonFolded s \<le> 1 then (s\<lparr>HandOver := True\<rparr>, unsettled)
      else if unsettled = 0 then
        let s = s\<lparr>Street := Street s + 1\<rparr> in
        if StreetShowdown \<le> Street s then (s\<lparr>HandOver := True\<rparr>, unsettled)
        else (s\<lparr>CurrentBet := 0, Contributions := map (\<lambda>_. 0) (Contributions s)\<rparr>, int (NumNonFolded s))
      else (s, unsettled))"

fun replay_loop :: "Entry list \<Rightarrow> replay_state \<Rightarrow> replay_state option" where
  "replay_loop [] r = Some r"
| "replay_loop (e # es) r =
     (if HandOver (fst r) then Some r
      else case apply_entry e r of None \<Rightarrow> None | Some r' \<Rightarrow> replay_loop es (settle r'))"

definition replay_init :: "u8 \<Rightarrow> u64 \<Rightarrow> replay_state" where
  "replay_init numPlayers startingStack =
     (\<lparr>Stacks = replicate (unat numPlayers) startingStack, Pot = 0, CurrentBet = 0,
       Contributions = replicate (unat numPlayers) 0, Folded = replicate (unat numPlayers) False,
       NumPlayers = numPlayers, Street = StreetPreflop, HandOver = False\<rparr>, int (unat numPlayers))"

definition Replay :: "Entry list \<Rightarrow> u8 \<Rightarrow> u64 \<Rightarrow> State option" where
  "Replay entries numPlayers startingStack =
     map_option fst (replay_loop entries (replay_init numPlayers startingStack))"

section \<open>Legal actions\<close>

datatype illegal =
    HandIsOver
  | PlayerOutOfRange u8
  | PlayerAlreadyFolded u8
  | FoldAmount
  | CheckAmount
  | CannotCheck u64
  | CallAmount
  | NothingToCall
  | RaiseTooSmall u64 u64
  | RaiseTooExpensive u64 u64
  | UnknownActionKind u8

definition ValidateAction :: "State \<Rightarrow> u8 \<Rightarrow> Action \<Rightarrow> illegal + unit" where
  "ValidateAction s playerID action =
     (let p = unat playerID; k = Kind action; amount = Amount action in
      if HandOver s then Inl HandIsOver
      else if length (Stacks s) \<le> p then Inl (PlayerOutOfRange playerID)
      else if Folded s ! p then Inl (PlayerAlreadyFolded playerID)
      else if k = ActionFold then if amount \<noteq> 0 then Inl FoldAmount else Inr ()
      else if k = ActionCheck then
        if amount \<noteq> 0 then Inl CheckAmount
        else if Contributions s ! p < CurrentBet s then Inl (CannotCheck (CurrentBet s - Contributions s ! p))
        else Inr ()
      else if k = ActionCall then
        if amount \<noteq> 0 then Inl CallAmount
        else if CurrentBet s - Contributions s ! p = 0 then Inl NothingToCall
        else Inr ()
      else if k = ActionRaise then
        if amount \<le> CurrentBet s then Inl (RaiseTooSmall amount (CurrentBet s))
        else if Stacks s ! p < amount - Contributions s ! p
        then Inl (RaiseTooExpensive (amount - Contributions s ! p) (Stacks s ! p))
        else Inr ()
      else Inl (UnknownActionKind k))"

text \<open>
  What the two ways into the log require of an entry: \<^verbatim>\<open>VerifyProposal\<close> asks \<^verbatim>\<open>ValidateAction\<close>;
  \<^verbatim>\<open>VerifyAutoFoldEntry\<close> asks only that the target seat exists and has not folded.
\<close>

definition admits :: "State \<Rightarrow> Entry \<Rightarrow> bool" where
  "admits s e \<longleftrightarrow> ValidateAction s (PlayerID e) (EAction e) = Inr () \<or>
     Kind (EAction e) = ActionFold \<and> unat (PlayerID e) < length (Folded s) \<and> \<not> Folded s ! unat (PlayerID e)"

inductive legal_log :: "u8 \<Rightarrow> u64 \<Rightarrow> Entry list \<Rightarrow> bool" for n st where
  legal_empty: "legal_log n st []"
| legal_snoc: "legal_log n st es \<Longrightarrow> Replay es n st = Some s \<Longrightarrow> admits s e \<Longrightarrow> legal_log n st (es @ [e])"

inductive_cases legal_snocE: "legal_log n st (es @ [e])"

section \<open>The rules of a betting hand\<close>

text \<open>
  The specification: chips and bets are numbers, the bet level is the largest bet on the table, and
  a table records how many players still owe an action on the street.
\<close>

datatype move = Fold | Check | Call | RaiseTo nat

record table =
  chips :: "nat list"
  bets :: "nat list"
  live :: "bool list"
  pot :: nat
  owing :: nat
  stage :: nat
  over :: bool

definition level :: "table \<Rightarrow> nat" where
  "level t = Max (set (bets t))"

definition num_live :: "table \<Rightarrow> nat" where
  "num_live t = count_list (live t) True"

definition put_in :: "nat \<Rightarrow> nat \<Rightarrow> table \<Rightarrow> table" where
  "put_in p c t = t\<lparr>chips := (chips t)[p := chips t ! p - c], bets := (bets t)[p := bets t ! p + c],
                    pot := pot t + c\<rparr>"

fun make_move :: "nat \<Rightarrow> move \<Rightarrow> table \<Rightarrow> table" where
  "make_move p Fold t = t\<lparr>live := (live t)[p := False], owing := owing t - 1\<rparr>"
| "make_move p Check t = t\<lparr>owing := owing t - 1\<rparr>"
| "make_move p Call t = (put_in p (min (level t - bets t ! p) (chips t ! p)) t)\<lparr>owing := owing t - 1\<rparr>"
| "make_move p (RaiseTo a) t = (put_in p (a - bets t ! p) t)\<lparr>owing := num_live t - 1\<rparr>"

definition next_stage :: "table \<Rightarrow> table" where
  "next_stage t =
     (if num_live t = 1 then t\<lparr>over := True\<rparr>
      else if owing t \<noteq> 0 then t
      else if stage t = 3 then t\<lparr>stage := 4, over := True\<rparr>
      else t\<lparr>stage := stage t + 1, bets := replicate (length (bets t)) 0, owing := num_live t\<rparr>)"

definition play :: "nat \<times> move \<Rightarrow> table \<Rightarrow> table" where
  "play pm t = (if over t then t else next_stage (make_move (fst pm) (snd pm) t))"

definition new_table :: "nat \<Rightarrow> nat \<Rightarrow> table" where
  "new_table n st = \<lparr>chips = replicate n st, bets = replicate n 0, live = replicate n True, pot = 0,
                     owing = n, stage = 0, over = False\<rparr>"

definition allowed :: "table \<Rightarrow> nat \<Rightarrow> move \<Rightarrow> bool" where
  "allowed t p m \<longleftrightarrow> \<not> over t \<and> p < length (live t) \<and> live t ! p \<and>
     (case m of Fold \<Rightarrow> True | Check \<Rightarrow> bets t ! p = level t | Call \<Rightarrow> bets t ! p < level t
      | RaiseTo a \<Rightarrow> level t < a \<and> a \<le> bets t ! p + chips t ! p)"

text \<open>How the code's values are read as the rules' values.\<close>

definition move_of :: "Action \<Rightarrow> move" where
  "move_of a = (if Kind a = ActionFold then Fold else if Kind a = ActionCheck then Check
     else if Kind a = ActionCall then Call else RaiseTo (unat (Amount a)))"

definition well_formed_action :: "Action \<Rightarrow> bool" where
  "well_formed_action a \<longleftrightarrow> Kind a \<le> ActionRaise \<and> (Kind a \<noteq> ActionRaise \<longrightarrow> Amount a = 0)"

definition table_of :: "replay_state \<Rightarrow> table" where
  "table_of r = (let (s, u) = r in
     \<lparr>chips = map unat (Stacks s), bets = map unat (Contributions s), live = map Not (Folded s),
      pot = unat (Pot s), owing = nat u, stage = unat (Street s), over = HandOver s\<rparr>)"

definition moves_of :: "Entry list \<Rightarrow> (nat \<times> move) list" where
  "moves_of es = map (\<lambda>e. (unat (PlayerID e), move_of (EAction e))) es"

section \<open>Facts about the rules\<close>

definition table_ok :: "nat \<Rightarrow> nat \<Rightarrow> table \<Rightarrow> bool" where
  "table_ok N T t \<longleftrightarrow> 2 \<le> N \<and> length (chips t) = N \<and> length (bets t) = N \<and> length (live t) = N \<and>
     sum_list (chips t) + pot t = T \<and> sum_list (bets t) \<le> pot t \<and> stage t \<le> 4 \<and> 1 \<le> num_live t \<and>
     (\<not> over t \<longrightarrow> stage t < 4 \<and> 1 \<le> owing t \<and> owing t \<le> num_live t \<and> 2 \<le> num_live t)"

definition potential :: "table \<Rightarrow> nat" where
  "potential t = owing t + length (live t) * (3 - stage t) + length (live t) * sum_list (chips t)"

lemma num_live_fold:
  assumes "p < length xs" "xs ! p"
  shows "count_list (xs[p := False]) True = count_list xs True - 1"
proof -
  have "count (mset (xs[p := False])) True = count (mset xs) True - 1"
    using assms by (simp add: mset_update)
  then show ?thesis by (simp add: count_mset)
qed

lemma count_list_le_length: "count_list xs x \<le> length xs"
  by (induction xs) auto

lemma num_live_le: "num_live t \<le> length (live t)"
  by (simp add: num_live_def count_list_le_length)

lemma num_live_simps [simp]:
  "num_live (put_in p c t) = num_live t" "num_live (t\<lparr>owing := k\<rparr>) = num_live t"
  "num_live (t\<lparr>over := b\<rparr>) = num_live t" "num_live (t\<lparr>stage := i\<rparr>) = num_live t"
  "num_live (t\<lparr>bets := bs\<rparr>) = num_live t"
  by (simp_all add: num_live_def put_in_def)

lemma sum_list_take_from:
  fixes xs :: "nat list"
  assumes "p < length xs" "c \<le> xs ! p"
  shows "sum_list (xs[p := xs ! p - c]) + c = sum_list xs"
proof -
  have "xs ! p \<le> sum_list xs" using assms(1) by (simp add: member_le_sum_list)
  then show ?thesis using assms by (simp add: sum_list_update)
qed

lemma sum_list_add_to:
  fixes xs :: "nat list"
  assumes "p < length xs"
  shows "sum_list (xs[p := xs ! p + c]) = sum_list xs + c"
  using assms by (simp add: sum_list_update member_le_sum_list)

lemma bet_le_level: "p < length (bets t) \<Longrightarrow> bets t ! p \<le> level t"
  by (simp add: level_def)

text \<open>A move that pays \<open>c\<close> chips.\<close>

lemma put_in_chips:
  assumes "p < length (chips t)" "c \<le> chips t ! p"
  shows "sum_list (chips (put_in p c t)) + c = sum_list (chips t)"
  using sum_list_take_from [OF assms] by (simp add: put_in_def)

lemma put_in_bets:
  assumes "p < length (bets t)"
  shows "sum_list (bets (put_in p c t)) = sum_list (bets t) + c"
  using sum_list_add_to [OF assms, of c] by (simp add: put_in_def)

lemma put_in_fields [simp]:
  "length (chips (put_in p c t)) = length (chips t)" "length (bets (put_in p c t)) = length (bets t)"
  "live (put_in p c t) = live t" "pot (put_in p c t) = pot t + c" "owing (put_in p c t) = owing t"
  "stage (put_in p c t) = stage t" "over (put_in p c t) = over t"
  by (simp_all add: put_in_def)

text \<open>What a move makes of the table, before the street is settled.\<close>

lemma make_move_facts:
  assumes ok: "table_ok N T t" and al: "allowed t p m"
  shows "length (chips (make_move p m t)) = N" "length (bets (make_move p m t)) = N"
    "length (live (make_move p m t)) = N" "stage (make_move p m t) = stage t"
    "over (make_move p m t) = over t"
    "sum_list (chips (make_move p m t)) + pot (make_move p m t) = T"
    "sum_list (bets (make_move p m t)) \<le> pot (make_move p m t)"
    "1 \<le> num_live (make_move p m t)" "owing (make_move p m t) \<le> num_live (make_move p m t)"
proof -
  have p: "p < N" "live t ! p" using ok al by (auto simp: table_ok_def allowed_def)
  note d = ok [unfolded table_ok_def]
  have live: "\<not> over t" using al by (simp add: allowed_def)
  show "length (chips (make_move p m t)) = N" "length (bets (make_move p m t)) = N"
    "length (live (make_move p m t)) = N" "stage (make_move p m t) = stage t"
    "over (make_move p m t) = over t"
    using d by (cases m; simp)+
  have pay: "sum_list (chips (put_in p c t)) + (pot t + c) = T \<and> sum_list (bets (put_in p c t)) \<le> pot t + c"
    if "c \<le> chips t ! p" for c
    using put_in_chips [of p t c] put_in_bets [of p t c] that d p by simp
  have "sum_list (chips (make_move p m t)) + pot (make_move p m t) = T \<and>
      sum_list (bets (make_move p m t)) \<le> pot (make_move p m t)"
  proof (cases m)
    case Call
    then show ?thesis using pay [of "min (level t - bets t ! p) (chips t ! p)"] by simp
  next
    case (RaiseTo a)
    then have "a \<le> bets t ! p + chips t ! p" using al by (simp add: allowed_def)
    then have "a - bets t ! p \<le> chips t ! p" by linarith
    from pay [OF this] RaiseTo show ?thesis by simp
  qed (use d in simp_all)
  then show "sum_list (chips (make_move p m t)) + pot (make_move p m t) = T"
    "sum_list (bets (make_move p m t)) \<le> pot (make_move p m t)" by blast+
  have folded: "num_live (make_move p Fold t) = num_live t - 1"
    using p d by (simp add: num_live_def num_live_fold)
  show "1 \<le> num_live (make_move p m t)"
    using d folded live by (cases m) auto
  show "owing (make_move p m t) \<le> num_live (make_move p m t)"
    using d folded live by (cases m) auto
qed

lemma next_stage_ok:
  assumes "2 \<le> N" "length (chips t) = N" "length (bets t) = N" "length (live t) = N"
    "sum_list (chips t) + pot t = T" "sum_list (bets t) \<le> pot t" "stage t < 4"
    "1 \<le> num_live t" "owing t \<le> num_live t"
  shows "table_ok N T (next_stage t)"
  using assms by (auto simp: table_ok_def next_stage_def sum_list_replicate)

lemma play_ok:
  assumes "table_ok N T t" "allowed t p m"
  shows "table_ok N T (play (p, m) t)"
proof -
  have "2 \<le> N" "stage t < 4" "\<not> over t" using assms by (auto simp: table_ok_def allowed_def)
  then show ?thesis using make_move_facts [OF assms] by (simp add: play_def next_stage_ok)
qed

text \<open>Every allowed move uses up some of the potential.\<close>

lemma make_move_potential:
  assumes ok: "table_ok N T t" and al: "allowed t p m"
  shows "potential (make_move p m t) < potential t"
proof (cases m)
  case (RaiseTo a)
  let ?c = "a - bets t ! p"
  have p: "p < N" and n: "length (chips t) = N" "length (bets t) = N" "length (live t) = N"
    and owing: "1 \<le> owing t"
    using ok al by (auto simp: table_ok_def allowed_def)
  have "level t < a" "a \<le> bets t ! p + chips t ! p" using al RaiseTo by (simp_all add: allowed_def)
  then have c: "1 \<le> ?c" "?c \<le> chips t ! p" using bet_le_level [of p t] p n by simp_all
  then have "sum_list (chips (put_in p ?c t)) + ?c = sum_list (chips t)"
    using put_in_chips [of p t ?c] p n by blast
  then have "N * sum_list (chips t) = N * sum_list (chips (put_in p ?c t)) + N * ?c"
    by (metis add_mult_distrib2)
  moreover have "N \<le> N * ?c" using c(1) by simp
  moreover have "num_live t \<le> N" using num_live_le [of t] n by simp
  moreover have "1 \<le> num_live t" using ok by (simp add: table_ok_def)
  ultimately have "num_live t - 1 + N * sum_list (chips (put_in p ?c t)) < owing t + N * sum_list (chips t)"
    using owing by linarith
  then show ?thesis using RaiseTo n by (simp add: potential_def)
next
  case Call
  let ?c = "min (level t - bets t ! p) (chips t ! p)"
  have "p < length (chips t)" "1 \<le> owing t" using ok al by (auto simp: table_ok_def allowed_def)
  then have "sum_list (chips (put_in p ?c t)) \<le> sum_list (chips t)" "1 \<le> owing t"
    using put_in_chips [of p t ?c] by simp_all
  then have "owing t - 1 + length (live t) * sum_list (chips (put_in p ?c t)) < owing t + length (live t) * sum_list (chips t)"
    by (intro add_less_le_mono mult_le_mono2) simp_all
  then show ?thesis using Call by (simp add: potential_def)
qed (use ok al in \<open>auto simp: potential_def table_ok_def allowed_def\<close>)

lemma next_stage_potential:
  assumes "stage t < 4" "length (live t) = N"
  shows "over (next_stage t) \<or> potential (next_stage t) \<le> potential t"
proof (cases "num_live t = 1 \<or> owing t \<noteq> 0 \<or> stage t = 3")
  case False
  then have "num_live t \<le> N" "3 - stage t = Suc (3 - Suc (stage t))"
    using num_live_le [of t] assms by auto
  then show ?thesis using False assms by (simp add: next_stage_def potential_def)
qed (auto simp: next_stage_def)

lemma play_potential:
  assumes "table_ok N T t" "allowed t p m" "\<not> over (play (p, m) t)"
  shows "potential (play (p, m) t) < potential t"
proof -
  have "stage t < 4" "\<not> over t" using assms by (auto simp: table_ok_def allowed_def)
  then show ?thesis
    using next_stage_potential [of "make_move p m t" N] make_move_facts [OF assms(1, 2)]
      make_move_potential [OF assms(1, 2)] assms(3)
    by (auto simp: play_def)
qed

lemma new_table_ok: "2 \<le> N \<Longrightarrow> table_ok N (N * st) (new_table N st)"
proof -
  have "count_list (replicate N True) True = N" by (induction N) auto
  then show "2 \<le> N \<Longrightarrow> table_ok N (N * st) (new_table N st)"
    by (simp add: table_ok_def new_table_def num_live_def sum_list_replicate)
qed

section \<open>Replaying refines the rules\<close>

lemma unat_min [simp]: "unat (min a b :: 'a::len word) = min (unat a) (unat b)"
  by (simp add: min_def word_le_nat_alt)

lemma unat_diff_le: "b \<le> a \<Longrightarrow> unat (a - b :: 'a::len word) = unat a - unat b"
  by (simp add: unat_sub_if' word_le_nat_alt)

lemma unat_add_less: "unat a + unat b < 2 ^ LENGTH('a) \<Longrightarrow> unat (a + b :: 'a::len word) = unat a + unat b"
  by (simp add: unat_plus_if')

lemma table_of_fields [simp]:
  "chips (table_of (s, u)) = map unat (Stacks s)" "bets (table_of (s, u)) = map unat (Contributions s)"
  "live (table_of (s, u)) = map Not (Folded s)" "pot (table_of (s, u)) = unat (Pot s)"
  "owing (table_of (s, u)) = nat u" "stage (table_of (s, u)) = unat (Street s)"
  "over (table_of (s, u)) = HandOver s"
  by (simp_all add: table_of_def)

lemma num_live_table_of [simp]: "num_live (table_of (s, u)) = NumNonFolded s"
proof -
  have "count_list (map Not xs) True = length (filter Not xs)" for xs by (induction xs) auto
  then show ?thesis by (simp add: num_live_def NumNonFolded_def)
qed

text \<open>The relation kept along a legal log, for \<open>N\<close> seats and \<open>T\<close> chips on the table.\<close>

definition sim :: "nat \<Rightarrow> nat \<Rightarrow> replay_state \<Rightarrow> bool" where
  "sim N T r \<longleftrightarrow> T < 2 ^ 64 \<and> 0 \<le> snd r \<and> unat (CurrentBet (fst r)) = level (table_of r) \<and>
     table_ok N T (table_of r)"

lemma simD:
  assumes "sim N T (s, u)"
  shows "length (Stacks s) = N" "length (Contributions s) = N" "length (Folded s) = N" "T < 2 ^ 64" "0 \<le> u"
    "unat (CurrentBet s) = level (table_of (s, u))" "table_ok N T (table_of (s, u))" "2 \<le> N"
  using assms by (auto simp: sim_def table_ok_def)

lemma contribution_le_bet:
  assumes "sim N T (s, u)" "p < N"
  shows "Contributions s ! p \<le> CurrentBet s"
  using bet_le_level [of p "table_of (s, u)"] simD [OF assms(1)] assms(2)
  by (simp add: word_le_nat_alt)

lemma pay_refines:
  assumes sim: "sim N T (s, u)" and p: "p < N" and target: "Contributions s ! p \<le> target"
  shows "table_of (pay p target s, v) =
    (put_in p (min (unat target - bets (table_of (s, u)) ! p) (chips (table_of (s, u)) ! p)) (table_of (s, u)))
      \<lparr>owing := nat v\<rparr>"
proof -
  let ?cost = "min (target - Contributions s ! p) (Stacks s ! p)"
  have len: "length (Stacks s) = N" "length (Contributions s) = N" using simD [OF sim] by auto
  have cost: "unat ?cost = min (unat target - unat (Contributions s ! p)) (unat (Stacks s ! p))"
    by (simp add: unat_diff_le [OF target])
  have "unat (Stacks s ! p) \<le> sum_list (map unat (Stacks s))"
    using p len by (simp add: member_le_sum_list)
  moreover have "sum_list (map unat (Stacks s)) + unat (Pot s) < 2 ^ 64"
    using simD [OF sim] by (simp add: table_ok_def)
  ultimately have pot: "unat (Pot s + ?cost) = unat (Pot s) + unat ?cost"
    by (intro unat_add_less) simp
  have "unat target < 2 ^ 64" using unsigned_less [of target] by simp
  moreover have "unat (Contributions s ! p) \<le> unat target" using target by (simp add: word_le_nat_alt)
  ultimately have con: "unat (Contributions s ! p + ?cost) = unat (Contributions s ! p) + unat ?cost"
    by (intro unat_add_less) (simp add: unat_diff_le [OF target])
  have stack: "unat (Stacks s ! p - ?cost) = unat (Stacks s ! p) - unat ?cost"
    by (rule unat_diff_le) simp
  show ?thesis
    unfolding table_of_def pay_def put_in_def Let_def prod.case using p len
    by (simp add: map_update pot con stack unat_diff_le [OF target])
qed

lemma settle_refines:
  assumes "0 \<le> u" "Street s < StreetShowdown" "1 \<le> NumNonFolded s"
  shows "table_of (settle (s, u)) = next_stage (table_of (s, u))"
proof -
  have street: "unat (Street s + 1) = unat (Street s) + 1"
    using assms(2) unat_add_less [of "Street s" 1] by (simp add: word_less_nat_alt)
  have three: "StreetShowdown \<le> Street s + 1 \<longleftrightarrow> unat (Street s) = 3"
    using assms(2) by (auto simp: word_le_nat_alt word_less_nat_alt street)
  consider "NumNonFolded s = 1" | "NumNonFolded s \<noteq> 1" "u \<noteq> 0" | "NumNonFolded s \<noteq> 1" "u = 0" "unat (Street s) = 3"
    | "NumNonFolded s \<noteq> 1" "u = 0" "unat (Street s) \<noteq> 3" by blast
  then show ?thesis
  proof cases
    case 1
    then show ?thesis by (intro table.equality) (simp_all add: settle_def next_stage_def)
  next
    case 2
    then show ?thesis using assms by (simp add: settle_def next_stage_def)
  next
    case 3
    then show ?thesis using assms street three
      by (intro table.equality) (simp_all add: settle_def next_stage_def NumNonFolded_def Let_def)
  next
    case 4
    then have "\<not> StreetShowdown \<le> Street s + 1" using three by blast
    with 4 show ?thesis using assms street
      by (intro table.equality) (simp_all add: settle_def next_stage_def NumNonFolded_def Let_def o_def map_replicate_const)
  qed
qed

lemma Max_update_below:
  fixes xs :: "nat list"
  assumes "p < length xs" "xs ! p < Max (set xs)" "v \<le> Max (set xs)"
  shows "Max (set (xs[p := v])) = Max (set xs)"
proof (rule Max_eqI)
  fix y assume "y \<in> set (xs[p := v])"
  then show "y \<le> Max (set xs)" using assms(3) set_update_subset_insert [of xs p v] by auto
next
  obtain j where j: "j < length xs" "xs ! j = Max (set xs)"
    using Max_in [of "set xs"] assms(1) by (fastforce simp: in_set_conv_nth)
  moreover have "j \<noteq> p" using j assms(2) by auto
  ultimately have "xs[p := v] ! j = Max (set xs)" by simp
  then show "Max (set xs) \<in> set (xs[p := v])" using j(1) by (metis length_list_update nth_mem)
qed simp

lemma Max_update_above:
  fixes xs :: "nat list"
  assumes "p < length xs" "Max (set xs) \<le> v"
  shows "Max (set (xs[p := v])) = v"
proof (rule Max_eqI)
  fix y assume "y \<in> set (xs[p := v])"
  then have "y = v \<or> y \<in> set xs" using set_update_subset_insert [of xs p v] by auto
  then show "y \<le> v" using assms(2) by (auto intro: order_trans [OF Max_ge])
next
  show "v \<in> set (xs[p := v])" using assms(1) by (rule set_update_memI)
qed simp

text \<open>\<^verbatim>\<open>ValidateAction\<close> decides exactly the moves the rules allow.\<close>

lemma word_kinds: "(k :: u8) \<le> 3 \<longleftrightarrow> k = 0 \<or> k = 1 \<or> k = 2 \<or> k = 3"
proof -
  have "unat k \<le> 3 \<longleftrightarrow> unat k = 0 \<or> unat k = 1 \<or> unat k = 2 \<or> unat k = 3" by arith
  then show ?thesis by (simp add: word_le_nat_alt word_unat_eq_iff)
qed

lemma Validate_allowed:
  assumes sim: "sim N T (s, u)"
  shows "ValidateAction s p a = Inr () \<longleftrightarrow>
    well_formed_action a \<and> allowed (table_of (s, u)) (unat p) (move_of a)"
proof (cases "\<not> HandOver s \<and> unat p < N \<and> \<not> Folded s ! unat p")
  case True
  let ?c = "Contributions s ! unat p" and ?st = "Stacks s ! unat p" and ?b = "CurrentBet s"
  have len: "length (Stacks s) = N" "length (Contributions s) = N" "length (Folded s) = N"
    and level: "level (table_of (s, u)) = unat ?b"
    using simD [OF sim] by auto
  have le: "?c \<le> ?b" using contribution_le_bet [OF sim] True by simp
  have call: "?b - ?c = 0 \<longleftrightarrow> \<not> unat ?c < unat ?b"
    using le by (auto simp: word_le_nat_alt word_unat_eq_iff unat_diff_le)
  have check: "?c < ?b \<longleftrightarrow> \<not> unat ?c = unat ?b"
    using le by (auto simp: word_le_nat_alt word_less_nat_alt)
  note seat = True len level
  consider "Kind a = ActionFold" | "Kind a = ActionCheck" | "Kind a = ActionCall" | "Kind a = ActionRaise"
    | "Kind a \<noteq> 0" "Kind a \<noteq> 1" "Kind a \<noteq> 2" "Kind a \<noteq> 3" by blast
  then show ?thesis
  proof cases
    case 2
    with seat check show ?thesis
      by (simp add: ValidateAction_def Let_def allowed_def move_of_def well_formed_action_def word_kinds)
  next
    case 3
    with seat call show ?thesis
      by (simp add: ValidateAction_def Let_def allowed_def move_of_def well_formed_action_def word_kinds)
  next
    case 4
    show ?thesis
    proof (cases "Amount a \<le> ?b")
      case False
      then have "unat (Amount a - ?c) = unat (Amount a) - unat ?c" using le by (intro unat_diff_le) simp
      then show ?thesis using 4 seat False
        by (auto simp: ValidateAction_def Let_def allowed_def move_of_def well_formed_action_def word_kinds
            word_less_nat_alt word_le_nat_alt)
    qed (use 4 seat in \<open>simp add: ValidateAction_def Let_def allowed_def move_of_def word_le_nat_alt\<close>)
  qed (use seat in \<open>simp_all add: ValidateAction_def Let_def allowed_def move_of_def well_formed_action_def word_kinds\<close>)
next
  case False
  then show ?thesis using simD [OF sim] by (auto simp: ValidateAction_def Let_def allowed_def)
qed

lemma apply_entry_refines:
  assumes sim: "sim N T (s, u)"
    and al: "allowed (table_of (s, u)) (unat (PlayerID e)) (move_of (EAction e))"
    and kind: "Kind (EAction e) \<le> ActionRaise"
  obtains s' u' where "apply_entry e (s, u) = Some (s', u')"
    "table_of (s', u') = make_move (unat (PlayerID e)) (move_of (EAction e)) (table_of (s, u))"
    "unat (CurrentBet s') = level (table_of (s', u'))" "0 \<le> u'" "Street s' = Street s"
proof -
  let ?p = "unat (PlayerID e)" and ?t = "table_of (s, u)"
  have p: "?p < N" using al simD(3) [OF sim] by (simp add: allowed_def)
  have len: "length (Stacks s) = N" "length (Contributions s) = N" "length (Folded s) = N"
    and level: "unat (CurrentBet s) = level ?t" using simD [OF sim] by auto
  have u: "1 \<le> u" "1 \<le> NumNonFolded s"
    using simD(7) [OF sim] al by (auto simp: table_ok_def allowed_def)
  have same_bets: "level t' = level ?t" if "bets t' = bets ?t" for t' using that by (simp add: level_def)
  consider "Kind (EAction e) = ActionFold" | "Kind (EAction e) = ActionCheck"
    | "Kind (EAction e) = ActionCall" | "Kind (EAction e) = ActionRaise"
    using kind by (auto simp: word_kinds)
  then show thesis
  proof cases
    case 1
    have "table_of (s\<lparr>Folded := (Folded s)[?p := True]\<rparr>, u - 1) = make_move ?p Fold ?t"
      using u by (intro table.equality) (simp_all add: map_update nat_diff_distrib)
    then show thesis using that 1 p len u level
      by (simp add: apply_entry_def Let_def move_of_def level_def)
  next
    case 2
    have "table_of (s, u - 1) = make_move ?p Check ?t"
      using u by (intro table.equality) (simp_all add: nat_diff_distrib)
    then show thesis using that 2 u level
      by (simp add: apply_entry_def Let_def move_of_def level_def)
  next
    case 3
    let ?c = "min (level ?t - bets ?t ! ?p) (chips ?t ! ?p)"
    have less: "bets ?t ! ?p < level ?t" using al 3 by (simp add: allowed_def move_of_def)
    have t: "table_of (pay ?p (CurrentBet s) s, u - 1) = make_move ?p Call ?t"
      using pay_refines [OF sim p contribution_le_bet [OF sim p], of "u - 1"] level u
      by (simp add: nat_diff_distrib)
    moreover have "level (make_move ?p Call ?t) = level ?t"
      using Max_update_below [of ?p "bets ?t" "bets ?t ! ?p + ?c"] less p len
      by (simp add: level_def put_in_def)
    moreover have "apply_entry e (s, u) = Some (pay ?p (CurrentBet s) s, u - 1)"
      using 3 p len by (simp add: apply_entry_def Let_def)
    moreover have "move_of (EAction e) = Call" using 3 by (simp add: move_of_def)
    moreover have "CurrentBet (pay ?p x s) = CurrentBet s" "Street (pay ?p x s) = Street s" for x
      by (simp_all add: pay_def Let_def)
    ultimately show thesis using that u level by simp
  next
    case 4
    let ?a = "Amount (EAction e)" and ?s = "pay ?p (Amount (EAction e)) s"
    let ?u = "int (NumNonFolded ?s) - 1"
    have a: "level ?t < unat ?a" "unat ?a \<le> bets ?t ! ?p + chips ?t ! ?p"
      using al 4 by (simp_all add: allowed_def move_of_def)
    have le: "Contributions s ! ?p \<le> ?a"
      using a(1) level contribution_le_bet [OF sim p] by (simp add: word_le_nat_alt)
    have nf: "NumNonFolded ?s = NumNonFolded s" by (simp add: NumNonFolded_def pay_def Let_def)
    have all: "min (unat ?a - bets ?t ! ?p) (chips ?t ! ?p) = unat ?a - bets ?t ! ?p" using a by simp
    have t: "table_of (?s, ?u) = make_move ?p (RaiseTo (unat ?a)) ?t"
      using pay_refines [OF sim p le, of ?u] unfolding all nf using u
      by (simp add: nat_diff_distrib)
    have bet: "bets ?t ! ?p + (unat ?a - bets ?t ! ?p) = unat ?a"
      using le p len by (simp add: word_le_nat_alt)
    have "level (make_move ?p (RaiseTo (unat ?a)) ?t) = unat ?a"
      using Max_update_above [of ?p "bets ?t" "unat ?a"] a(1) p len bet
      by (simp add: level_def put_in_def)
    moreover have "unat (Contributions ?s ! ?p) = unat ?a"
      using arg_cong [OF t, of "\<lambda>t. bets t ! ?p"] bet p len by (simp add: put_in_def pay_def Let_def)
    moreover have "table_of (?s\<lparr>CurrentBet := Contributions ?s ! ?p\<rparr>, ?u) = table_of (?s, ?u)"
      by (simp add: table_of_def)
    moreover have "apply_entry e (s, u) = Some (?s\<lparr>CurrentBet := Contributions ?s ! ?p\<rparr>, ?u)"
      using 4 p len by (simp add: apply_entry_def Let_def)
    moreover have "move_of (EAction e) = RaiseTo (unat ?a)" using 4 by (simp add: move_of_def)
    moreover have "Street ?s = Street s" "0 \<le> ?u" using u nf by (simp_all add: pay_def Let_def)
    ultimately show thesis using that t by simp
  qed
qed

text \<open>The loop body as a step, and logs extended at the end.\<close>

definition replay_step :: "Entry \<Rightarrow> replay_state \<Rightarrow> replay_state option" where
  "replay_step e r = (if HandOver (fst r) then Some r else map_option settle (apply_entry e r))"

lemma replay_loop_append: "replay_loop (es @ fs) r = Option.bind (replay_loop es r) (replay_loop fs)"
proof (induction es arbitrary: r)
  case (Cons e es)
  have "replay_loop fs r = Some r" if "HandOver (fst r)" using that by (cases fs) auto
  then show ?case using Cons by (auto split: option.split)
qed simp

lemma replay_loop_snoc: "replay_loop (es @ [e]) r = Option.bind (replay_loop es r) (replay_step e)"
  by (simp add: replay_loop_append replay_step_def option.map_sel split: option.split)
    (auto simp: replay_step_def fun_eq_iff split: option.split intro!: arg_cong [where f = "Option.bind _"])

lemma Replay_loop: "Replay es n st = Some s \<longleftrightarrow> (\<exists>u. replay_loop es (replay_init n st) = Some (s, u))"
  by (auto simp: Replay_def)

lemma admits_allowed:
  assumes "sim N T (s, u)" "\<not> HandOver s" "admits s e"
  shows "allowed (table_of (s, u)) (unat (PlayerID e)) (move_of (EAction e))" "Kind (EAction e) \<le> ActionRaise"
  using assms simD [OF assms(1)]
  by (auto simp: admits_def Validate_allowed well_formed_action_def allowed_def move_of_def)

lemma replay_step_refines:
  assumes sim: "sim N T (s, u)" and ad: "admits s e"
  obtains r where "replay_step e (s, u) = Some r" "sim N T r"
    "table_of r = play (unat (PlayerID e), move_of (EAction e)) (table_of (s, u))"
proof (cases "HandOver s")
  case True
  then show ?thesis using that [of "(s, u)"] sim by (simp add: replay_step_def play_def)
next
  case False
  let ?p = "unat (PlayerID e)" and ?m = "move_of (EAction e)" and ?t = "table_of (s, u)"
  note al = admits_allowed [OF sim False ad]
  obtain s' u' where e: "apply_entry e (s, u) = Some (s', u')"
    and t: "table_of (s', u') = make_move ?p ?m ?t"
    and bet: "unat (CurrentBet s') = level (table_of (s', u'))" and u: "0 \<le> u'" and st: "Street s' = Street s"
    using apply_entry_refines [OF sim al] .
  have "unat (Street s) < 4" using simD(7) [OF sim] False by (simp add: table_ok_def)
  then have street: "Street s' < StreetShowdown" by (simp add: st word_less_nat_alt)
  have nf: "1 \<le> NumNonFolded s'"
    using make_move_facts(8) [OF simD(7) [OF sim] al(1)] unfolding t [symmetric] by simp
  have settled: "table_of (settle (s', u')) = play (?p, ?m) ?t"
    using settle_refines [OF u street nf] t False by (simp add: play_def)
  have "unat (CurrentBet (fst (settle (s', u')))) = level (table_of (settle (s', u')))"
  proof (cases "2 \<le> NumNonFolded s' \<and> u' = 0 \<and> \<not> StreetShowdown \<le> Street s' + 1")
    case True
    then have "fst (settle (s', u')) =
        s'\<lparr>Street := Street s' + 1, CurrentBet := 0, Contributions := map (\<lambda>_. 0) (Contributions s')\<rparr>"
      by (simp add: settle_def NumNonFolded_def Let_def)
    moreover have "Contributions s' \<noteq> []"
      using make_move_facts(2) [OF simD(7) [OF sim] al(1)] simD(8) [OF sim] unfolding t [symmetric] by auto
    ultimately show ?thesis by (cases "settle (s', u')") (simp add: level_def image_constant_conv)
  next
    case False
    then have "CurrentBet (fst (settle (s', u'))) = CurrentBet s'"
        "Contributions (fst (settle (s', u'))) = Contributions s'"
      by (auto simp: settle_def Let_def NumNonFolded_def)
    then show ?thesis using bet by (cases "settle (s', u')") (simp add: level_def)
  qed
  moreover have "0 \<le> snd (settle (s', u'))" using u by (simp add: settle_def Let_def)
  ultimately have "sim N T (settle (s', u'))"
    using play_ok [OF simD(7) [OF sim] al(1)] simD(4) [OF sim] settled by (simp add: sim_def)
  then show ?thesis using that [of "settle (s', u')"] e settled False by (simp add: replay_step_def)
qed

lemma sim_init:
  assumes "2 \<le> unat n" "unat n * unat st < 2 ^ 64"
  shows "sim (unat n) (unat n * unat st) (replay_init n st)"
    and "table_of (replay_init n st) = new_table (unat n) (unat st)"
proof -
  show t: "table_of (replay_init n st) = new_table (unat n) (unat st)"
    by (simp add: replay_init_def table_of_def new_table_def)
  have "level (new_table (unat n) (unat st)) = 0" using assms(1) by (simp add: level_def new_table_def)
  then show "sim (unat n) (unat n * unat st) (replay_init n st)"
    using assms new_table_ok [of "unat n" "unat st"] by (simp add: sim_def t) (simp add: replay_init_def)
qed

lemma legal_replay:
  assumes "legal_log n st es" "2 \<le> unat n" "unat n * unat st < 2 ^ 64"
  shows "\<exists>r. replay_loop es (replay_init n st) = Some r \<and> sim (unat n) (unat n * unat st) r \<and>
    table_of r = fold play (moves_of es) (new_table (unat n) (unat st))"
  using assms(1)
proof induction
  case legal_empty
  then show ?case using sim_init [OF assms(2, 3)] by (simp add: moves_of_def)
next
  case (legal_snoc es s e)
  then obtain u where loop: "replay_loop es (replay_init n st) = Some (s, u)"
    and sim: "sim (unat n) (unat n * unat st) (s, u)"
    and t: "table_of (s, u) = fold play (moves_of es) (new_table (unat n) (unat st))"
    by (auto simp: Replay_loop)
  obtain r where "replay_step e (s, u) = Some r" "sim (unat n) (unat n * unat st) r"
    "table_of r = play (unat (PlayerID e), move_of (EAction e)) (table_of (s, u))"
    using replay_step_refines [OF sim legal_snoc(3)] .
  then show ?case using loop t by (simp add: replay_loop_snoc moves_of_def)
qed

lemma legal_replay_state:
  assumes "legal_log n st es" "2 \<le> unat n" "unat n * unat st < 2 ^ 64" "Replay es n st = Some s"
  obtains u where "sim (unat n) (unat n * unat st) (s, u)"
    "table_of (s, u) = fold play (moves_of es) (new_table (unat n) (unat st))"
  using legal_replay [OF assms(1-3)] assms(4) that by (auto simp: Replay_loop)

text \<open>Along a legal log whose hand is still open the potential has dropped once per entry.\<close>

lemma legal_potential:
  assumes "legal_log n st es" "2 \<le> unat n" "unat n * unat st < 2 ^ 64"
    "replay_loop es (replay_init n st) = Some r" "\<not> HandOver (fst r)"
  shows "potential (table_of r) + length es \<le> 4 * unat n + unat n * (unat n * unat st)"
  using assms(1, 4, 5)
proof (induction arbitrary: r)
  case legal_empty
  then show ?case
    using sim_init [OF assms(2, 3)] by (simp add: potential_def new_table_def sum_list_replicate)
next
  case (legal_snoc es s e)
  obtain u where loop: "replay_loop es (replay_init n st) = Some (s, u)"
    using legal_snoc(2) by (auto simp: Replay_loop)
  then have step: "replay_step e (s, u) = Some r" using legal_snoc(5) by (simp add: replay_loop_snoc)
  have sim: "sim (unat n) (unat n * unat st) (s, u)"
    using legal_replay [OF legal_snoc(1) assms(2, 3)] loop by auto
  have open_s: "\<not> HandOver s" using step legal_snoc(6) by (auto simp: replay_step_def split: if_splits)
  obtain r' where r': "replay_step e (s, u) = Some r'" "sim (unat n) (unat n * unat st) r'"
    "table_of r' = play (unat (PlayerID e), move_of (EAction e)) (table_of (s, u))"
    using replay_step_refines [OF sim legal_snoc(3)] .
  then have "table_of r = play (unat (PlayerID e), move_of (EAction e)) (table_of (s, u))"
    using step by simp
  moreover have "\<not> over (table_of r)" using legal_snoc(6) by (cases r) simp
  ultimately have "potential (table_of r) < potential (table_of (s, u))"
    using play_potential [OF simD(7) [OF sim] admits_allowed(1) [OF sim open_s legal_snoc(3)]] by simp
  then show ?case using legal_snoc(4) [OF loop] open_s by simp
qed

section \<open>Any log, legal or not\<close>

definition shape :: "nat \<Rightarrow> State \<Rightarrow> bool" where
  "shape N s \<longleftrightarrow> length (Stacks s) = N \<and> length (Contributions s) = N \<and> length (Folded s) = N"

definition chips_total :: "State \<Rightarrow> nat" where
  "chips_total s = sum_list (map unat (Stacks s)) + unat (Pot s)"

lemma pay_total:
  assumes "p < length (Stacks s)" "chips_total s < 2 ^ 64"
  shows "chips_total (pay p x s) = chips_total s"
proof -
  let ?c = "min (x - Contributions s ! p) (Stacks s ! p)"
  let ?xs = "map unat (Stacks s)"
  have "unat (Stacks s ! p) \<le> sum_list ?xs" using assms(1) by (simp add: member_le_sum_list)
  then have "unat (Pot s + ?c) = unat (Pot s) + unat ?c"
    using assms(2) by (intro unat_add_less) (simp add: chips_total_def)
  moreover have "unat (Stacks s ! p - ?c) = ?xs ! p - unat ?c"
    using assms(1) by (simp add: unat_diff_le)
  moreover have "sum_list (?xs[p := ?xs ! p - unat ?c]) + unat ?c = sum_list ?xs"
    using assms(1) by (intro sum_list_take_from) simp_all
  moreover have "Pot (pay p x s) = Pot s + ?c" "Stacks (pay p x s) = (Stacks s)[p := Stacks s ! p - ?c]"
    by (simp_all add: pay_def Let_def)
  ultimately show ?thesis by (simp add: chips_total_def map_update del: unat_min)
qed

lemma sum_list_update_group:
  fixes xs :: "'a::ab_group_add list"
  assumes "p < length xs"
  shows "sum_list (xs[p := v]) = sum_list xs - xs ! p + v"
  using assms by (induction xs arbitrary: p) (auto simp: algebra_simps split: nat.split)

lemma pay_total_word:
  assumes "p < length (Stacks s)"
  shows "sum_list (Stacks (pay p x s)) + Pot (pay p x s) = sum_list (Stacks s) + Pot s"
  using assms by (simp add: pay_def Let_def sum_list_update_group)

lemma shape_pay [simp]: "shape N (pay p x s) = shape N s"
  by (simp add: shape_def pay_def Let_def)

text \<open>One turn of the loop: what it keeps, whatever the entry says.\<close>

lemma settle_keeps:
  "Stacks (fst (settle r)) = Stacks (fst r)" "Pot (fst (settle r)) = Pot (fst r)"
  "Folded (fst (settle r)) = Folded (fst r)" "shape N (fst (settle r)) = shape N (fst r)"
  by (cases r; simp add: settle_def Let_def shape_def)+

lemma apply_entry_returns:
  assumes "shape N (fst r)" "unat (PlayerID e) < N"
  shows "\<exists>r'. apply_entry e r = Some r'"
  using assms by (cases r) (simp add: apply_entry_def Let_def shape_def)

lemma apply_entry_keeps:
  assumes "apply_entry e r = Some r'" "shape N (fst r)"
  shows "shape N (fst r')" "chips_total (fst r) < 2 ^ 64 \<Longrightarrow> chips_total (fst r') = chips_total (fst r)"
    "sum_list (Stacks (fst r')) + Pot (fst r') = sum_list (Stacks (fst r)) + Pot (fst r)"
    "\<forall>i < N. Folded (fst r) ! i \<longrightarrow> Folded (fst r') ! i"
proof -
  obtain s u where r: "r = (s, u)" by (cases r)
  let ?p = "unat (PlayerID e)"
  consider (fold) "fst r' = s\<lparr>Folded := (Folded s)[?p := True]\<rparr>" "?p < length (Folded s)"
    | (same) "fst r' = s"
    | (pay) x y where "?p < length (Stacks s)" "fst r' = pay ?p x s \<or> fst r' = (pay ?p x s)\<lparr>CurrentBet := y\<rparr>"
    using assms(1) unfolding r apply_entry_def Let_def prod.case
    by (auto split: if_splits simp del: One_nat_def intro: that)
  then have "shape N (fst r') \<and> (chips_total s < 2 ^ 64 \<longrightarrow> chips_total (fst r') = chips_total s) \<and>
      sum_list (Stacks (fst r')) + Pot (fst r') = sum_list (Stacks s) + Pot s \<and>
      (\<forall>i < N. Folded s ! i \<longrightarrow> Folded (fst r') ! i)"
  proof cases
    case fold
    then show ?thesis using assms(2) r by (auto simp: shape_def chips_total_def nth_list_update)
  next
    case same
    then show ?thesis using assms(2) r by simp
  next
    case pay
    have "chips_total (s'\<lparr>CurrentBet := y\<rparr>) = chips_total s'" "shape N (s'\<lparr>CurrentBet := y\<rparr>) = shape N s'" for s'
      by (simp_all add: chips_total_def shape_def)
    moreover have "Folded (pay ?p x s) = Folded s" by (simp add: pay_def Let_def)
    ultimately show ?thesis
      using pay assms(2) r pay_total [of ?p s x] pay_total_word [of ?p s x] shape_pay [of N ?p x s] by auto
  qed
  then show "shape N (fst r')" "chips_total (fst r) < 2 ^ 64 \<Longrightarrow> chips_total (fst r') = chips_total (fst r)"
    "sum_list (Stacks (fst r')) + Pot (fst r') = sum_list (Stacks (fst r)) + Pot (fst r)"
    "\<forall>i < N. Folded (fst r) ! i \<longrightarrow> Folded (fst r') ! i" using r by auto
qed

lemma replay_loop_keeps:
  assumes "replay_loop es r = Some r'" "shape N (fst r)"
  shows "shape N (fst r')" "chips_total (fst r) < 2 ^ 64 \<Longrightarrow> chips_total (fst r') = chips_total (fst r)"
    "sum_list (Stacks (fst r')) + Pot (fst r') = sum_list (Stacks (fst r)) + Pot (fst r)"
    "\<forall>i < N. Folded (fst r) ! i \<longrightarrow> Folded (fst r') ! i"
proof -
  have "shape N (fst r') \<and> (chips_total (fst r) < 2 ^ 64 \<longrightarrow> chips_total (fst r') = chips_total (fst r)) \<and>
    sum_list (Stacks (fst r')) + Pot (fst r') = sum_list (Stacks (fst r)) + Pot (fst r) \<and>
    (\<forall>i < N. Folded (fst r) ! i \<longrightarrow> Folded (fst r') ! i)"
    using assms
  proof (induction es arbitrary: r)
    case (Cons e es)
    show ?case
    proof (cases "HandOver (fst r)")
      case True
      then show ?thesis using Cons by auto
    next
      case False
      then obtain q where q: "apply_entry e r = Some q" "replay_loop es (settle q) = Some r'"
        using Cons(2) by (auto split: option.splits)
      have "chips_total (fst (settle q)) = chips_total (fst q)" by (simp add: chips_total_def settle_keeps)
      then show ?thesis
        using Cons.IH [OF q(2)] apply_entry_keeps [OF q(1) Cons(3)] by (simp add: settle_keeps)
    qed
  qed auto
  then show "shape N (fst r')" "chips_total (fst r) < 2 ^ 64 \<Longrightarrow> chips_total (fst r') = chips_total (fst r)"
    "sum_list (Stacks (fst r')) + Pot (fst r') = sum_list (Stacks (fst r)) + Pot (fst r)"
    "\<forall>i < N. Folded (fst r) ! i \<longrightarrow> Folded (fst r') ! i" by blast+
qed

lemma replay_loop_returns:
  assumes "shape N (fst r)" "\<forall>e \<in> set es. unat (PlayerID e) < N"
  shows "\<exists>r'. replay_loop es r = Some r'"
  using assms
proof (induction es arbitrary: r)
  case (Cons e es)
  have "unat (PlayerID e) < N" using Cons(3) by simp
  from apply_entry_returns [OF Cons(2) this] obtain q where q: "apply_entry e r = Some q" by blast
  have "shape N (fst (settle q))" using apply_entry_keeps(1) [OF q Cons(2)] by (simp add: settle_keeps)
  from Cons.IH [OF this] Cons(3) show ?case using q by simp
qed simp

lemma shape_init: "shape (unat n) (fst (replay_init n st))"
  by (simp add: replay_init_def shape_def)

lemma Replay_shape: "Replay es n st = Some s \<Longrightarrow> shape (unat n) s"
  using replay_loop_keeps(1) [OF _ shape_init] by (fastforce simp: Replay_loop)

lemma Replay_returns:
  "\<forall>e \<in> set es. unat (PlayerID e) < unat n \<Longrightarrow> \<exists>s. Replay es n st = Some s"
  using replay_loop_returns [OF shape_init, of es n st] by (auto simp: Replay_def)

lemma legal_seats: "legal_log n st es \<Longrightarrow> \<forall>e \<in> set es. unat (PlayerID e) < unat n"
proof (induction rule: legal_log.induct)
  case (legal_snoc es s e)
  then have "unat (PlayerID e) < unat n"
    using Replay_shape [OF legal_snoc(2)]
    by (auto simp: admits_def ValidateAction_def Let_def shape_def split: if_splits)
  then show ?case using legal_snoc by simp
qed simp

text \<open>Legality is decided by replaying every prefix.\<close>

definition legal_logb :: "u8 \<Rightarrow> u64 \<Rightarrow> Entry list \<Rightarrow> bool" where
  "legal_logb n st es = list_all (\<lambda>i. case Replay (take i es) n st of None \<Rightarrow> False
     | Some s \<Rightarrow> admits s (es ! i)) [0..<length es]"

lemma legal_logb_iff: "legal_log n st es \<longleftrightarrow> legal_logb n st es"
proof (induction es rule: rev_induct)
  case (snoc e es)
  have "legal_logb n st (es @ [e]) \<longleftrightarrow>
      legal_logb n st es \<and> (case Replay es n st of None \<Rightarrow> False | Some s \<Rightarrow> admits s e)"
    by (simp add: legal_logb_def list_all_iff nth_append conj_commute cong: option.case_cong)
  then show ?case using snoc
    by (auto intro: legal_snoc elim!: legal_snocE split: option.splits)
qed (simp add: legal_empty legal_logb_def)

definition entry_for :: "nat \<Rightarrow> nat \<Rightarrow> ActionKind \<Rightarrow> nat \<Rightarrow> Entry" where
  "entry_for r p k a = \<lparr>RoundID = of_nat r, PlayerID = of_nat p, EAction = \<lparr>Kind = k, Amount = of_nat a\<rparr>,
     Signature = [1], CoSigners = [], CoSignatures = [], Data = []\<rparr>"

text \<open>Three seats with 100 chips: a raise to 30, a fold and a call bring the flop, where seat 0 checks.\<close>

definition example_log :: "Entry list" where
  "example_log = [entry_for 0 0 ActionRaise 30, entry_for 1 1 ActionFold 0, entry_for 2 2 ActionCall 0,
     entry_for 3 0 ActionCheck 0]"

definition example_state :: State where
  "example_state = \<lparr>Stacks = [70, 100, 70], Pot = 60, CurrentBet = 0, Contributions = [0, 0, 0],
     Folded = [False, True, False], NumPlayers = 3, Street = StreetFlop, HandOver = False\<rparr>"

lemma example_legal: "legal_log 3 100 example_log"
  unfolding legal_logb_iff by code_simp

lemma example_replay: "Replay example_log 3 100 = Some example_state"
  by code_simp

section \<open>Properties\<close>



text \<open>
  C15. \<^verbatim>\<open>ValidateAction\<close> is exact: on the state of a legal log it accepts an action precisely when the
  action is well formed (a known kind, no amount except on a raise) and the rules allow the move it
  stands for on the table the log has produced.
\<close>

theorem ValidateAction_exact:
  assumes "legal_log n st es" "2 \<le> unat n" "unat n * unat st < 2 ^ 64" "Replay es n st = Some s"
  shows "ValidateAction s p a = Inr () \<longleftrightarrow> well_formed_action a \<and>
    allowed (fold play (moves_of es) (new_table (unat n) (unat st))) (unat p) (move_of a)"
proof -
  obtain u where u: "sim (unat n) (unat n * unat st) (s, u)"
    "table_of (s, u) = fold play (moves_of es) (new_table (unat n) (unat st))"
    using legal_replay_state [OF assms] .
  show ?thesis using Validate_allowed [OF u(1), of p a] unfolding u(2) .
qed

theorem ValidateAction_exact_witness:
  "legal_log 3 100 example_log \<and> (ValidateAction example_state 2 \<lparr>Kind = ActionRaise, Amount = 70\<rparr> = Inr () \<longleftrightarrow>
    well_formed_action \<lparr>Kind = ActionRaise, Amount = 70\<rparr> \<and>
    allowed (fold play (moves_of example_log) (new_table 3 100)) 2 (move_of \<lparr>Kind = ActionRaise, Amount = 70\<rparr>))"
  using ValidateAction_exact [OF example_legal _ _ example_replay, of 2 "\<lparr>Kind = ActionRaise, Amount = 70\<rparr>"]
    example_legal by simp

text \<open>
  C13. Chips are never created or lost, whatever the entries say: replaying any log whose seats exist
  returns a state, and stacks plus pot still make up the starting chips, exactly when they fit 64
  bits and modulo $2^{64}$ always.
\<close>

theorem chips_conserved:
  assumes "\<forall>e \<in> set es. unat (PlayerID e) < unat n"
  shows "\<exists>s. Replay es n st = Some s \<and> sum_list (Stacks s) + Pot s = of_nat (unat n) * st \<and>
    (unat n * unat st < 2 ^ 64 \<longrightarrow> sum_list (map unat (Stacks s)) + unat (Pot s) = unat n * unat st)"
proof -
  obtain s u where loop: "replay_loop es (replay_init n st) = Some (s, u)"
    using replay_loop_returns [OF shape_init assms, of st] by auto
  have "chips_total (fst (replay_init n st)) = unat n * unat st"
    by (simp add: chips_total_def replay_init_def sum_list_replicate)
  then show ?thesis
    using replay_loop_keeps [OF loop shape_init] loop
    by (auto simp: Replay_def chips_total_def replay_init_def sum_list_replicate)
qed

theorem chips_conserved_witness:
  "list_all (\<lambda>e. unat (PlayerID e) < 3) example_log \<and>
   (\<exists>s. Replay example_log 3 100 = Some s \<and> sum_list (Stacks s) + Pot s = 300 \<and>
     sum_list (map unat (Stacks s)) + unat (Pot s) = 300)"
proof -
  have "\<forall>e \<in> set example_log. unat (PlayerID e) < 3" by (simp add: example_log_def entry_for_def)
  then show ?thesis using chips_conserved [of example_log 3 100] by (simp add: list_all_iff)
qed

lemma legal_length:
  assumes "legal_log n st es" "2 \<le> unat n" "unat n * unat st < 2 ^ 64" "Replay es n st = Some s" "\<not> HandOver s"
  shows "length es < 4 * unat n + unat n * (unat n * unat st)"
proof -
  obtain u where loop: "replay_loop es (replay_init n st) = Some (s, u)"
    using assms(4) by (auto simp: Replay_loop)
  then have "sim (unat n) (unat n * unat st) (s, u)" using legal_replay [OF assms(1-3)] by auto
  then have "1 \<le> potential (table_of (s, u))"
    using simD(7) assms(5) by (fastforce simp: table_ok_def potential_def)
  moreover have "potential (table_of (s, u)) + length es \<le> 4 * unat n + unat n * (unat n * unat st)"
    using legal_potential [OF assms(1-3) loop] assms(5) by simp
  ultimately show ?thesis by linarith
qed

text \<open>
  C14. Every hand ends, and it never gets stuck before.  A legal log of \<open>n\<close> seats with starting stack
  \<open>st\<close> whose hand is still open has fewer than \<open>4n + n\<^sup>2st\<close> entries; while it is open at least two
  seats are unfolded, and each of them may fold and may do exactly one of checking and calling.
\<close>

theorem hand_ends:
  assumes "legal_log n st es" "2 \<le> unat n" "unat n * unat st < 2 ^ 64" "Replay es n st = Some s"
    "\<not> HandOver s"
  shows "length es < 4 * unat n + unat n * (unat n * unat st) \<and> 2 \<le> NumNonFolded s \<and>
    (\<forall>p. unat p < unat n \<and> \<not> Folded s ! unat p \<longrightarrow>
       ValidateAction s p \<lparr>Kind = ActionFold, Amount = 0\<rparr> = Inr () \<and>
       (ValidateAction s p \<lparr>Kind = ActionCheck, Amount = 0\<rparr> = Inr () \<longleftrightarrow>
        ValidateAction s p \<lparr>Kind = ActionCall, Amount = 0\<rparr> \<noteq> Inr ()))"
proof -
  obtain u where loop: "replay_loop es (replay_init n st) = Some (s, u)"
    using assms(4) by (auto simp: Replay_loop)
  then have sim: "sim (unat n) (unat n * unat st) (s, u)"
    using legal_replay [OF assms(1-3)] by auto
  then have ok: "table_ok (unat n) (unat n * unat st) (table_of (s, u))" by (rule simD)
  then have "2 \<le> NumNonFolded s" using assms(5) by (auto simp: table_ok_def)
  moreover have "length es < 4 * unat n + unat n * (unat n * unat st)" by (rule legal_length [OF assms])
  moreover have "ValidateAction s p \<lparr>Kind = ActionFold, Amount = 0\<rparr> = Inr () \<and>
       (ValidateAction s p \<lparr>Kind = ActionCheck, Amount = 0\<rparr> = Inr () \<longleftrightarrow>
        ValidateAction s p \<lparr>Kind = ActionCall, Amount = 0\<rparr> \<noteq> Inr ())"
    if seat: "unat p < unat n" "\<not> Folded s ! unat p" for p
    using seat assms(5) simD [OF sim] bet_le_level [of "unat p" "table_of (s, u)"]
    by (auto simp: Validate_allowed [OF sim] allowed_def well_formed_action_def move_of_def)
  ultimately show ?thesis by auto
qed

theorem hand_ends_witness:
  "length example_log < 12 + 3 * 300 \<and> 2 \<le> NumNonFolded example_state \<and>
   ValidateAction example_state 2 \<lparr>Kind = ActionFold, Amount = 0\<rparr> = Inr ()"
proof -
  have "\<not> HandOver example_state" "\<not> Folded example_state ! unat (2 :: u8)" by (simp_all add: example_state_def)
  then show ?thesis using hand_ends [OF example_legal _ _ example_replay] by simp
qed

text \<open>
  The log only ever adds to what is decided: extending a log keeps every fold, and once the hand
  is over no further entry changes anything, stacks, pot and street included.
\<close>

theorem Replay_extends:
  assumes "Replay es n st = Some s" "Replay (es @ fs) n st = Some s'"
  shows "(\<forall>i < unat n. Folded s ! i \<longrightarrow> Folded s' ! i) \<and> (HandOver s \<longrightarrow> s' = s)"
proof -
  obtain u u' where r: "replay_loop es (replay_init n st) = Some (s, u)" "replay_loop fs (s, u) = Some (s', u')"
    using assms by (auto simp: Replay_loop replay_loop_append)
  have "HandOver s \<longrightarrow> s' = s" using r(2) by (cases fs) auto
  moreover have "shape (unat n) s" using assms(1) by (rule Replay_shape)
  ultimately show ?thesis using replay_loop_keeps(4) [OF r(2), of "unat n"] by simp
qed

theorem Replay_extends_witness:
  "Folded example_state ! 1 \<and> Replay (example_log @ [entry_for 4 2 ActionFold 0]) 3 100 =
     Some (example_state\<lparr>Folded := [False, True, True], HandOver := True\<rparr>) \<and>
   Folded (example_state\<lparr>Folded := [False, True, True], HandOver := True\<rparr>) ! 1"
proof -
  have "Replay (example_log @ [entry_for 4 2 ActionFold 0]) 3 100 =
      Some (example_state\<lparr>Folded := [False, True, True], HandOver := True\<rparr>)" by code_simp
  moreover have "Folded example_state ! 1" by (simp add: example_state_def)
  ultimately show ?thesis using Replay_extends [OF example_replay] by simp
qed

end
