(* ===== verification/Game_Log.thy ===== *)
theory Game_Log
  imports Game_State
begin

text \<open>
  \<^verbatim>\<open>internal/game/log.go\<close> and \<^verbatim>\<open>internal/crypto/log/log.go\<close>: the hash-chained action log, proposals,
  auto-fold attestations and verify receipts.  SHA-256 and Ed25519 are the fields of a \<open>crypto\<close>
  record that every signing operation takes; what the code relies on is \<open>crypto_ok\<close>.  Every
  operation holds the log's lock, so operations are atomic.
\<close>

section \<open>Signatures\<close>

record crypto =
  sha256 :: "bytes \<Rightarrow> bytes"
  ed_sign :: "bytes \<Rightarrow> bytes \<Rightarrow> bytes"
  ed_verify :: "bytes \<Rightarrow> bytes \<Rightarrow> bytes \<Rightarrow> bool"

text \<open>
  The documented behaviour of the primitives: digests are 32 bytes; \<open>pub\<close> gives the public key of
  a private key, it has \<^verbatim>\<open>PublicKeySize\<close> bytes, and a signature verifies under it.
\<close>

definition crypto_ok :: "crypto \<Rightarrow> (bytes \<Rightarrow> bytes) \<Rightarrow> bool" where
  "crypto_ok C pub \<longleftrightarrow> (\<forall>m. length (sha256 C m) = 32) \<and> (\<forall>sk. length (pub sk) = 32) \<and>
     (\<forall>sk m. ed_verify C (pub sk) m (ed_sign C sk m))"

abbreviation (input) PublicKeySize :: nat where "PublicKeySize \<equiv> 32"

definition Sign :: "crypto \<Rightarrow> bytes \<Rightarrow> bytes \<Rightarrow> bytes" where
  "Sign C sk payload = ed_sign C sk (sha256 C payload)"

definition Verify :: "crypto \<Rightarrow> bytes \<Rightarrow> bytes \<Rightarrow> bytes \<Rightarrow> bool" where
  "Verify C pk payload sig = ed_verify C pk (sha256 C payload) sig"

section \<open>The log\<close>

record Log =
  entries :: "Entry list"
  numPlayers :: u8
  startingStack :: u64

definition NewLog :: "u8 \<Rightarrow> u64 \<Rightarrow> Log" where
  "NewLog n st = \<lparr>entries = [], numPlayers = n, startingStack = st\<rparr>"

definition Log_RoundID :: "Log \<Rightarrow> u64" where
  "Log_RoundID l = of_nat (length (entries l))"

definition Log_Bytes :: "Log \<Rightarrow> bytes" where
  "Log_Bytes l = concat (map Entry_Bytes (entries l))"

definition Log_Hash :: "crypto \<Rightarrow> Log \<Rightarrow> bytes" where
  "Log_Hash C l = sha256 C (Log_Bytes l)"

definition Log_state :: "Log \<Rightarrow> State option" where
  "Log_state l = Replay (entries l) (numPlayers l) (startingStack l)"

definition ExpectedNextPlayer :: "Log \<Rightarrow> u8 option" where
  "ExpectedNextPlayer l =
     (if numPlayers l = 0 then Some 0
      else case Log_state l of None \<Rightarrow> None
      | Some state \<Rightarrow>
          let n = unat (numPlayers l); start = unat (Log_RoundID l) mod n
          in (case find (\<lambda>cand. \<not> Folded state ! cand) (map (\<lambda>i. (start + i) mod n) [0..<n]) of
                Some cand \<Rightarrow> Some (of_nat cand)
              | None \<Rightarrow> Some (of_nat start)))"

definition Append :: "Entry \<Rightarrow> Log \<Rightarrow> Log" where
  "Append e l = l\<lparr>entries := entries l @ [e]\<rparr>"

definition RollbackLast :: "Log \<Rightarrow> Log" where
  "RollbackLast l = (if 0 < length (entries l) then l\<lparr>entries := take (length (entries l) - 1) (entries l)\<rparr> else l)"

section \<open>Auto-folds\<close>

datatype log_error =
    RoundMismatch
  | NotAutoFold
  | TargetOutOfRange u8
  | TargetAlreadyFolded u8
  | NoEligibleAttestors
  | CoSignerCount nat nat
  | CoSignatureCount nat nat
  | CoSignerMismatch nat u8 u8
  | NoKeyRegistered u8
  | AttestorNoPublicKey
  | InvalidAttestation
  | AttestorError u8 log_error
  | PlayerMismatch
  | NoProposerKey
  | InvalidProposalSignature
  | IllegalAction illegal
  | ReceiptRoundMismatch u64 u64
  | ReceiptHashMismatch
  | InvalidReceiptSignature u8

text \<open>\<open>None\<close> stands for a panic.\<close>

type_synonym 'a checked = "(log_error + 'a) option"

definition autoFoldTag :: bytes where
  "autoFoldTag = bytes_of_string ''auto_fold''"

definition autoFoldPayload :: "Log \<Rightarrow> u64 \<Rightarrow> u8 \<Rightarrow> bytes" where
  "autoFoldPayload l roundID targetSeat =
     Log_Bytes l @ autoFoldTag @ be_bytes 8 (unat roundID) @ [targetSeat]"

definition BuildAutoFoldAttestation :: "crypto \<Rightarrow> Log \<Rightarrow> u64 \<Rightarrow> u8 \<Rightarrow> bytes \<Rightarrow> bytes" where
  "BuildAutoFoldAttestation C l roundID targetSeat sk = Sign C sk (autoFoldPayload l roundID targetSeat)"

definition VerifyAutoFoldAttestation :: "crypto \<Rightarrow> Log \<Rightarrow> u64 \<Rightarrow> u8 \<Rightarrow> bytes \<Rightarrow> bytes \<Rightarrow> log_error + unit" where
  "VerifyAutoFoldAttestation C l roundID targetSeat pk sig =
     (if length pk \<noteq> PublicKeySize then Inl AttestorNoPublicKey
      else if \<not> Verify C pk (autoFoldPayload l roundID targetSeat) sig then Inl InvalidAttestation
      else Inr ())"

definition ExpectedAutoFoldAttestors :: "Log \<Rightarrow> u8 \<Rightarrow> u8 list option" where
  "ExpectedAutoFoldAttestors l targetSeat =
     (case Log_state l of None \<Rightarrow> None
      | Some state \<Rightarrow> Some (filter (\<lambda>seat. \<not> (seat = targetSeat \<or> Folded state ! unat seat))
                             (map of_nat [0..<unat (numPlayers l)])))"

text \<open>The loop over the co-signers, with the expected seats and the co-signatures walked alongside.\<close>

fun check_cosigners ::
  "crypto \<Rightarrow> Log \<Rightarrow> (u8 \<rightharpoonup> bytes) \<Rightarrow> u64 \<Rightarrow> u8 \<Rightarrow> nat \<Rightarrow> u8 list \<Rightarrow> u8 list \<Rightarrow> bytes list \<Rightarrow> log_error + unit" where
  "check_cosigners C l pks r t i (seat # seats) (x # xs) (sig # sigs) =
     (if seat \<noteq> x then Inl (CoSignerMismatch i seat x)
      else case pks seat of None \<Rightarrow> Inl (NoKeyRegistered seat)
      | Some pk \<Rightarrow>
          (case VerifyAutoFoldAttestation C l r t pk sig of
             Inl err \<Rightarrow> Inl (AttestorError seat err)
           | Inr _ \<Rightarrow> check_cosigners C l pks r t (Suc i) seats xs sigs))"
| "check_cosigners C l pks r t i _ _ _ = Inr ()"

definition VerifyAutoFoldEntry :: "crypto \<Rightarrow> Log \<Rightarrow> Entry \<Rightarrow> (u8 \<rightharpoonup> bytes) \<Rightarrow> unit checked" where
  "VerifyAutoFoldEntry C l e pks =
     (if RoundID e \<noteq> Log_RoundID l then Some (Inl RoundMismatch)
      else if \<not> IsAutoFold e then Some (Inl NotAutoFold)
      else if numPlayers l \<le> PlayerID e then Some (Inl (TargetOutOfRange (PlayerID e)))
      else case Log_state l of None \<Rightarrow> None
      | Some state \<Rightarrow>
          if Folded state ! unat (PlayerID e) then Some (Inl (TargetAlreadyFolded (PlayerID e)))
          else case ExpectedAutoFoldAttestors l (PlayerID e) of None \<Rightarrow> None
          | Some expected \<Rightarrow>
              if length expected = 0 then Some (Inl NoEligibleAttestors)
              else if length (CoSigners e) \<noteq> length expected
              then Some (Inl (CoSignerCount (length (CoSigners e)) (length expected)))
              else if length (CoSignatures e) \<noteq> length (CoSigners e)
              then Some (Inl (CoSignatureCount (length (CoSignatures e)) (length (CoSigners e))))
              else Some (check_cosigners C l pks (RoundID e) (PlayerID e) 0 (CoSigners e) expected (CoSignatures e)))"

definition AppendAutoFold :: "crypto \<Rightarrow> Entry \<Rightarrow> (u8 \<rightharpoonup> bytes) \<Rightarrow> Log \<Rightarrow> (unit checked \<times> Log)" where
  "AppendAutoFold C e pks l =
     (case VerifyAutoFoldEntry C l e pks of
        Some (Inr _) \<Rightarrow> (Some (Inr ()), l\<lparr>entries := entries l @ [e]\<rparr>)
      | res \<Rightarrow> (res, l))"

section \<open>Proposals\<close>

definition BuildProposal :: "crypto \<Rightarrow> Log \<Rightarrow> u8 \<Rightarrow> Action \<Rightarrow> bytes \<Rightarrow> Entry" where
  "BuildProposal C l playerID action sk =
     \<lparr>RoundID = Log_RoundID l, PlayerID = playerID, EAction = action,
      Signature = Sign C sk (Log_Bytes l @ Action_Bytes action), CoSigners = [], CoSignatures = [], Data = []\<rparr>"

definition VerifyProposal :: "crypto \<Rightarrow> Log \<Rightarrow> Entry \<Rightarrow> bytes \<Rightarrow> unit checked" where
  "VerifyProposal C l p pk =
     (if RoundID p \<noteq> Log_RoundID l then Some (Inl RoundMismatch)
      else case ExpectedNextPlayer l of None \<Rightarrow> None
      | Some next_player \<Rightarrow>
          if PlayerID p \<noteq> next_player then Some (Inl PlayerMismatch)
          else if length pk \<noteq> PublicKeySize then Some (Inl NoProposerKey)
          else if \<not> Verify C pk (Log_Bytes l @ Action_Bytes (EAction p)) (Signature p)
          then Some (Inl InvalidProposalSignature)
          else case Log_state l of None \<Rightarrow> None
          | Some state \<Rightarrow>
              (case ValidateAction state (PlayerID p) (EAction p) of
                 Inl err \<Rightarrow> Some (Inl (IllegalAction err))
               | Inr _ \<Rightarrow> Some (Inr ())))"

section \<open>Verify receipts\<close>

record VerifyReceipt =
  VRRoundID :: u64
  VRPlayerID :: u8
  PostLogHash :: bytes
  VRSignature :: bytes

definition receipt_payload :: "bytes \<Rightarrow> u64 \<Rightarrow> bytes" where
  "receipt_payload hash roundID = hash @ bytes_of_string ''verify'' @ be_bytes 8 (unat roundID)"

definition BuildVerifyReceipt :: "crypto \<Rightarrow> Log \<Rightarrow> u8 \<Rightarrow> bytes \<Rightarrow> VerifyReceipt" where
  "BuildVerifyReceipt C l playerID sk =
     (let hash = Log_Hash C l; roundID = Log_RoundID l - 1
      in \<lparr>VRRoundID = roundID, VRPlayerID = playerID, PostLogHash = hash,
          VRSignature = Sign C sk (receipt_payload hash roundID)\<rparr>)"

text \<open>The key is not checked here, and \<^verbatim>\<open>ed25519.Verify\<close> panics on a key of the wrong size.\<close>

definition VerifyVerifyReceipt :: "crypto \<Rightarrow> Log \<Rightarrow> VerifyReceipt \<Rightarrow> bytes \<Rightarrow> unit checked" where
  "VerifyVerifyReceipt C l r pk =
     (if VRRoundID r \<noteq> Log_RoundID l - 1
      then Some (Inl (ReceiptRoundMismatch (VRRoundID r) (Log_RoundID l - 1)))
      else if PostLogHash r \<noteq> Log_Hash C l then Some (Inl ReceiptHashMismatch)
      else if length pk \<noteq> PublicKeySize then None
      else if \<not> Verify C pk (receipt_payload (PostLogHash r) (VRRoundID r)) (VRSignature r)
      then Some (Inl (InvalidReceiptSignature (VRPlayerID r)))
      else Some (Inr ()))"

section \<open>Logs the protocol accepts\<close>

text \<open>
  Peers append a proposal after \<^verbatim>\<open>VerifyProposal\<close>, append auto-folds by \<^verbatim>\<open>AppendAutoFold\<close>, and drop
  the last entry when a round aborts.
\<close>

inductive accepted :: "crypto \<Rightarrow> u8 \<Rightarrow> u64 \<Rightarrow> Log \<Rightarrow> bool" for C n st where
  accepted_new: "accepted C n st (NewLog n st)"
| accepted_proposal: "accepted C n st l \<Longrightarrow> VerifyProposal C l p pk = Some (Inr ()) \<Longrightarrow> accepted C n st (Append p l)"
| accepted_auto_fold: "accepted C n st l \<Longrightarrow> AppendAutoFold C e pks l = (Some (Inr ()), l') \<Longrightarrow> accepted C n st l'"
| accepted_rollback: "accepted C n st l \<Longrightarrow> accepted C n st (RollbackLast l)"

lemma VerifyProposal_OK:
  assumes "VerifyProposal C l p pk = Some (Inr ())"
  obtains s where "Log_state l = Some s" "ValidateAction s (PlayerID p) (EAction p) = Inr ()"
    "RoundID p = Log_RoundID l" "ExpectedNextPlayer l = Some (PlayerID p)" "length pk = PublicKeySize"
    "Verify C pk (Log_Bytes l @ Action_Bytes (EAction p)) (Signature p)"
proof (cases "ExpectedNextPlayer l"; cases "Log_state l")
  fix q s
  assume a: "ExpectedNextPlayer l = Some q" "Log_state l = Some s"
  have "RoundID p = Log_RoundID l" "PlayerID p = q" "length pk = PublicKeySize"
    "Verify C pk (Log_Bytes l @ Action_Bytes (EAction p)) (Signature p)"
    "ValidateAction s (PlayerID p) (EAction p) = Inr ()"
    using assms unfolding VerifyProposal_def a option.case by (simp_all split: if_splits sum.splits)
  then show thesis using that a by blast
qed (use assms in \<open>simp_all add: VerifyProposal_def split: if_splits\<close>)

lemma AppendAutoFold_OK:
  assumes "AppendAutoFold C e pks l = (Some (Inr ()), l')"
  shows "VerifyAutoFoldEntry C l e pks = Some (Inr ())" "l' = Append e l"
  using assms by (auto simp: AppendAutoFold_def Append_def split: option.splits sum.splits)

lemma VerifyAutoFoldEntry_OK:
  assumes "VerifyAutoFoldEntry C l e pks = Some (Inr ())"
  obtains s xs where "Log_state l = Some s" "RoundID e = Log_RoundID l" "IsAutoFold e" "PlayerID e < numPlayers l"
    "\<not> Folded s ! unat (PlayerID e)" "ExpectedAutoFoldAttestors l (PlayerID e) = Some xs" "xs \<noteq> []"
    "length (CoSigners e) = length xs" "length (CoSignatures e) = length xs"
    "check_cosigners C l pks (RoundID e) (PlayerID e) 0 (CoSigners e) xs (CoSignatures e) = Inr ()"
proof (cases "Log_state l"; cases "ExpectedAutoFoldAttestors l (PlayerID e)")
  fix s xs
  assume a: "Log_state l = Some s" "ExpectedAutoFoldAttestors l (PlayerID e) = Some xs"
  have "RoundID e = Log_RoundID l" "IsAutoFold e" "PlayerID e < numPlayers l" "\<not> Folded s ! unat (PlayerID e)"
    "xs \<noteq> []" "length (CoSigners e) = length xs" "length (CoSignatures e) = length xs"
    "check_cosigners C l pks (RoundID e) (PlayerID e) 0 (CoSigners e) xs (CoSignatures e) = Inr ()"
    using assms unfolding VerifyAutoFoldEntry_def a option.case by (simp_all split: if_splits)
  then show thesis using that a by blast
qed (use assms in \<open>simp_all add: VerifyAutoFoldEntry_def split: if_splits\<close>)

definition log_ok :: "u8 \<Rightarrow> u64 \<Rightarrow> Log \<Rightarrow> bool" where
  "log_ok n st l \<longleftrightarrow> numPlayers l = n \<and> startingStack l = st \<and> legal_log n st (entries l) \<and>
     (\<forall>i < length (entries l). RoundID (entries l ! i) = of_nat i)"

lemma log_ok_Append:
  assumes "log_ok n st l" "Log_state l = Some s" "admits s e" "RoundID e = Log_RoundID l"
  shows "log_ok n st (Append e l)"
proof -
  have "legal_log n st (entries l @ [e])"
    using assms by (intro legal_snoc [of n st _ s]) (simp_all add: log_ok_def Log_state_def)
  then show ?thesis
    using assms by (simp add: log_ok_def Append_def Log_RoundID_def nth_append less_Suc_eq)
qed

lemma log_ok_Rollback:
  assumes "log_ok n st l"
  shows "log_ok n st (RollbackLast l)"
proof (cases "entries l" rule: rev_cases)
  case (snoc es e)
  then have "legal_log n st es" using assms by (auto simp: log_ok_def elim: legal_snocE)
  moreover have "RoundID (es ! i) = of_nat i" if "i < length es" for i
    using assms snoc that by (simp add: log_ok_def) (metis less_SucI nth_append)
  ultimately show ?thesis using assms snoc by (simp add: RollbackLast_def log_ok_def)
qed (use assms in \<open>simp add: RollbackLast_def\<close>)

lemma accepted_log_ok: "accepted C n st l \<Longrightarrow> log_ok n st l"
proof (induction rule: accepted.induct)
  case accepted_new
  then show ?case by (simp add: log_ok_def NewLog_def legal_empty)
next
  case (accepted_proposal l p pk)
  obtain s where s: "Log_state l = Some s" "ValidateAction s (PlayerID p) (EAction p) = Inr ()"
    "RoundID p = Log_RoundID l"
    using VerifyProposal_OK [OF accepted_proposal(2)] by blast
  then have "admits s p" by (simp only: admits_def simp_thms)
  then show ?case using log_ok_Append [OF accepted_proposal(3) s(1) _ s(3)] by blast
next
  case (accepted_auto_fold l e pks l')
  obtain s where s: "Log_state l = Some s" "RoundID e = Log_RoundID l" "IsAutoFold e"
    "PlayerID e < numPlayers l" "\<not> Folded s ! unat (PlayerID e)"
    using VerifyAutoFoldEntry_OK [OF AppendAutoFold_OK(1) [OF accepted_auto_fold(2)]] by blast
  have "unat (PlayerID e) < length (Folded s)"
    using s(1, 4) Replay_shape by (simp add: Log_state_def shape_def word_less_nat_alt)
  then have "admits s e" using s by (simp add: admits_def IsAutoFold_def)
  then show ?case
    using log_ok_Append [OF accepted_auto_fold(3) s(1) _ s(2)] AppendAutoFold_OK(2) [OF accepted_auto_fold(2)]
    by simp
qed (rule log_ok_Rollback)

lemma log_ok_state: "log_ok n st l \<Longrightarrow> \<exists>s. Log_state l = Some s"
  using Replay_returns [OF legal_seats] by (auto simp: log_ok_def Log_state_def)

lemma log_ok_total:
  assumes "log_ok n st l"
  shows "\<exists>s. Log_state l = Some s" "ExpectedNextPlayer l \<noteq> None" "VerifyProposal C l p pk \<noteq> None"
    "VerifyAutoFoldEntry C l e pks \<noteq> None"
proof -
  obtain s where s: "Log_state l = Some s" using log_ok_state [OF assms] by blast
  then show "\<exists>s. Log_state l = Some s" by blast
  show next_player: "ExpectedNextPlayer l \<noteq> None" unfolding ExpectedNextPlayer_def s
    by (simp add: Let_def split: option.split)
  then show "VerifyProposal C l p pk \<noteq> None" by (auto simp: VerifyProposal_def s split: sum.split)
  show "VerifyAutoFoldEntry C l e pks \<noteq> None"
    by (simp add: VerifyAutoFoldEntry_def ExpectedAutoFoldAttestors_def s)
qed

section \<open>Whose turn it is\<close>

lemma find_rotation:
  assumes "\<exists>i < n. P ((start + i) mod n)"
  obtains k where "k < n" "P ((start + k) mod n)" "\<forall>j < k. \<not> P ((start + j) mod n)"
    "find P (map (\<lambda>i. (start + i) mod n) [0..<n]) = Some ((start + k) mod n)"
proof -
  define k where "k = (LEAST i. i < n \<and> P ((start + i) mod n))"
  have k: "k < n \<and> P ((start + k) mod n)" unfolding k_def by (rule LeastI_ex) (use assms in blast)
  have below: "\<forall>j < k. \<not> P ((start + j) mod n)"
    using not_less_Least [of _ "\<lambda>i. i < n \<and> P ((start + i) mod n)"] k unfolding k_def [symmetric] by auto
  have "find P (map (\<lambda>i. (start + i) mod n) [0..<n]) = Some ((start + k) mod n)"
    unfolding find_Some_iff using k below by (intro exI [of _ k]) simp
  then show thesis using that k below by blast
qed

lemma rotation_hits: "c < n \<Longrightarrow> \<exists>i < n. (start + i) mod n = (c :: nat)"
proof -
  assume c: "c < n"
  then have "start mod n \<le> n" using mod_less_divisor [of n start] by simp
  then have "start mod n + ((n - start mod n) + c) = n + c" by simp
  then have "(start mod n + ((n - start mod n) + c)) mod n = c" using c by simp
  then have "(start + ((n - start mod n) + c) mod n) mod n = c" by (simp add: mod_add_left_eq mod_add_right_eq)
  then show ?thesis using c by (intro exI [of _ "((n - start mod n) + c) mod n"]) simp
qed

lemma ExpectedNextPlayer_unfolded:
  assumes "Log_state l = Some s" "0 < unat (numPlayers l)" "\<exists>c < unat (numPlayers l). \<not> Folded s ! c"
  obtains k where "k < unat (numPlayers l)"
    "ExpectedNextPlayer l = Some (of_nat ((unat (Log_RoundID l) + k) mod unat (numPlayers l)))"
    "\<not> Folded s ! ((unat (Log_RoundID l) + k) mod unat (numPlayers l))"
    "\<forall>j < k. Folded s ! ((unat (Log_RoundID l) + j) mod unat (numPlayers l))"
proof -
  let ?n = "unat (numPlayers l)" and ?r = "unat (Log_RoundID l)"
  obtain c where c: "c < ?n" "\<not> Folded s ! c" using assms(3) by blast
  then have "\<exists>i < ?n. \<not> Folded s ! ((?r mod ?n + i) mod ?n)"
    using rotation_hits [OF c(1), of "?r mod ?n"] by metis
  from find_rotation [OF this] obtain k where k: "k < ?n" "\<not> Folded s ! ((?r mod ?n + k) mod ?n)"
    "\<forall>j < k. \<not> \<not> Folded s ! ((?r mod ?n + j) mod ?n)"
    "find (\<lambda>cand. \<not> Folded s ! cand) (map (\<lambda>i. (?r mod ?n + i) mod ?n) [0..<?n]) = Some ((?r mod ?n + k) mod ?n)"
    by blast
  have "numPlayers l \<noteq> 0" using assms(2) by auto
  then have "ExpectedNextPlayer l = Some (of_nat ((?r mod ?n + k) mod ?n))"
    unfolding ExpectedNextPlayer_def assms(1) Let_def option.case by (simp only: k(4) option.case if_False)
  then show thesis using that [OF k(1)] k(2, 3) by (simp only: mod_add_left_eq simp_thms)
qed

lemma legal_someone_unfolded:
  assumes "legal_log n st es" "2 \<le> unat n" "unat n * unat st < 2 ^ 64" "Replay es n st = Some s"
  shows "\<exists>c < unat n. \<not> Folded s ! c"
proof -
  obtain u where "sim (unat n) (unat n * unat st) (s, u)" using legal_replay_state [OF assms] .
  then have "1 \<le> NumNonFolded s" "length (Folded s) = unat n" by (auto simp: sim_def table_ok_def)
  then show ?thesis by (auto simp: NumNonFolded_def Suc_le_eq filter_empty_conv in_set_conv_nth)
qed

section \<open>Reading the signed bytes\<close>

lemma Log_Bytes_split:
  assumes "\<forall>e \<in> set es. entry_canonical e" "\<forall>e \<in> set fs. entry_canonical e"
    "concat (map Entry_Bytes es) @ xs = concat (map Entry_Bytes fs) @ ys" "length xs < 24" "length ys < 24"
  shows "es = fs \<and> xs = ys"
  using assms
proof (induction es arbitrary: fs)
  case Nil
  show ?case
  proof (cases fs)
    case (Cons f fs')
    then have "length (Entry_Bytes f) \<le> length xs" using arg_cong [OF Nil(3), of length] by simp
    then show ?thesis using Nil(4) length_Entry_Bytes [of f] by linarith
  qed (use Nil in simp)
next
  case (Cons e es)
  show ?case
  proof (cases fs)
    case Nil
    then have "length (Entry_Bytes e) \<le> length ys" using arg_cong [OF Cons(4), of length] by simp
    then show ?thesis using Cons(6) length_Entry_Bytes [of e] by linarith
  next
    case fs: (Cons f fs')
    then have "e = f \<and> concat (map Entry_Bytes es) @ xs = concat (map Entry_Bytes fs') @ ys"
      using Entry_Bytes_prefix_free [of e f] Cons(2, 3, 4) by simp
    then show ?thesis using Cons.IH [of fs'] Cons(2, 3, 5, 6) fs by simp
  qed
qed

definition log_canonical :: "Log \<Rightarrow> bool" where
  "log_canonical l \<longleftrightarrow> (\<forall>e \<in> set (entries l). entry_canonical e)"

lemma Log_Bytes_tail:
  assumes "log_canonical l" "log_canonical l'" "Log_Bytes l @ xs = Log_Bytes l' @ ys" "length xs < 24" "length ys < 24"
  shows "entries l = entries l' \<and> xs = ys"
  using Log_Bytes_split [of "entries l" "entries l'" xs ys] assms by (simp add: log_canonical_def Log_Bytes_def)

lemma length_autoFoldTag [simp]: "length autoFoldTag = 9"
  by (simp add: autoFoldTag_def bytes_of_string_def)

lemma be_bytes8_inj: "be_bytes 8 (unat (a :: u64)) = be_bytes 8 (unat b) \<longleftrightarrow> a = b"
proof
  assume "be_bytes 8 (unat a) = be_bytes 8 (unat b)"
  then have "(of_nat (be_nat (be_bytes 8 (unat a))) :: u64) = of_nat (be_nat (be_bytes 8 (unat b)))"
    by (rule arg_cong)
  then show "a = b" by (simp only: of_nat_be_u64)
qed simp

lemma Action_Bytes_inj [simp]: "Action_Bytes a = Action_Bytes b \<longleftrightarrow> a = b"
proof
  assume "Action_Bytes a = Action_Bytes b"
  then have "UnmarshalAction (Action_Bytes a @ []) = UnmarshalAction (Action_Bytes b @ [])" by simp
  then show "a = b" by (simp only: Unmarshal_Action_Bytes sum.inject)
qed simp

lemma receipt_payload_inj:
  assumes "length h = length h'"
  shows "receipt_payload h r = receipt_payload h' r' \<longleftrightarrow> h = h' \<and> r = r'"
  using assms by (auto simp: receipt_payload_def be_bytes8_inj)

section \<open>Co-signatures\<close>

lemma check_cosigners_iff:
  assumes "length seats = length xs" "length sigs = length xs"
  shows "check_cosigners C l pks r t i seats xs sigs = Inr () \<longleftrightarrow> seats = xs \<and>
    (\<forall>k < length xs. \<exists>pk. pks (xs ! k) = Some pk \<and> VerifyAutoFoldAttestation C l r t pk (sigs ! k) = Inr ())"
  using assms
proof (induction seats arbitrary: i xs sigs)
  case (Cons seat seats)
  then obtain x xs' sig sigs' where eq: "xs = x # xs'" "sigs = sig # sigs'" by (cases xs; cases sigs) auto
  have IH: "check_cosigners C l pks r t (Suc i) seats xs' sigs' = Inr () \<longleftrightarrow> seats = xs' \<and>
    (\<forall>k < length xs'. \<exists>pk. pks (xs' ! k) = Some pk \<and> VerifyAutoFoldAttestation C l r t pk (sigs' ! k) = Inr ())"
    using Cons eq by simp
  show ?case unfolding eq
    by (auto simp: IH All_less_Suc2 split: option.split sum.split)
qed simp

definition other_live_seats :: "u8 \<Rightarrow> State \<Rightarrow> u8 \<Rightarrow> u8 list" where
  "other_live_seats n s t = filter (\<lambda>seat. seat \<noteq> t \<and> \<not> Folded s ! unat seat) (map of_nat [0..<unat n])"

lemma AppendAutoFold_iff:
  assumes "log_ok n st l" "Log_state l = Some s"
  shows "(fst (AppendAutoFold C e pks l) = Some (Inr ()) \<longleftrightarrow>
      RoundID e = Log_RoundID l \<and> IsAutoFold e \<and> PlayerID e < n \<and> \<not> Folded s ! unat (PlayerID e) \<and>
      other_live_seats n s (PlayerID e) \<noteq> [] \<and> CoSigners e = other_live_seats n s (PlayerID e) \<and> length (CoSignatures e) = length (other_live_seats n s (PlayerID e)) \<and>
      (\<forall>k < length (other_live_seats n s (PlayerID e)). \<exists>pk. pks (other_live_seats n s (PlayerID e) ! k) = Some pk \<and> length pk = PublicKeySize \<and>
         Verify C pk (autoFoldPayload l (RoundID e) (PlayerID e)) (CoSignatures e ! k))) \<and>
    snd (AppendAutoFold C e pks l) =
      (if fst (AppendAutoFold C e pks l) = Some (Inr ()) then Append e l else l)"
proof -
  define others where "others = other_live_seats n s (PlayerID e)"
  have n: "numPlayers l = n" using assms(1) by (simp add: log_ok_def)
  have exp: "ExpectedAutoFoldAttestors l (PlayerID e) = Some others"
    by (simp add: ExpectedAutoFoldAttestors_def assms(2) others_def other_live_seats_def n)
  have att: "VerifyAutoFoldAttestation C l r t pk sig = Inr () \<longleftrightarrow>
      length pk = PublicKeySize \<and> Verify C pk (autoFoldPayload l r t) sig" for r t pk sig
    by (simp add: VerifyAutoFoldAttestation_def)
  have entry: "VerifyAutoFoldEntry C l e pks = Some (Inr ()) \<longleftrightarrow>
      RoundID e = Log_RoundID l \<and> IsAutoFold e \<and> PlayerID e < n \<and> \<not> Folded s ! unat (PlayerID e) \<and>
      others \<noteq> [] \<and> length (CoSigners e) = length others \<and> length (CoSignatures e) = length others \<and>
      check_cosigners C l pks (RoundID e) (PlayerID e) 0 (CoSigners e) others (CoSignatures e) = Inr ()"
    unfolding VerifyAutoFoldEntry_def assms(2) exp n option.case by auto
  have cosigned: "\<dots> \<longleftrightarrow>
      RoundID e = Log_RoundID l \<and> IsAutoFold e \<and> PlayerID e < n \<and> \<not> Folded s ! unat (PlayerID e) \<and>
      others \<noteq> [] \<and> CoSigners e = others \<and> length (CoSignatures e) = length others \<and>
      (\<forall>k < length others. \<exists>pk. pks (others ! k) = Some pk \<and> length pk = PublicKeySize \<and>
         Verify C pk (autoFoldPayload l (RoundID e) (PlayerID e)) (CoSignatures e ! k))"
    using check_cosigners_iff [of "CoSigners e" others "CoSignatures e" C l pks "RoundID e" "PlayerID e" 0]
    unfolding att by auto
  have "fst (AppendAutoFold C e pks l) = VerifyAutoFoldEntry C l e pks"
    "snd (AppendAutoFold C e pks l) = (if VerifyAutoFoldEntry C l e pks = Some (Inr ()) then Append e l else l)"
    by (simp_all add: AppendAutoFold_def Append_def split: option.split sum.split)
  then show ?thesis unfolding others_def [symmetric] by (simp only: entry cosigned simp_thms)
qed

lemma VerifyProposal_built:
  assumes "crypto_ok C pub" "ExpectedNextPlayer l = Some q" "Log_state l = Some s"
  shows "VerifyProposal C l (BuildProposal C l p a sk) (pub sk) =
    (if p \<noteq> q then Some (Inl PlayerMismatch)
     else Some (case ValidateAction s p a of Inl err \<Rightarrow> Inl (IllegalAction err) | Inr u \<Rightarrow> Inr u))"
  using assms
  by (simp add: VerifyProposal_def BuildProposal_def crypto_ok_def Verify_def Sign_def split: sum.split)

section \<open>A concrete instance of the primitives\<close>

text \<open>Used to evaluate the operations on examples only: a digest that pads and a signature that repeats its input.\<close>

definition pad32 :: "bytes \<Rightarrow> bytes" where
  "pad32 b = take 32 (b @ replicate 32 0)"

definition demo_crypto :: crypto where
  "demo_crypto = \<lparr>sha256 = pad32, ed_sign = (\<lambda>sk m. pad32 sk @ m), ed_verify = (\<lambda>pk m sig. sig = pk @ m)\<rparr>"

lemma demo_crypto_ok: "crypto_ok demo_crypto pad32"
  by (simp add: crypto_ok_def demo_crypto_def pad32_def min_def)

definition demo_log :: Log where
  "demo_log = (let l0 = NewLog 3 100;
     l1 = Append (BuildProposal demo_crypto l0 0 \<lparr>Kind = ActionRaise, Amount = 30\<rparr> [7]) l0
   in Append (BuildProposal demo_crypto l1 1 \<lparr>Kind = ActionFold, Amount = 0\<rparr> [8]) l1)"

definition demo_state :: State where
  "demo_state = \<lparr>Stacks = [70, 100, 100], Pot = 30, CurrentBet = 30, Contributions = [30, 0, 0],
     Folded = [False, True, False], NumPlayers = 3, Street = StreetPreflop, HandOver = False\<rparr>"

lemma demo_log_state: "Log_state demo_log = Some demo_state"
  by code_simp

lemma demo_log_accepted: "accepted demo_crypto 3 100 demo_log"
proof -
  let ?a = "\<lparr>Kind = ActionRaise, Amount = 30\<rparr>" and ?b = "\<lparr>Kind = ActionFold, Amount = 0\<rparr>"
  let ?l0 = "NewLog 3 100"
  let ?l1 = "Append (BuildProposal demo_crypto ?l0 0 ?a [7]) ?l0"
  have "VerifyProposal demo_crypto ?l0 (BuildProposal demo_crypto ?l0 0 ?a [7]) (pad32 [7]) = Some (Inr ())"
    by code_simp
  then have "accepted demo_crypto 3 100 ?l1" by (rule accepted_proposal [OF accepted_new])
  moreover have "VerifyProposal demo_crypto ?l1 (BuildProposal demo_crypto ?l1 1 ?b [8]) (pad32 [8]) = Some (Inr ())"
    by code_simp
  ultimately show ?thesis unfolding demo_log_def Let_def by (rule accepted_proposal)
qed

section \<open>Properties\<close>



text \<open>
  C26. The turn goes to a seat that can act: on an accepted log of two or more seats,
  \<^verbatim>\<open>ExpectedNextPlayer\<close> is the first unfolded seat at or after \<^verbatim>\<open>RoundID % n\<close> in cyclic order, and
  while the hand is open that seat may at least fold.  As long as nobody has folded the seats
  act in strict rotation.
\<close>

theorem next_player_can_act:
  assumes "accepted C n st l" "2 \<le> unat n" "unat n * unat st < 2 ^ 64" "Log_state l = Some s"
  shows "\<exists>p k. ExpectedNextPlayer l = Some p \<and> k < unat n \<and>
    unat p = (unat (Log_RoundID l) + k) mod unat n \<and> \<not> Folded s ! unat p \<and>
    (\<forall>j < k. Folded s ! ((unat (Log_RoundID l) + j) mod unat n)) \<and>
    (\<not> HandOver s \<longrightarrow> ValidateAction s p \<lparr>Kind = ActionFold, Amount = 0\<rparr> = Inr ()) \<and>
    (True \<notin> set (Folded s) \<longrightarrow> unat p = unat (Log_RoundID l) mod unat n)"
proof -
  have ok: "log_ok n st l" using accepted_log_ok [OF assms(1)] .
  then have n: "numPlayers l = n" and legal: "legal_log n st (entries l)"
    and rep: "Replay (entries l) n st = Some s"
    using assms(4) by (auto simp: log_ok_def Log_state_def)
  have pos: "0 < unat n" using assms(2) by linarith
  obtain k where k: "k < unat n"
    "ExpectedNextPlayer l = Some (of_nat ((unat (Log_RoundID l) + k) mod unat n))"
    "\<not> Folded s ! ((unat (Log_RoundID l) + k) mod unat n)"
    "\<forall>j < k. Folded s ! ((unat (Log_RoundID l) + j) mod unat n)"
    using ExpectedNextPlayer_unfolded [OF assms(4), unfolded n] legal_someone_unfolded [OF legal assms(2, 3) rep]
      pos by blast
  define c where "c = (unat (Log_RoundID l) + k) mod unat n"
  have c: "c < unat n" using pos by (simp add: c_def)
  moreover have "unat n < 256" using unsigned_less [of n] by simp
  ultimately have seat: "unat (of_nat c :: u8) = c" by (simp add: unat_of_nat)
  have shape: "length (Stacks s) = unat n" "length (Folded s) = unat n"
    using Replay_shape [OF rep] by (auto simp: shape_def)
  have "\<not> HandOver s \<longrightarrow> ValidateAction s (of_nat c) \<lparr>Kind = ActionFold, Amount = 0\<rparr> = Inr ()"
    unfolding ValidateAction_def Let_def seat using shape c k(3) by (simp add: c_def [symmetric])
  moreover have "k = 0" if "True \<notin> set (Folded s)"
  proof (rule ccontr)
    assume "k \<noteq> 0"
    then have "Folded s ! (unat (Log_RoundID l) mod unat n)" using k(4) by force
    moreover have "unat (Log_RoundID l) mod unat n < length (Folded s)" using shape(2) pos by simp
    ultimately show False using that nth_mem by fastforce
  qed
  then have "True \<notin> set (Folded s) \<longrightarrow> c = unat (Log_RoundID l) mod unat n" by (simp add: c_def)
  ultimately show ?thesis using k c seat unfolding c_def [symmetric]
    by (intro exI [where x = "of_nat c :: u8"], intro exI [where x = k], unfold seat) (simp add: c_def)
qed

theorem next_player_can_act_witness:
  "accepted demo_crypto 3 100 demo_log \<and> Log_state demo_log = Some demo_state \<and>
   (\<exists>p k. ExpectedNextPlayer demo_log = Some p \<and> k < 3 \<and> unat p = (unat (Log_RoundID demo_log) + k) mod 3 \<and>
     \<not> Folded demo_state ! unat p)"
  using next_player_can_act [OF demo_log_accepted _ _ demo_log_state] demo_log_accepted demo_log_state by auto

text \<open>
  C23. A player can always get a legal action in: on an accepted log, the proposal \<^verbatim>\<open>BuildProposal\<close>
  makes for the player whose turn it is passes \<^verbatim>\<open>VerifyProposal\<close> under that player's public key
  exactly when the state allows the action; otherwise it is refused with the state's reason, and
  from any other seat it is refused as a player mismatch.
\<close>

theorem BuildProposal_verifies:
  assumes "crypto_ok C pub" "accepted C n st l" "ExpectedNextPlayer l = Some q" "Log_state l = Some s"
  shows "VerifyProposal C l (BuildProposal C l p a sk) (pub sk) =
    (if p \<noteq> q then Some (Inl PlayerMismatch)
     else Some (case ValidateAction s p a of Inl err \<Rightarrow> Inl (IllegalAction err) | Inr u \<Rightarrow> Inr u))"
  by (rule VerifyProposal_built [OF assms(1, 3, 4)])

theorem BuildProposal_verifies_witness:
  "crypto_ok demo_crypto pad32 \<and> accepted demo_crypto 3 100 demo_log \<and>
   VerifyProposal demo_crypto demo_log (BuildProposal demo_crypto demo_log 2 \<lparr>Kind = ActionCheck, Amount = 0\<rparr> [9])
     (pad32 [9]) = Some (Inl (IllegalAction (CannotCheck 30)))"
proof -
  have "ExpectedNextPlayer demo_log = Some 2" by code_simp
  moreover have "ValidateAction demo_state 2 \<lparr>Kind = ActionCheck, Amount = 0\<rparr> = Inl (CannotCheck 30)"
    by code_simp
  ultimately show ?thesis
    using BuildProposal_verifies [OF demo_crypto_ok demo_log_accepted _ demo_log_state, of 2 2
        "\<lparr>Kind = ActionCheck, Amount = 0\<rparr>" "[9]"] demo_crypto_ok demo_log_accepted
    by simp
qed




lemma demo_log_canonical: "log_canonical demo_log"
proof -
  have sig: "length (Sign demo_crypto sk m) = 64" for sk m
    by (simp add: Sign_def demo_crypto_def pad32_def min_def)
  have "Sign demo_crypto sk m \<noteq> []" "length (Sign demo_crypto sk m) < 2 ^ 16" for sk m
    using sig [of sk m] by auto
  then show ?thesis
    by (simp add: log_canonical_def demo_log_def Let_def NewLog_def Append_def BuildProposal_def
        entry_canonical_def entry_fits_def IsAutoFold_def)
qed


text \<open>
  C22. An auto-fold takes every other live player.  On an accepted log \<^verbatim>\<open>AppendAutoFold\<close> appends an
  entry exactly when it is an unsigned fold for the current round against an unfolded seat, its
  co-signers are, in ascending order, all the other unfolded seats (at least one), and each
  co-signature is that seat's registered key's signature of this log, round and target; in every
  other case the log is left as it was.
\<close>

theorem auto_fold_unanimous:
  assumes "accepted C n st l" "Log_state l = Some s"
  shows "(fst (AppendAutoFold C e pks l) = Some (Inr ()) \<longleftrightarrow>
      RoundID e = Log_RoundID l \<and> IsAutoFold e \<and> PlayerID e < n \<and> \<not> Folded s ! unat (PlayerID e) \<and>
      other_live_seats n s (PlayerID e) \<noteq> [] \<and> CoSigners e = other_live_seats n s (PlayerID e) \<and> length (CoSignatures e) = length (other_live_seats n s (PlayerID e)) \<and>
      (\<forall>k < length (other_live_seats n s (PlayerID e)). \<exists>pk. pks (other_live_seats n s (PlayerID e) ! k) = Some pk \<and> length pk = PublicKeySize \<and>
         Verify C pk (autoFoldPayload l (RoundID e) (PlayerID e)) (CoSignatures e ! k))) \<and>
    snd (AppendAutoFold C e pks l) =
      (if fst (AppendAutoFold C e pks l) = Some (Inr ()) then Append e l else l)"
  by (rule AppendAutoFold_iff [OF accepted_log_ok [OF assms(1)] assms(2)])

definition demo_auto_fold :: Entry where
  "demo_auto_fold = \<lparr>RoundID = 2, PlayerID = 2, EAction = \<lparr>Kind = ActionFold, Amount = 0\<rparr>, Signature = [],
     CoSigners = [0], CoSignatures = [BuildAutoFoldAttestation demo_crypto demo_log 2 2 [7]], Data = []\<rparr>"

theorem auto_fold_unanimous_witness:
  "accepted demo_crypto 3 100 demo_log \<and> Log_state demo_log = Some demo_state \<and>
   fst (AppendAutoFold demo_crypto demo_auto_fold [0 \<mapsto> pad32 [7]] demo_log) = Some (Inr ()) \<and>
   CoSigners demo_auto_fold = other_live_seats 3 demo_state 2 \<and>
   snd (AppendAutoFold demo_crypto demo_auto_fold [0 \<mapsto> pad32 [7]] demo_log) = Append demo_auto_fold demo_log"
proof -
  have *: "fst (AppendAutoFold demo_crypto demo_auto_fold [0 \<mapsto> pad32 [7]] demo_log) = Some (Inr ())"
    by code_simp
  have "PlayerID demo_auto_fold = 2" by (simp add: demo_auto_fold_def)
  then show ?thesis
    using auto_fold_unanimous [OF demo_log_accepted demo_log_state, of demo_auto_fold "[0 \<mapsto> pad32 [7]]"]
      demo_log_accepted demo_log_state * by simp
qed

lemma VerifyProposal_fields:
  assumes "RoundID p = RoundID q" "PlayerID p = PlayerID q" "EAction p = EAction q" "Signature p = Signature q"
  shows "VerifyProposal C l p pk = VerifyProposal C l q pk"
  unfolding VerifyProposal_def assms ..

text \<open>
  A proposal's signature covers neither \<^verbatim>\<open>Data\<close> nor the co-signer fields: changing them in
  transit leaves the verdict of \<^verbatim>\<open>VerifyProposal\<close> as it was, while two peers that append the two
  versions hold logs with different bytes, so their receipts no longer match each other.
\<close>

theorem proposal_data_unsigned:
  assumes "log_canonical l" "entry_canonical p" "entry_canonical (p\<lparr>Data := d\<rparr>)" "d \<noteq> Data p"
  shows "VerifyProposal C l (p\<lparr>Data := d\<rparr>) pk = VerifyProposal C l p pk \<and>
    VerifyProposal C l (p\<lparr>CoSigners := cs, CoSignatures := ss\<rparr>) pk = VerifyProposal C l p pk \<and>
    Log_Bytes (Append (p\<lparr>Data := d\<rparr>) l) \<noteq> Log_Bytes (Append p l)"
proof -
  have "p\<lparr>Data := d\<rparr> \<noteq> p" using assms(4) by (metis Entry.select_convs(7) Entry.surjective Entry.update_convs(7))
  then have "Log_Bytes (Append (p\<lparr>Data := d\<rparr>) l) \<noteq> Log_Bytes (Append p l)"
    using Log_Bytes_tail [of "Append (p\<lparr>Data := d\<rparr>) l" "Append p l" "[]" "[]"] assms(1-3)
    by (auto simp: log_canonical_def Append_def)
  then show ?thesis
    using VerifyProposal_fields [of "p\<lparr>Data := d\<rparr>" p]
      VerifyProposal_fields [of "p\<lparr>CoSigners := cs, CoSignatures := ss\<rparr>" p] by simp
qed

theorem proposal_data_unsigned_witness:
  "VerifyProposal demo_crypto (NewLog 3 100) ((entry_for 0 0 ActionCheck 0)\<lparr>Data := [1]\<rparr>) [7] =
     VerifyProposal demo_crypto (NewLog 3 100) (entry_for 0 0 ActionCheck 0) [7] \<and>
   Log_Bytes (Append ((entry_for 0 0 ActionCheck 0)\<lparr>Data := [1]\<rparr>) (NewLog 3 100)) \<noteq>
     Log_Bytes (Append (entry_for 0 0 ActionCheck 0) (NewLog 3 100))"
proof -
  let ?p = "entry_for 0 0 ActionCheck 0"
  have "log_canonical (NewLog 3 100)" "entry_canonical ?p" "entry_canonical (?p\<lparr>Data := [1]\<rparr>)" "[1] \<noteq> Data ?p"
    by (simp_all add: log_canonical_def NewLog_def entry_for_def entry_canonical_def entry_fits_def IsAutoFold_def)
  then show ?thesis using proposal_data_unsigned [of "NewLog 3 100" ?p "[1]"] by blast
qed

text \<open>
  Three seats of 100 chips.  Seat 1 folds in round 1; from then on the turn order gives seat 2 the
  rounds 4 and 5, and 7 and 8.  On the river (round 7) seat 2 raises to 50 and then, being asked
  again, checks.
\<close>

definition skipped_log :: "Entry list" where
  "skipped_log = [entry_for 0 0 ActionCheck 0, entry_for 1 1 ActionFold 0, entry_for 2 2 ActionCheck 0,
     entry_for 3 0 ActionCheck 0, entry_for 4 2 ActionCheck 0, entry_for 5 2 ActionCheck 0,
     entry_for 6 0 ActionCheck 0, entry_for 7 2 ActionRaise 50, entry_for 8 2 ActionCheck 0]"

text \<open>
  A raise can go unanswered.  There is a legal log, every entry of which is by the player
  \<^verbatim>\<open>ExpectedNextPlayer\<close> names, that reaches the showdown with seat 0 still in the hand, holding
  chips, and having put in less than the current bet: the river's raise was by seat 2, the next turn
  was seat 2's again, and the street closed without seat 0 being asked.
\<close>

theorem raise_unanswered:
  "legal_log 3 100 skipped_log \<and>
   list_all (\<lambda>i. ExpectedNextPlayer \<lparr>entries = take i skipped_log, numPlayers = 3, startingStack = 100\<rparr> =
     Some (PlayerID (skipped_log ! i))) [0..<length skipped_log] \<and>
   (\<exists>s. Replay skipped_log 3 100 = Some s \<and> HandOver s \<and> Street s = StreetShowdown \<and> \<not> Folded s ! 0 \<and>
      Stacks s ! 0 = 100 \<and> Contributions s ! 0 < CurrentBet s)"
proof -
  have "legal_log 3 100 skipped_log" unfolding legal_logb_iff by code_simp
  moreover have "list_all (\<lambda>i. ExpectedNextPlayer \<lparr>entries = take i skipped_log, numPlayers = 3, startingStack = 100\<rparr> =
        Some (PlayerID (skipped_log ! i))) [0..<length skipped_log]" by code_simp
  moreover have "(case Replay skipped_log 3 100 of None \<Rightarrow> False | Some s \<Rightarrow>
      HandOver s \<and> Street s = StreetShowdown \<and> \<not> Folded s ! 0 \<and>
      Stacks s ! 0 = 100 \<and> Contributions s ! 0 < CurrentBet s)" by code_simp
  ultimately show ?thesis by (auto split: option.splits)
qed

end
