(* ===== verification/SRA.thy ===== *)
theory SRA
  imports Prelude
begin

text \<open>
  \<^verbatim>\<open>internal/crypto/deck/deck.go\<close>: the commutative (Shamir-Rivest-Adleman) encryption of the deck.  Big
  integers are \<open>nat\<close>, \<^verbatim>\<open>big.Int.Bytes\<close>/\<^verbatim>\<open>SetBytes\<close> are \<open>big_bytes\<close>/\<open>be_nat\<close>, \<^verbatim>\<open>Exp\<close> is square and
  multiply, \<^verbatim>\<open>ModInverse\<close> comes from the extended Euclidean algorithm, and the random source is an
  argument.  Fermat's little theorem, proved here from the library's gcd facts, carries the round
  trip; the theory ends with the two things encryption cannot hide.
\<close>

section \<open>Arithmetic of \<^verbatim>\<open>math/big\<close>\<close>

fun big_Exp :: "nat \<Rightarrow> nat \<Rightarrow> nat \<Rightarrow> nat" where
  "big_Exp x y m =
     (if y = 0 then 1 mod m
      else let h = big_Exp (x * x mod m) (y div 2) m in if even y then h else x * h mod m)"

declare big_Exp.simps [simp del]

definition ModInverse :: "nat \<Rightarrow> nat \<Rightarrow> nat option" where
  "ModInverse g n = (if gcd g n = 1 then Some (nat (fst (bezw g n) mod int n)) else None)"

section \<open>Keys and the deck\<close>

record Key =
  Exponent :: nat
  InverseExponent :: nat

text \<open>
  \<open>rnd i\<close> is the result of \<^verbatim>\<open>rand.Int(rand.Reader, i+1)\<close> in the iteration for \<open>i\<close>, \<open>None\<close> when the
  source fails.  The deck is shuffled in place, so an error leaves a partly shuffled deck behind.
\<close>

fun shuffle_loop :: "(nat \<Rightarrow> nat option) \<Rightarrow> nat \<Rightarrow> 'a list \<Rightarrow> bool \<times> 'a list" where
  "shuffle_loop rnd 0 deck = (True, deck)"
| "shuffle_loop rnd (Suc i) deck =
     (case rnd (Suc i) of None \<Rightarrow> (False, deck)
      | Some j \<Rightarrow> shuffle_loop rnd i (deck[Suc i := deck ! j, j := deck ! Suc i]))"

definition Shuffle :: "(nat \<Rightarrow> nat option) \<Rightarrow> 'a list \<Rightarrow> bool \<times> 'a list" where
  "Shuffle rnd deck = shuffle_loop rnd (length deck - 1) deck"

definition EncryptDeck :: "bytes list \<Rightarrow> Key \<Rightarrow> nat \<Rightarrow> bytes list" where
  "EncryptDeck deck key prime = map (\<lambda>card. big_bytes (big_Exp (be_nat card) (Exponent key) prime)) deck"

definition DecryptCard :: "bytes \<Rightarrow> Key \<Rightarrow> nat \<Rightarrow> bytes" where
  "DecryptCard encryptedCard key prime =
     big_bytes (big_Exp (be_nat encryptedCard) (InverseExponent key) prime)"

text \<open>
  \<^verbatim>\<open>GenerateKey\<close> draws until a usable exponent comes up.  The draws are given as a list; running out
  of them (\<open>StillDrawing\<close>) is the loop not having returned yet.  \<open>None\<close> is a \<^verbatim>\<open>nil\<close> prime, and
  \<^verbatim>\<open>rand.Int\<close> panics for a bound that is not positive.
\<close>

datatype keygen = StillDrawing | RandError | PrimeNotSet | RandPanic | Generated Key

fun generate_loop :: "nat \<Rightarrow> nat option list \<Rightarrow> keygen" where
  "generate_loop phi [] = StillDrawing"
| "generate_loop phi (draw # draws) =
     (if phi = 0 then RandPanic
      else case draw of None \<Rightarrow> RandError
      | Some k \<Rightarrow>
          if k \<le> 1 then generate_loop phi draws
          else if gcd k phi \<noteq> 1 then generate_loop phi draws
          else case ModInverse k phi of None \<Rightarrow> generate_loop phi draws
          | Some kInv \<Rightarrow> Generated \<lparr>Exponent = k, InverseExponent = kInv\<rparr>)"

definition GenerateKey :: "int option \<Rightarrow> nat option list \<Rightarrow> keygen" where
  "GenerateKey prime draws =
     (case prime of None \<Rightarrow> PrimeNotSet
      | Some p \<Rightarrow> if p \<le> 0 then PrimeNotSet else generate_loop (nat p - 1) draws)"

section \<open>Primes and Fermat's little theorem\<close>

definition is_prime :: "nat \<Rightarrow> bool" where
  "is_prime p \<longleftrightarrow> 1 < p \<and> (\<forall>d. d dvd p \<longrightarrow> d = 1 \<or> d = p)"

lemma big_Exp_power: "big_Exp x y m = x ^ y mod m"
proof (induction x y m rule: big_Exp.induct)
  case (1 x y m)
  show ?case
  proof (cases "y = 0")
    case False
    have sq: "(x * x mod m) ^ (y div 2) mod m = (x * x) ^ (y div 2) mod m" by (simp add: power_mod)
    have h: "big_Exp (x * x mod m) (y div 2) m = (x * x) ^ (y div 2) mod m"
      using 1 [OF False] sq by simp
    show ?thesis
    proof (cases "even y")
      case True
      then have "x ^ y = (x * x) ^ (y div 2)" by (metis dvd_mult_div_cancel power2_eq_square power_mult)
      then show ?thesis using False True h by (simp add: big_Exp.simps [of x y m] Let_def)
    next
      case odd: False
      then have "x ^ y = x * (x * x) ^ (y div 2)"
        by (metis odd_two_times_div_two_succ power2_eq_square power_Suc power_mult Suc_eq_plus1)
      then show ?thesis using False odd h by (simp add: big_Exp.simps [of x y m] Let_def mod_mult_right_eq)
    qed
  qed (simp add: big_Exp.simps [of x 0 m])
qed

lemma prime_coprime: "is_prime p \<Longrightarrow> \<not> p dvd a \<Longrightarrow> coprime a p"
  unfolding is_prime_def by (metis coprimeI dvd_refl gcd_dvd1 gcd_dvd2 coprime_iff_gcd_eq_1)

text \<open>A divisor test up to the square root is enough.\<close>

definition prime_test :: "nat \<Rightarrow> nat \<Rightarrow> bool" where
  "prime_test r p \<longleftrightarrow> 1 < p \<and> p < r * r \<and> list_all (\<lambda>d. \<not> d dvd p) [2..<r]"

lemma prime_test_sound:
  assumes "prime_test r p"
  shows "is_prime p"
  unfolding is_prime_def
proof (intro conjI allI impI)
  show "1 < p" using assms by (simp add: prime_test_def)
  fix d assume d: "d dvd p"
  then obtain e where e: "p = d * e" by blast
  have no: "\<not> c dvd p" if "2 \<le> c" "c < r" for c
    using assms that by (auto simp: prime_test_def list_all_iff)
  have "d < r \<or> e < r"
  proof (rule ccontr)
    assume "\<not> (d < r \<or> e < r)"
    then have "r * r \<le> d * e" by (simp add: mult_le_mono)
    then show False using assms e by (simp add: prime_test_def)
  qed
  moreover have "0 < d" "0 < e" using \<open>1 < p\<close> e by (auto intro: gr0I)
  ultimately have "d = 1 \<or> e = 1" using no [of d] no [of e] d e by (metis One_nat_def Suc_1 Suc_leI dvd_triv_right nat_less_le)
  then show "d = 1 \<or> d = p" using e by auto
qed

lemma mult_mod_inj:
  assumes p: "is_prime p" and a: "\<not> p dvd a"
  shows "inj_on (\<lambda>x. a * x mod p) {1..<p}"
proof (rule inj_onI)
  have ord: "x = y" if "x \<le> y" "x < p" "y < p" "a * x mod p = a * y mod p" for x y
  proof -
    have "p dvd a * y - a * x" using that mod_eq_dvd_iff_nat [of "a * x" "a * y" p] by simp
    then have "p dvd a * (y - x)" by (simp add: diff_mult_distrib2)
    then have "p dvd y - x" using prime_coprime [OF p a] by (simp add: coprime_dvd_mult_right_iff coprime_commute)
    then show "x = y" using that by (metis diff_is_0_eq dvd_imp_le gr0I le_antisym less_imp_diff_less linorder_not_le)
  qed
  fix x y assume "x \<in> {1..<p}" "y \<in> {1..<p}" "a * x mod p = a * y mod p"
  then show "x = y" using ord [of x y] ord [of y x] by (cases "x \<le> y") auto
qed

lemma fermat:
  assumes p: "is_prime p" and a: "\<not> p dvd a"
  shows "a ^ (p - 1) mod p = 1"
proof -
  let ?S = "{1..<p}" and ?f = "\<lambda>x. a * x mod p"
  have p1: "1 < p" using p by (simp add: is_prime_def)
  have nz: "a * x mod p \<noteq> 0" if "x \<in> ?S" for x
  proof
    assume "a * x mod p = 0"
    then have "p dvd a * x" by (simp add: dvd_eq_mod_eq_0)
    then have "p dvd x" using prime_coprime [OF p a] by (simp add: coprime_dvd_mult_right_iff coprime_commute)
    then show False using that by (auto dest: dvd_imp_le)
  qed
  have "?f ` ?S \<subseteq> ?S"
  proof
    fix y assume "y \<in> ?f ` ?S"
    then obtain x where "x \<in> ?S" "y = a * x mod p" by blast
    then show "y \<in> ?S" using nz [of x] p1 by auto
  qed
  then have img: "?f ` ?S = ?S"
    using mult_mod_inj [OF p a] by (simp add: card_image card_subset_eq)
  have "(\<Prod>x\<in>?S. x) mod p = (\<Prod>x\<in>?S. a * x mod p) mod p"
    using prod.reindex [OF mult_mod_inj [OF p a], of "\<lambda>x. x"] by (simp only: img o_def)
  also have "\<dots> = (\<Prod>x\<in>?S. a * x) mod p" by (rule mod_prod_eq)
  also have "\<dots> = (a ^ (p - 1) * (\<Prod>x\<in>?S. x)) mod p" by (simp add: prod.distrib)
  finally have eq: "(\<Prod>x\<in>?S. x) mod p = (a ^ (p - 1) * (\<Prod>x\<in>?S. x)) mod p" .
  have cop: "coprime (\<Prod>x\<in>?S. x) p"
  proof (rule prod_coprime_left)
    fix x assume "x \<in> ?S"
    then have "\<not> p dvd x" by (auto dest: dvd_imp_le)
    then show "coprime x p" by (rule prime_coprime [OF p])
  qed
  have pos: "1 \<le> a ^ (p - 1)" using a by (metis One_nat_def Suc_leI dvd_0_right gr0I power_eq_0_iff)
  then have "1 * (\<Prod>x\<in>?S. x) \<le> a ^ (p - 1) * (\<Prod>x\<in>?S. x)" by (rule mult_le_mono1)
  then have "p dvd a ^ (p - 1) * (\<Prod>x\<in>?S. x) - 1 * (\<Prod>x\<in>?S. x)"
    using eq mod_eq_dvd_iff_nat by (metis mult_1)
  then have "p dvd (a ^ (p - 1) - 1) * (\<Prod>x\<in>?S. x)" by (simp add: diff_mult_distrib)
  then have "p dvd a ^ (p - 1) - 1" using cop by (simp add: coprime_dvd_mult_left_iff coprime_commute)
  then have "a ^ (p - 1) mod p = 1 mod p" using mod_eq_dvd_iff_nat [OF pos, of p] by blast
  then show ?thesis using p1 by simp
qed

text \<open>Exponents that are one modulo \<open>p - 1\<close> do nothing.\<close>

lemma power_one_mod:
  assumes p: "is_prime p" and e: "e mod (p - 1) = 1 mod (p - 1)" "0 < e"
  shows "m ^ e mod p = m mod p"
proof (cases "p dvd m")
  case True
  then have "p dvd m ^ e" using e(2) by (rule dvd_trans [OF _ dvd_power [OF disjI1]])
  then have "m ^ e mod p = 0" by (simp add: dvd_eq_mod_eq_0)
  then show ?thesis using True by (simp add: dvd_eq_mod_eq_0)
next
  case False
  have "p - 1 dvd e - 1" using mod_eq_dvd_iff_nat [of 1 e "p - 1"] e by simp
  then obtain c where "e - 1 = (p - 1) * c" by blast
  then have "e = 1 + (p - 1) * c" using e(2) by simp
  then have "m ^ e mod p = (m * ((m ^ (p - 1)) ^ c mod p)) mod p"
    by (simp add: power_add power_mult mod_mult_right_eq)
  also have "\<dots> = (m * ((m ^ (p - 1) mod p) ^ c mod p)) mod p" by (simp only: power_mod)
  finally have "m ^ e mod p = (m * ((m ^ (p - 1) mod p) ^ c mod p)) mod p" .
  then show ?thesis using fermat [OF p False] by (simp add: mod_mult_right_eq)
qed

lemma ModInverse_works:
  assumes "ModInverse k n = Some i" "0 < n"
  shows "k * i mod n = 1 mod n" "i < n"
proof -
  have g: "gcd k n = 1" and i: "i = nat (fst (bezw k n) mod int n)"
    using assms(1) by (auto simp: ModInverse_def split: if_splits)
  have int_i: "int i = fst (bezw k n) mod int n" using i assms(2) by simp
  have "1 = fst (bezw k n) * int k + snd (bezw k n) * int n" using bezw_aux [of k n] g by simp
  then have "1 mod int n = (fst (bezw k n) * int k) mod int n" by (metis mod_mult_self1)
  also have "\<dots> = (int i * int k) mod int n" by (simp add: int_i mod_mult_left_eq)
  finally have "int (k * i mod n) = int (1 mod n)" unfolding zmod_int of_nat_mult of_nat_1
    by (simp only: mult.commute)
  then show "k * i mod n = 1 mod n" by (simp only: of_nat_eq_iff)
  show "i < n" using i assms(2) by (simp add: nat_less_iff)
qed

text \<open>What \<^verbatim>\<open>GenerateKey\<close> gives out for a prime.\<close>

definition key_ok :: "nat \<Rightarrow> Key \<Rightarrow> bool" where
  "key_ok p k \<longleftrightarrow> 1 < Exponent k \<and> coprime (Exponent k) (p - 1) \<and> InverseExponent k < p - 1 \<and>
     Exponent k * InverseExponent k mod (p - 1) = 1 mod (p - 1)"

lemma generate_loop_ok: "generate_loop phi draws = Generated key \<Longrightarrow> 0 < phi \<Longrightarrow> key_ok (Suc phi) key"
proof (induction phi draws rule: generate_loop.induct)
  case (2 phi draw draws)
  obtain k where draw: "draw = Some k" using 2(4, 5) by (cases draw) auto
  show ?case
  proof (cases "1 < k \<and> gcd k phi = 1")
    case True
    then obtain i where i: "ModInverse k phi = Some i" by (auto simp: ModInverse_def)
    have "key = \<lparr>Exponent = k, InverseExponent = i\<rparr>" using 2(4, 5) True draw i by simp
    then show ?thesis
      using ModInverse_works [OF i 2(5)] True by (simp add: key_ok_def coprime_iff_gcd_eq_1)
  next
    case False
    then have "generate_loop phi draws = Generated key" using 2(4, 5) draw by (auto split: if_splits)
    then show ?thesis using False 2(1-3) [OF _ draw] 2(5) draw by (cases "k \<le> 1") auto
  qed
qed simp

lemma key_ok_inverse_pos: "2 < p \<Longrightarrow> key_ok p k \<Longrightarrow> 0 < Exponent k * InverseExponent k"
proof (rule ccontr)
  assume p: "2 < p" and k: "key_ok p k" and "\<not> 0 < Exponent k * InverseExponent k"
  then have "Exponent k * InverseExponent k mod (p - 1) = 0" by (metis gr0I mod_0)
  moreover have "1 mod (p - 1) = 1" using p by simp
  ultimately show False using k by (simp add: key_ok_def)
qed

text \<open>Encryption and decryption on numbers, where layers commute.\<close>

definition enc :: "nat \<Rightarrow> Key \<Rightarrow> nat \<Rightarrow> nat" where
  "enc p k m = m ^ Exponent k mod p"

definition dec :: "nat \<Rightarrow> Key \<Rightarrow> nat \<Rightarrow> nat" where
  "dec p k c = c ^ InverseExponent k mod p"

lemma dec_enc:
  assumes "is_prime p" "2 < p" "key_ok p k"
  shows "dec p k (enc p k m) = m mod p"
proof -
  have "dec p k (enc p k m) = m ^ (Exponent k * InverseExponent k) mod p"
    by (simp add: dec_def enc_def power_mod power_mult)
  then show ?thesis
    using power_one_mod [OF assms(1), of "Exponent k * InverseExponent k" m] key_ok_inverse_pos [OF assms(2, 3)]
      assms(3) by (simp add: key_ok_def)
qed

lemma dec_enc_commute: "dec p k (enc p k' m) = enc p k' (dec p k m)"
  by (simp add: dec_def enc_def power_mod flip: power_mult) (simp add: mult.commute)

lemma enc_mod: "enc p k (m mod p) = enc p k m"
  by (simp add: enc_def power_mod)

lemma dec_mod: "dec p k (m mod p) = dec p k m"
  by (simp add: dec_def power_mod)

lemma DecryptCard_dec: "DecryptCard (big_bytes c) k p = big_bytes (dec p k c)"
  by (simp add: DecryptCard_def dec_def big_Exp_power be_nat_big_bytes)

lemma EncryptDeck_enc: "EncryptDeck (map big_bytes ms) k p = map (\<lambda>m. big_bytes (enc p k m)) ms"
  by (simp add: EncryptDeck_def enc_def big_Exp_power be_nat_big_bytes)

text \<open>Layers come off in any order.\<close>

lemma fold_enc_commute: "fold (enc p) ks (enc p k m) = enc p k (fold (enc p) ks m)"
proof (induction ks arbitrary: m)
  case (Cons k' ks)
  have "enc p k' (enc p k m) = enc p k (enc p k' m)"
    by (simp add: enc_def power_mod flip: power_mult) (simp add: mult.commute)
  then show ?case using Cons by simp
qed simp

lemma dec_fold_enc:
  assumes "is_prime p" "2 < p" "k \<in> set ks" "\<forall>k \<in> set ks. key_ok p k"
  shows "dec p k (fold (enc p) ks m) = fold (enc p) (remove1 k ks) m mod p"
  using assms(3, 4)
proof (induction ks arbitrary: m)
  case (Cons k' ks)
  show ?case
  proof (cases "k' = k")
    case True
    then show ?thesis using dec_enc [OF assms(1, 2), of k] Cons(3) by (simp add: fold_enc_commute)
  next
    case False
    then show ?thesis using Cons by simp
  qed
qed simp

lemma fold_dec_mod: "fold (dec p) ks (c mod p) mod p = fold (dec p) ks c mod p"
  by (cases ks) (simp_all add: dec_mod)

lemma decrypt_all:
  assumes "is_prime p" "2 < p" "mset ks' = mset ks" "\<forall>k \<in> set ks. key_ok p k"
  shows "fold (dec p) ks' (fold (enc p) ks m) mod p = m mod p"
  using assms(3, 4)
proof (induction ks' arbitrary: ks)
  case (Cons k ks')
  have k: "k \<in> set ks" using Cons(2) by (metis list.set_intros(1) set_mset_mset)
  have "mset ks' = mset (remove1 k ks)" using Cons(2) by (metis add_mset_remove_trivial mset.simps(2) mset_remove1)
  moreover have "\<forall>k \<in> set (remove1 k ks). key_ok p k" using Cons(3) by (meson notin_set_remove1)
  ultimately have "fold (dec p) ks' (fold (enc p) (remove1 k ks) m) mod p = m mod p" by (rule Cons.IH)
  then show ?case using dec_fold_enc [OF assms(1, 2) k Cons(3)] by (simp add: fold_dec_mod)
qed simp

lemma dec_less: "0 < p \<Longrightarrow> dec p k c < p"
  by (simp add: dec_def)

lemma fold_dec_less: "0 < p \<Longrightarrow> ks \<noteq> [] \<Longrightarrow> fold (dec p) ks c < p"
  by (induction ks rule: rev_induct) (auto simp: dec_less)

lemma fold_DecryptCard: "fold (\<lambda>k c. DecryptCard c k p) ks (big_bytes c) = big_bytes (fold (dec p) ks c)"
  by (induction ks arbitrary: c) (simp_all add: DecryptCard_dec)

lemma fold_EncryptDeck:
  "fold (\<lambda>k d. EncryptDeck d k p) ks (map big_bytes ms) = map (\<lambda>m. big_bytes (fold (enc p) ks m)) ms"
proof (induction ks arbitrary: ms)
  case (Cons k ks)
  have "EncryptDeck (map big_bytes ms) k p = map big_bytes (map (enc p k) ms)" by (simp add: EncryptDeck_enc)
  then show ?case using Cons [of "map (enc p k) ms"] by (simp add: o_def)
qed simp

section \<open>Shuffling\<close>

definition draws_ok :: "nat \<Rightarrow> (nat \<Rightarrow> nat option) \<Rightarrow> bool" where
  "draws_ok n rnd \<longleftrightarrow> (\<forall>i. 0 < i \<and> i < n \<longrightarrow> (\<exists>j \<le> i. rnd i = Some j))"

definition swap_at :: "nat \<Rightarrow> nat \<Rightarrow> 'a list \<Rightarrow> 'a list" where
  "swap_at i j xs = xs[i := xs ! j, j := xs ! i]"

lemma length_swap_at [simp]: "length (swap_at i j xs) = length xs"
  by (simp add: swap_at_def)

lemma mset_swap_at: "i < length xs \<Longrightarrow> j < length xs \<Longrightarrow> mset (swap_at i j xs) = mset xs"
  unfolding swap_at_def by (rule mset_swap)

lemma swap_at_nth: "i < length xs \<Longrightarrow> j < length xs \<Longrightarrow>
    swap_at i j xs ! k = (if k = j then xs ! i else if k = i then xs ! j else xs ! k)"
  by (simp add: swap_at_def nth_list_update)

lemma shuffle_loop_perm:
  assumes "i < length d" "\<And>k j. 0 < k \<Longrightarrow> k \<le> i \<Longrightarrow> rnd k = Some j \<Longrightarrow> j \<le> k"
  shows "mset (snd (shuffle_loop rnd i d)) = mset d"
  using assms
proof (induction rnd i d rule: shuffle_loop.induct)
  case (2 rnd i d)
  show ?case
  proof (cases "rnd (Suc i)")
    case (Some j)
    then have j: "j \<le> Suc i" using 2(3) [of "Suc i" j] by simp
    have "mset (snd (shuffle_loop rnd i (swap_at (Suc i) j d))) = mset (swap_at (Suc i) j d)"
      using 2(1) [OF Some] 2(2, 3) by (simp add: swap_at_def)
    then show ?thesis using Some 2(2) j by (simp add: mset_swap_at flip: swap_at_def)
  qed simp
qed simp

text \<open>Positions above the loop index are final.\<close>

lemma shuffle_loop_above:
  assumes "i < length d" "i < m" "m < length d" "\<And>k. 0 < k \<Longrightarrow> k \<le> i \<Longrightarrow> \<exists>j \<le> k. rnd k = Some j"
  shows "fst (shuffle_loop rnd i d) \<and> length (snd (shuffle_loop rnd i d)) = length d \<and>
    snd (shuffle_loop rnd i d) ! m = d ! m"
  using assms
proof (induction rnd i d rule: shuffle_loop.induct)
  case (2 rnd i d)
  obtain j where j: "j \<le> Suc i" "rnd (Suc i) = Some j" using 2(5) [of "Suc i"] by auto
  have "fst (shuffle_loop rnd i (swap_at (Suc i) j d)) \<and>
      length (snd (shuffle_loop rnd i (swap_at (Suc i) j d))) = length (swap_at (Suc i) j d) \<and>
      snd (shuffle_loop rnd i (swap_at (Suc i) j d)) ! m = swap_at (Suc i) j d ! m"
    unfolding swap_at_def by (rule 2(1) [OF j(2)]) (use 2(2-5) in auto)
  moreover have "swap_at (Suc i) j d ! m = d ! m" using 2(2, 3) j(1) by (simp add: swap_at_nth)
  ultimately show ?case using j by (simp flip: swap_at_def)
qed simp

lemma shuffle_loop_inj:
  assumes "distinct d" "i < length d" "\<And>k. 0 < k \<Longrightarrow> k \<le> i \<Longrightarrow> \<exists>j \<le> k. rnd k = Some j"
    "\<And>k. 0 < k \<Longrightarrow> k \<le> i \<Longrightarrow> \<exists>j \<le> k. rnd' k = Some j"
    "snd (shuffle_loop rnd i d) = snd (shuffle_loop rnd' i d)" "0 < k" "k \<le> i"
  shows "rnd k = rnd' k"
  using assms
proof (induction i arbitrary: d)
  case (Suc i)
  obtain j j' where j: "j \<le> Suc i" "rnd (Suc i) = Some j" and j': "j' \<le> Suc i" "rnd' (Suc i) = Some j'"
    using Suc(4) [of "Suc i"] Suc(5) [of "Suc i"] by auto
  let ?d = "swap_at (Suc i) j d" and ?d' = "swap_at (Suc i) j' d"
  have below: "\<exists>j \<le> k. rnd k = Some j" "\<exists>j \<le> k. rnd' k = Some j" if "0 < k" "k \<le> i" for k
    using Suc(4) [of k] Suc(5) [of k] that by auto
  have eq: "snd (shuffle_loop rnd i ?d) = snd (shuffle_loop rnd' i ?d')"
    using Suc(6) j j' by (simp flip: swap_at_def)
  have "snd (shuffle_loop rnd i ?d) ! Suc i = ?d ! Suc i" "snd (shuffle_loop rnd' i ?d') ! Suc i = ?d' ! Suc i"
    using shuffle_loop_above [of i ?d "Suc i" rnd] shuffle_loop_above [of i ?d' "Suc i" rnd'] Suc(3) below
    by auto
  then have "d ! j = d ! j'" using eq Suc(3) j(1) j'(1) by (simp add: swap_at_nth split: if_splits)
  then have same: "j = j'" using Suc(2, 3) j(1) j'(1) by (simp add: nth_eq_iff_index_eq)
  show ?case
  proof (cases "k = Suc i")
    case True
    then show ?thesis using j j' same by simp
  next
    case False
    have "mset ?d = mset d" using Suc(3) j(1) by (simp add: mset_swap_at)
    then have "distinct ?d" using Suc(2) by (metis distinct_count_atmost_1 set_mset_mset)
    then show ?thesis
      using Suc(1) [of ?d] below eq same Suc(3, 7, 8) False by simp
  qed
qed simp

lemma shuffle_loop_onto:
  assumes "i < length d" "mset ys = mset d" "\<And>m. i < m \<Longrightarrow> m < length d \<Longrightarrow> ys ! m = d ! m"
  shows "\<exists>rnd. (\<forall>k. 0 < k \<and> k \<le> i \<longrightarrow> (\<exists>j \<le> k. rnd k = Some j)) \<and> snd (shuffle_loop rnd i d) = ys"
  using assms
proof (induction i arbitrary: d)
  case 0
  have len: "length ys = length d" using 0(2) mset_eq_length by blast
  obtain x xs where d: "d = x # xs" using 0(1) by (cases d) auto
  obtain y ys' where ys: "ys = y # ys'" using len d by (cases ys) auto
  have "ys' = xs"
  proof (rule nth_equalityI)
    fix m assume "m < length ys'"
    then show "ys' ! m = xs ! m" using 0(3) [of "Suc m"] d ys len by simp
  qed (use len d ys in simp)
  then have "ys = d" using 0(2) d ys by simp
  then show ?case by simp
next
  case (Suc i)
  have len: "length ys = length d" using Suc(3) mset_eq_length by blast
  have "\<exists>j \<le> Suc i. d ! j = ys ! Suc i"
  proof (rule ccontr)
    assume no: "\<not> (\<exists>j \<le> Suc i. d ! j = ys ! Suc i)"
    let ?v = "ys ! Suc i"
    have "drop (Suc (Suc i)) ys = drop (Suc (Suc i)) d" using Suc(4) len by (intro nth_equalityI) auto
    then have "count (mset (drop (Suc (Suc i)) ys)) ?v = count (mset (drop (Suc (Suc i)) d)) ?v" by simp
    moreover have "count (mset ys) ?v = count (mset d) ?v" using Suc(3) by simp
    moreover have "count (mset (take (Suc (Suc i)) d)) ?v = 0"
      using no Suc(2) by (auto simp: in_set_conv_nth not_in_iff [symmetric])
    moreover have "0 < count (mset (take (Suc (Suc i)) ys)) ?v"
      using Suc(2) len by (auto simp: in_set_conv_nth count_greater_zero_iff)
    moreover have "count (mset ys) ?v = count (mset (take (Suc (Suc i)) ys)) ?v + count (mset (drop (Suc (Suc i)) ys)) ?v"
      "count (mset d) ?v = count (mset (take (Suc (Suc i)) d)) ?v + count (mset (drop (Suc (Suc i)) d)) ?v"
      by (metis append_take_drop_id mset_append count_union)+
    ultimately show False by linarith
  qed
  then obtain j where j: "j \<le> Suc i" "d ! j = ys ! Suc i" by blast
  let ?d = "swap_at (Suc i) j d"
  have "mset ys = mset ?d" using Suc(2, 3) j(1) by (simp add: mset_swap_at)
  moreover have "ys ! m = ?d ! m" if "i < m" "m < length ?d" for m
    using Suc(2) Suc(4) [of m] j that by (auto simp: swap_at_nth)
  ultimately obtain rnd where rnd: "\<forall>k. 0 < k \<and> k \<le> i \<longrightarrow> (\<exists>j \<le> k. rnd k = Some j)"
    "snd (shuffle_loop rnd i ?d) = ys"
    using Suc(1) [of ?d] Suc(2) by auto
  have cong: "shuffle_loop (rnd(Suc i := Some j)) k e = shuffle_loop rnd k e" if "k \<le> i" for k and e :: "'a list"
    using that by (induction k arbitrary: e) (auto split: option.split)
  have "snd (shuffle_loop (rnd(Suc i := Some j)) (Suc i) d) = ys"
    using rnd(2) cong [of i] by (simp flip: swap_at_def)
  moreover have "\<forall>k. 0 < k \<and> k \<le> Suc i \<longrightarrow> (\<exists>j' \<le> k. (rnd(Suc i := Some j)) k = Some j')"
    using rnd(1) j(1) by (auto simp: le_Suc_eq)
  ultimately show ?case by blast
qed

section \<open>Properties\<close>

text \<open>\<^verbatim>\<open>PRIME\<close> of \<^verbatim>\<open>internal/peer/node.go\<close>.\<close>

definition PRIME :: nat where
  "PRIME = 13619"

lemma PRIME_prime: "is_prime PRIME"
  by (rule prime_test_sound [of 117]) (simp add: PRIME_def prime_test_def)

lemma PRIME_bounds [simp]: "2 < PRIME" "0 < PRIME"
  by (simp_all add: PRIME_def)

text \<open>
  C8. Layers come off in any order.  For a prime above two and usable keys, whatever order the
  players encrypted in and whatever order they decrypt in, the card that comes out is, byte for
  byte, the card that went in, provided it was the encoding of a number below the prime.
\<close>

theorem layers_commute:
  assumes "is_prime p" "2 < p" "\<forall>k \<in> set ks. key_ok p k" "mset ks' = mset ks" "ks \<noteq> []" "m < p"
  shows "fold (\<lambda>k c. DecryptCard c k p) ks' (hd (fold (\<lambda>k d. EncryptDeck d k p) ks [big_bytes m])) = big_bytes m"
proof -
  have "ks' \<noteq> []" using assms(4, 5) by auto
  then have "fold (dec p) ks' (fold (enc p) ks m) < p" using assms(2) by (intro fold_dec_less) auto
  then have "fold (dec p) ks' (fold (enc p) ks m) = m"
    using decrypt_all [OF assms(1, 2, 4, 3), of m] assms(6) by simp
  then show ?thesis using fold_EncryptDeck [of p ks "[m]"] by (simp add: fold_DecryptCard)
qed

theorem layers_commute_witness:
  "let k = \<lparr>Exponent = 3, InverseExponent = 9079\<rparr>; k' = \<lparr>Exponent = 5, InverseExponent = 8171\<rparr> in
   key_ok PRIME k \<and> key_ok PRIME k' \<and>
   fold (\<lambda>k c. DecryptCard c k PRIME) [k, k'] (hd (fold (\<lambda>k d. EncryptDeck d k PRIME) [k, k'] [big_bytes 12592])) =
     big_bytes 12592"
proof -
  let ?k = "\<lparr>Exponent = 3, InverseExponent = 9079\<rparr>" and ?k' = "\<lparr>Exponent = 5, InverseExponent = 8171\<rparr>"
  have "key_ok PRIME ?k" "key_ok PRIME ?k'"
    by (simp_all add: key_ok_def PRIME_def coprime_iff_gcd_eq_1 gcd_non_0_nat)
  then show ?thesis
    using layers_commute [OF PRIME_prime PRIME_bounds(1), of "[?k, ?k']" "[?k, ?k']" 12592]
    by (simp add: PRIME_def)
qed

text \<open>
  C32. \<^verbatim>\<open>GenerateKey\<close> gives out only keys that work, and gives one out as soon as it can: for an odd
  prime and a random source that does not fail, any sequence of draws containing a number above one
  that is coprime to \<^verbatim>\<open>prime-1\<close> makes it return, with an exponent and its inverse modulo
  \<^verbatim>\<open>prime-1\<close>.
\<close>

theorem GenerateKey_returns:
  assumes "is_prime p" "2 < p" "None \<notin> set draws" "Some k \<in> set draws" "1 < k" "coprime k (p - 1)"
  shows "\<exists>key. GenerateKey (Some (int p)) draws = Generated key \<and> key_ok p key"
proof -
  have "\<exists>key. generate_loop (p - 1) draws = Generated key"
    using assms(3, 4)
  proof (induction draws)
    case (Cons draw draws)
    obtain k' where draw: "draw = Some k'" using Cons(2) by (cases draw) auto
    show ?case
    proof (cases "1 < k' \<and> gcd k' (p - 1) = 1")
      case True
      then show ?thesis using draw assms(2) by (simp add: ModInverse_def)
    next
      case False
      then have "k' \<noteq> k" using assms(5, 6) by (auto simp: coprime_iff_gcd_eq_1)
      then have "\<exists>key. generate_loop (p - 1) draws = Generated key" using Cons draw by auto
      then show ?thesis using False draw assms(2) by (auto simp: not_less)
    qed
  qed simp
  then obtain key where key: "generate_loop (p - 1) draws = Generated key" by blast
  then have "key_ok p key" using generate_loop_ok [OF key] assms(2) by simp
  then show ?thesis using key assms(2) by (simp add: GenerateKey_def)
qed

theorem GenerateKey_returns_witness:
  "\<exists>key. GenerateKey (Some 13619) [Some 0, Some 22, Some 3] = Generated key \<and> key_ok PRIME key"
proof -
  have "coprime 3 (PRIME - 1)" by (simp add: PRIME_def coprime_iff_gcd_eq_1 gcd_non_0_nat)
  then show ?thesis
    using GenerateKey_returns [OF PRIME_prime PRIME_bounds(1), of "[Some 0, Some 22, Some 3]" 3]
    by (simp add: PRIME_def)
qed

text \<open>
  C31. The shuffle is fair.  Whatever the draws, even when the source fails part way, the result is a
  rearrangement of the deck; and for a deck without repetitions every rearrangement is produced by
  exactly one choice of draws (\<open>j \<le> i\<close> at index \<open>i\<close>), so uniform draws give uniform decks.
\<close>

theorem Shuffle_fair:
  assumes "d \<noteq> []"
  shows "((\<forall>k j. 0 < k \<and> k < length d \<and> rnd k = Some j \<longrightarrow> j \<le> k) \<longrightarrow> mset (snd (Shuffle rnd d)) = mset d) \<and>
    (distinct d \<and> mset ys = mset d \<longrightarrow>
      (\<exists>rnd. draws_ok (length d) rnd \<and> snd (Shuffle rnd d) = ys \<and>
        (\<forall>rnd'. draws_ok (length d) rnd' \<and> snd (Shuffle rnd' d) = ys \<longrightarrow>
           (\<forall>k. 0 < k \<and> k < length d \<longrightarrow> rnd' k = rnd k))))"
proof (intro conjI impI)
  assume "\<forall>k j. 0 < k \<and> k < length d \<and> rnd k = Some j \<longrightarrow> j \<le> k"
  then show "mset (snd (Shuffle rnd d)) = mset d"
    unfolding Shuffle_def using assms by (intro shuffle_loop_perm) auto
next
  assume d: "distinct d \<and> mset ys = mset d"
  have ok: "draws_ok (length d) r \<longleftrightarrow> (\<forall>k. 0 < k \<and> k \<le> length d - 1 \<longrightarrow> (\<exists>j \<le> k. r k = Some j))" for r
    using assms by (auto simp: draws_ok_def)
  have len: "length d - 1 < length d" using assms by simp
  obtain r where r: "draws_ok (length d) r" "snd (Shuffle r d) = ys"
    using shuffle_loop_onto [OF len, of ys] d unfolding ok Shuffle_def by force
  have "r' k = r k" if "draws_ok (length d) r'" "snd (Shuffle r' d) = ys" "0 < k" "k < length d" for r' k
    using shuffle_loop_inj [of d "length d - 1" r' r k] d len r that unfolding ok Shuffle_def by auto
  then show "\<exists>rnd. draws_ok (length d) rnd \<and> snd (Shuffle rnd d) = ys \<and>
      (\<forall>rnd'. draws_ok (length d) rnd' \<and> snd (Shuffle rnd' d) = ys \<longrightarrow>
         (\<forall>k. 0 < k \<and> k < length d \<longrightarrow> rnd' k = rnd k))"
    using r by blast
qed

theorem Shuffle_fair_witness:
  "\<exists>rnd. draws_ok 3 rnd \<and> snd (Shuffle rnd [1, 2, 3 :: nat]) = [3, 1, 2]"
proof -
  have "mset [3, 1, 2 :: nat] = mset [1, 2, 3]" by simp
  moreover have "length [1, 2, 3 :: nat] = 3" "distinct [1, 2, 3 :: nat]" "[1, 2, 3 :: nat] \<noteq> []" by simp_all
  ultimately show ?thesis
    using Shuffle_fair [of "[1, 2, 3 :: nat]" "\<lambda>_. None" "[3, 1, 2]"] by metis
qed

text \<open>
  Encryption shows two things under every usable key.  The number one below the prime (with
  \<^verbatim>\<open>PRIME = 13619\<close> this is the card \<^verbatim>\<open>"52"\<close>, the ace of spades) encrypts to itself; and a card is a
  square modulo the prime, by Euler's criterion, exactly when its encryption is.
\<close>

theorem encryption_leaks:
  assumes "is_prime p" "2 < p" "key_ok p k"
  shows "EncryptDeck [big_bytes (p - 1)] k p = [big_bytes (p - 1)] \<and>
    (enc p k m ^ ((p - 1) div 2) mod p = 1 \<longleftrightarrow> m ^ ((p - 1) div 2) mod p = 1) \<and>
    big_bytes (PRIME - 1) = bytes_of_string ''52''"
proof -
  have "\<not> 2 dvd p" using assms(1, 2) by (auto simp: is_prime_def)
  then have even: "2 dvd p - 1" using assms(2) by simp
  have odd: "odd (Exponent k)"
  proof
    assume "even (Exponent k)"
    then have "2 dvd gcd (Exponent k) (p - 1)" using even by (rule gcd_greatest)
    moreover have "gcd (Exponent k) (p - 1) = 1" using assms(3) unfolding key_ok_def coprime_iff_gcd_eq_1 by blast
    ultimately show False by (simp only: odd_one)
  qed
  have sq: "(p - 1) ^ 2 mod p = 1"
  proof -
    have "(p - 1) ^ 2 = p * (p - 2) + 1" using assms(2) by (cases p) (auto simp: power2_eq_square algebra_simps)
    then have "(p - 1) ^ 2 mod p = (1 + p * (p - 2)) mod p" by (simp only: add.commute)
    also have "\<dots> = 1 mod p" by (rule mod_mult_self2)
    finally show ?thesis using assms(2) by simp
  qed
  obtain h where h: "Exponent k = 2 * h + 1" using odd by (rule oddE)
  have "enc p k (p - 1) = ((p - 1) * (((p - 1) ^ 2 mod p) ^ h mod p)) mod p"
    by (simp add: enc_def h power_mult power_mod mod_mult_right_eq)
  then have fixed: "enc p k (p - 1) = p - 1" using sq assms(2) by simp
  let ?e = "(p - 1) div 2"
  define z where "z = m ^ ?e mod p"
  have "enc p k m ^ ?e mod p = z ^ Exponent k mod p"
    by (simp add: z_def enc_def power_mod flip: power_mult) (simp add: mult.commute)
  moreover have "z ^ Exponent k mod p = 1 \<longleftrightarrow> z = 1"
  proof (cases "p dvd m")
    case True
    moreover have "0 < ?e" using even assms(2) by auto
    ultimately have "p dvd m ^ ?e" by (meson dvd_power dvd_trans)
    then have "z = 0" by (simp add: z_def)
    then show ?thesis using h by simp
  next
    case False
    have "z ^ 2 mod p = m ^ (p - 1) mod p" using even by (simp add: z_def power_mod flip: power_mult)
    then have "z ^ 2 mod p = 1" using fermat [OF assms(1) False] by simp
    moreover have "z ^ Exponent k mod p = (z * ((z ^ 2 mod p) ^ h mod p)) mod p"
      by (simp add: h power_mult power_mod mod_mult_right_eq)
    ultimately have "z ^ Exponent k mod p = z mod p" using assms(2) by simp
    then show ?thesis by (simp add: z_def)
  qed
  ultimately have "enc p k m ^ ?e mod p = 1 \<longleftrightarrow> m ^ ?e mod p = 1" unfolding z_def by simp
  moreover have "EncryptDeck [big_bytes (p - 1)] k p = [big_bytes (p - 1)]"
    using EncryptDeck_enc [of "[p - 1]" k p] fixed by simp
  moreover have "big_bytes (PRIME - 1) = bytes_of_string ''52''"
    by (simp add: PRIME_def big_bytes.simps bytes_of_string_def)
  ultimately show ?thesis by blast
qed

theorem encryption_leaks_witness:
  "EncryptDeck [bytes_of_string ''52''] \<lparr>Exponent = 3, InverseExponent = 9079\<rparr> PRIME = [bytes_of_string ''52'']"
proof -
  have "key_ok PRIME \<lparr>Exponent = 3, InverseExponent = 9079\<rparr>"
    by (simp add: key_ok_def PRIME_def coprime_iff_gcd_eq_1 gcd_non_0_nat)
  from encryption_leaks [OF PRIME_prime PRIME_bounds(1) this, of 0] show ?thesis by metis
qed

end
