(* ===== verification/Ephemeral_Store.thy ===== *)
theory Ephemeral_Store
  imports Prelude
begin

text \<open>
  \<^verbatim>\<open>internal/ephemeral/store.go\<close>: the key-value store each node hosts and the names of the files the
  protocols put into it.  A store is a finite map from keys to bytes; its interface is the locale
  \<open>kv_store\<close>, interpreted on the operations below.  The key functions are gathered in a datatype
  of files, which are shown to have pairwise different names; the two clean-up prefixes are shown to
  hit exactly the files they are meant for.
\<close>

section \<open>Keys\<close>

definition ProposalKey :: "u64 \<Rightarrow> u32 \<Rightarrow> string" where
  "ProposalKey roundID attempt = ''proposal-'' @ itoa (unat roundID) @ ''-'' @ itoa (unat attempt)"

definition VerifyKey :: "u64 \<Rightarrow> u32 \<Rightarrow> string \<Rightarrow> string" where
  "VerifyKey roundID attempt nodeID =
     itoa (unat roundID) @ ''-'' @ itoa (unat attempt) @ ''_verify_'' @ nodeID"

definition AutoFoldKey :: "u64 \<Rightarrow> string \<Rightarrow> string" where
  "AutoFoldKey roundID signerID = ''auto_fold-'' @ itoa (unat roundID) @ ''-'' @ signerID"

definition CommunityRelayKey :: "int \<Rightarrow> int \<Rightarrow> string" where
  "CommunityRelayKey cardIdx seat = ''community-relay-'' @ itoa_int cardIdx @ ''-'' @ itoa_int seat"

definition CommunityCardKey :: "int \<Rightarrow> string" where
  "CommunityCardKey cardIdx = ''community-card-'' @ itoa_int cardIdx"

definition ShuffleStepKey :: "int \<Rightarrow> string" where
  "ShuffleStepKey seat = ''shuffle-step-'' @ itoa_int seat"

definition HoleRelayKey :: "int \<Rightarrow> int \<Rightarrow> string" where
  "HoleRelayKey slot stripperSeat = ''hole-relay-'' @ itoa_int slot @ ''-'' @ itoa_int stripperSeat"

definition ShowdownClaimKey :: "int \<Rightarrow> string" where
  "ShowdownClaimKey seat = ''showdown-claim-'' @ itoa_int seat"

definition AutoFoldPrefix :: "u64 \<Rightarrow> string" where
  "AutoFoldPrefix roundID = ''auto_fold-'' @ itoa (unat roundID) @ ''-''"

definition RoundPrefix :: "u64 \<Rightarrow> string" where
  "RoundPrefix roundID = itoa (unat roundID) @ ''-''"

section \<open>The store\<close>

type_synonym Store = "string \<rightharpoonup> bytes"

definition New :: Store where
  "New = Map.empty"

definition Put :: "string \<Rightarrow> bytes \<Rightarrow> Store \<Rightarrow> Store" where
  "Put key val s = s(key \<mapsto> val)"

definition Get :: "string \<Rightarrow> Store \<Rightarrow> bytes option" where
  "Get key s = s key"

definition Delete :: "string \<Rightarrow> Store \<Rightarrow> Store" where
  "Delete key s = s(key := None)"

definition DeletePrefix :: "string \<Rightarrow> Store \<Rightarrow> Store" where
  "DeletePrefix pre s = (\<lambda>k. if prefix pre k then None else s k)"

definition Clear :: "Store \<Rightarrow> Store" where
  "Clear s = Map.empty"

definition Keys :: "Store \<Rightarrow> string set" where
  "Keys s = dom s"

section \<open>What clients rely on\<close>

locale kv_store =
  fixes put :: "string \<Rightarrow> bytes \<Rightarrow> 's \<Rightarrow> 's"
    and get :: "string \<Rightarrow> 's \<Rightarrow> bytes option"
    and del :: "string \<Rightarrow> 's \<Rightarrow> 's"
    and del_prefix :: "string \<Rightarrow> 's \<Rightarrow> 's"
    and clear :: "'s \<Rightarrow> 's"
  assumes get_put: "get k (put k' v s) = (if k = k' then Some v else get k s)"
    and get_del: "get k (del k' s) = (if k = k' then None else get k s)"
    and get_del_prefix: "get k (del_prefix p s) = (if prefix p k then None else get k s)"
    and get_clear: "get k (clear s) = None"
begin

text \<open>Publishing a batch of files: what a reader finds afterwards.\<close>

definition put_all :: "(string \<times> bytes) list \<Rightarrow> 's \<Rightarrow> 's" where
  "put_all kvs s = fold (\<lambda>(k, v). put k v) kvs s"

lemma get_put_all:
  assumes "distinct (map fst kvs)"
  shows "get k (put_all kvs s) = (case map_of kvs k of Some v \<Rightarrow> Some v | None \<Rightarrow> get k s)"
  using assms
proof (induction kvs arbitrary: s)
  case (Cons kv kvs)
  obtain k' v where kv: "kv = (k', v)" by (cases kv)
  have "map_of kvs k' = None" using Cons(2) kv by (auto simp: map_of_eq_None_iff)
  then show ?case using Cons kv by (auto simp: put_all_def get_put split: option.split)
qed (simp add: put_all_def)

lemma put_del_other: "k \<noteq> k' \<Longrightarrow> get k (del k' (put k v s)) = Some v"
  by (simp add: get_del get_put)

lemma get_cleanup:
  "get k (del_prefix p (del_prefix q s)) = (if prefix p k \<or> prefix q k then None else get k s)"
  by (simp add: get_del_prefix)

end

interpretation ks: kv_store Put Get Delete DeletePrefix Clear
  by unfold_locales (simp_all add: Put_def Get_def Delete_def DeletePrefix_def Clear_def)

lemmas store_laws [simp] = ks.get_put ks.get_del ks.get_del_prefix ks.get_clear

section \<open>The files of the protocol\<close>

datatype efile =
    Proposal u64 u32
  | Receipt u64 u32 string
  | AutoFold u64 string
  | CommunityRelay int int
  | CommunityCard int
  | ShuffleStep int
  | HoleRelay int int
  | ShowdownClaim int

fun key_of :: "efile \<Rightarrow> string" where
  "key_of (Proposal r a) = ProposalKey r a"
| "key_of (Receipt r a n) = VerifyKey r a n"
| "key_of (AutoFold r n) = AutoFoldKey r n"
| "key_of (CommunityRelay i s) = CommunityRelayKey i s"
| "key_of (CommunityCard i) = CommunityCardKey i"
| "key_of (ShuffleStep s) = ShuffleStepKey s"
| "key_of (HoleRelay i s) = HoleRelayKey i s"
| "key_of (ShowdownClaim s) = ShowdownClaimKey s"

lemma not_digits [simp]: "\<not> is_digit (CHR ''-'')" "\<not> is_digit (CHR ''_'')"
  by (simp_all add: is_digit_def)

lemma itoa_int_inj [simp]: "itoa_int a = itoa_int b \<longleftrightarrow> a = b"
proof -
  have "hd (itoa n) \<noteq> CHR ''-''" for n using is_digit_hd_itoa [of n] by auto
  then have "itoa n \<noteq> CHR ''-'' # xs" for n xs by (metis list.sel(1))
  then show ?thesis by (auto simp: itoa_int_def) (metis list.inject)+
qed

lemma itoa_int_then_rest:
  assumes "itoa_int a @ CHR ''-'' # xs = itoa_int b @ CHR ''-'' # ys"
  shows "a = b \<and> xs = ys"
proof -
  have dash: "itoa n @ CHR ''-'' # xs \<noteq> CHR ''-'' # zs" for n xs zs
    using is_digit_hd_itoa [of n] itoa_nonempty [of n] by (cases "itoa n") auto
  have pos: "m = n \<and> us = vs" if "itoa m @ CHR ''-'' # us = itoa n @ CHR ''-'' # vs" for m n us vs
    using itoa_then_rest [OF that] by simp
  show ?thesis
  proof (cases "a < 0"; cases "b < 0")
    assume "a < 0" "b < 0"
    then show ?thesis using assms pos [of "nat (- a)" xs "nat (- b)" ys]
      by (simp add: itoa_int_def) linarith
  next
    assume "a < 0" "\<not> b < 0"
    then show ?thesis using assms dash [of "nat b" ys, symmetric] by (simp add: itoa_int_def)
  next
    assume "\<not> a < 0" "b < 0"
    then show ?thesis using assms dash [of "nat a" xs] by (simp add: itoa_int_def)
  next
    assume "\<not> a < 0" "\<not> b < 0"
    then show ?thesis using assms pos [of "nat a" xs "nat b" ys] by (simp add: itoa_int_def) linarith
  qed
qed

lemma itoa_head: "\<not> is_digit c \<Longrightarrow> itoa n @ xs \<noteq> c # ys"
  using is_digit_hd_itoa [of n] itoa_nonempty [of n] by (cases "itoa n") auto

lemma prefix_itoa_dash:
  "prefix (itoa m @ ''-'') (itoa n @ CHR ''-'' # xs) \<longleftrightarrow> m = n"
proof
  assume "prefix (itoa m @ ''-'') (itoa n @ CHR ''-'' # xs)"
  then obtain zs where "itoa n @ CHR ''-'' # xs = itoa m @ CHR ''-'' # zs" by (auto simp: prefix_def)
  from itoa_then_rest [OF this] show "m = n" by simp
qed (simp add: prefix_def)

lemma prefix_itoa_head: "\<not> is_digit c \<Longrightarrow> \<not> prefix (itoa n @ xs) (c # ys)"
  using is_digit_hd_itoa [of n] itoa_nonempty [of n] by (cases "itoa n") auto

lemma prefix_head_itoa: "\<not> is_digit c \<Longrightarrow> \<not> prefix (c # xs) (itoa n @ ys)"
  using is_digit_hd_itoa [of n] itoa_nonempty [of n] by (cases "itoa n") auto

lemmas key_defs = ProposalKey_def VerifyKey_def AutoFoldKey_def CommunityRelayKey_def CommunityCardKey_def
  ShuffleStepKey_def HoleRelayKey_def ShowdownClaimKey_def

text \<open>The first characters of a key tell its kind.\<close>

fun same_kind :: "efile \<Rightarrow> efile \<Rightarrow> bool" where
  "same_kind (Proposal _ _) (Proposal _ _) = True"
| "same_kind (Receipt _ _ _) (Receipt _ _ _) = True"
| "same_kind (AutoFold _ _) (AutoFold _ _) = True"
| "same_kind (CommunityRelay _ _) (CommunityRelay _ _) = True"
| "same_kind (CommunityCard _) (CommunityCard _) = True"
| "same_kind (ShuffleStep _) (ShuffleStep _) = True"
| "same_kind (HoleRelay _ _) (HoleRelay _ _) = True"
| "same_kind (ShowdownClaim _) (ShowdownClaim _) = True"
| "same_kind _ _ = False"

lemma key_of_same_kind:
  assumes "key_of f = key_of g"
  shows "same_kind f g"
proof (cases "\<exists>r a n. f = Receipt r a n \<or> g = Receipt r a n")
  case True
  have "is_digit (hd (VerifyKey r a n))" for r a n
    using is_digit_hd_itoa [of "unat r"] by (simp add: VerifyKey_def)
  moreover have "\<not> is_digit (hd (key_of h))" if "\<not> (\<exists>r a n. h = Receipt r a n)" for h
    using that by (cases h) (simp_all add: key_defs is_digit_def)
  ultimately have "(\<exists>r a n. f = Receipt r a n) \<and> (\<exists>r a n. g = Receipt r a n)"
    using True assms by (metis key_of.simps(2))
  then show ?thesis by auto
next
  case False
  then show ?thesis using assms by (cases f; cases g; simp add: key_defs)
qed

lemma key_of_eq_iff: "key_of f = key_of g \<longleftrightarrow> f = g"
proof
  assume eq: "key_of f = key_of g"
  then have "same_kind f g" by (rule key_of_same_kind)
  then show "f = g"
  proof (cases f; cases g; simp)
    fix r a r' a'
    assume "f = Proposal r a" "g = Proposal r' a'"
    then show "r = r' \<and> a = a'"
      using eq itoa_then_rest [of "unat r" "CHR ''-''" "itoa (unat a)" "unat r'" "CHR ''-''" "itoa (unat a')"]
      by (simp add: ProposalKey_def word_unat_eq_iff)
  next
    fix r a n r' a' n'
    assume "f = Receipt r a n" "g = Receipt r' a' n'"
    then have "itoa (unat r) @ CHR ''-'' # itoa (unat a) @ CHR ''_'' # ''verify_'' @ n =
        itoa (unat r') @ CHR ''-'' # itoa (unat a') @ CHR ''_'' # ''verify_'' @ n'"
      using eq by (simp add: VerifyKey_def)
    from itoa_then_rest [OF this] have r: "unat r = unat r'"
      and rest: "itoa (unat a) @ CHR ''_'' # ''verify_'' @ n = itoa (unat a') @ CHR ''_'' # ''verify_'' @ n'"
      by simp_all
    from itoa_then_rest [OF rest] r show "r = r' \<and> a = a' \<and> n = n'" by (simp add: word_unat_eq_iff)
  next
    fix r n r' n'
    assume "f = AutoFold r n" "g = AutoFold r' n'"
    then show "r = r' \<and> n = n'"
      using eq itoa_then_rest [of "unat r" "CHR ''-''" n "unat r'" "CHR ''-''" n']
      by (simp add: AutoFoldKey_def word_unat_eq_iff)
  next
    fix i s i' s'
    assume "f = CommunityRelay i s" "g = CommunityRelay i' s'"
    then show "i = i' \<and> s = s'"
      using eq itoa_int_then_rest [of i "itoa_int s" i' "itoa_int s'"] by (simp add: CommunityRelayKey_def)
  next
    fix i s i' s'
    assume "f = HoleRelay i s" "g = HoleRelay i' s'"
    then show "i = i' \<and> s = s'"
      using eq itoa_int_then_rest [of i "itoa_int s" i' "itoa_int s'"] by (simp add: HoleRelayKey_def)
  qed (use eq in \<open>simp_all add: key_defs\<close>)
qed simp

lemma key_inject [simp]:
  "ProposalKey r a = ProposalKey r' a' \<longleftrightarrow> r = r' \<and> a = a'"
  "VerifyKey r a n = VerifyKey r' a' n' \<longleftrightarrow> r = r' \<and> a = a' \<and> n = n'"
  "AutoFoldKey r n = AutoFoldKey r' n' \<longleftrightarrow> r = r' \<and> n = n'"
  "CommunityRelayKey i s = CommunityRelayKey i' s' \<longleftrightarrow> i = i' \<and> s = s'"
  "CommunityCardKey i = CommunityCardKey i' \<longleftrightarrow> i = i'"
  "ShuffleStepKey i = ShuffleStepKey i' \<longleftrightarrow> i = i'"
  "HoleRelayKey i s = HoleRelayKey i' s' \<longleftrightarrow> i = i' \<and> s = s'"
  "ShowdownClaimKey i = ShowdownClaimKey i' \<longleftrightarrow> i = i'"
  unfolding key_of.simps [symmetric] key_of_eq_iff by simp_all

lemma key_distinct [simp]:
  "ProposalKey r a \<noteq> VerifyKey r' a' n'" "ProposalKey r a \<noteq> AutoFoldKey r' n'" "ProposalKey r a \<noteq> CommunityRelayKey i' s'"
  "ProposalKey r a \<noteq> CommunityCardKey i'" "ProposalKey r a \<noteq> ShuffleStepKey i'" "ProposalKey r a \<noteq> HoleRelayKey i' s'"
  "ProposalKey r a \<noteq> ShowdownClaimKey i'" "VerifyKey r a n \<noteq> ProposalKey r' a'" "VerifyKey r a n \<noteq> AutoFoldKey r' n'"
  "VerifyKey r a n \<noteq> CommunityRelayKey i' s'" "VerifyKey r a n \<noteq> CommunityCardKey i'" "VerifyKey r a n \<noteq> ShuffleStepKey i'"
  "VerifyKey r a n \<noteq> HoleRelayKey i' s'" "VerifyKey r a n \<noteq> ShowdownClaimKey i'" "AutoFoldKey r n \<noteq> ProposalKey r' a'"
  "AutoFoldKey r n \<noteq> VerifyKey r' a' n'" "AutoFoldKey r n \<noteq> CommunityRelayKey i' s'" "AutoFoldKey r n \<noteq> CommunityCardKey i'"
  "AutoFoldKey r n \<noteq> ShuffleStepKey i'" "AutoFoldKey r n \<noteq> HoleRelayKey i' s'" "AutoFoldKey r n \<noteq> ShowdownClaimKey i'"
  "CommunityRelayKey i s \<noteq> ProposalKey r' a'" "CommunityRelayKey i s \<noteq> VerifyKey r' a' n'" "CommunityRelayKey i s \<noteq> AutoFoldKey r' n'"
  "CommunityRelayKey i s \<noteq> CommunityCardKey i'" "CommunityRelayKey i s \<noteq> ShuffleStepKey i'" "CommunityRelayKey i s \<noteq> HoleRelayKey i' s'"
  "CommunityRelayKey i s \<noteq> ShowdownClaimKey i'" "CommunityCardKey i \<noteq> ProposalKey r' a'" "CommunityCardKey i \<noteq> VerifyKey r' a' n'"
  "CommunityCardKey i \<noteq> AutoFoldKey r' n'" "CommunityCardKey i \<noteq> CommunityRelayKey i' s'" "CommunityCardKey i \<noteq> ShuffleStepKey i'"
  "CommunityCardKey i \<noteq> HoleRelayKey i' s'" "CommunityCardKey i \<noteq> ShowdownClaimKey i'" "ShuffleStepKey i \<noteq> ProposalKey r' a'"
  "ShuffleStepKey i \<noteq> VerifyKey r' a' n'" "ShuffleStepKey i \<noteq> AutoFoldKey r' n'" "ShuffleStepKey i \<noteq> CommunityRelayKey i' s'"
  "ShuffleStepKey i \<noteq> CommunityCardKey i'" "ShuffleStepKey i \<noteq> HoleRelayKey i' s'" "ShuffleStepKey i \<noteq> ShowdownClaimKey i'"
  "HoleRelayKey i s \<noteq> ProposalKey r' a'" "HoleRelayKey i s \<noteq> VerifyKey r' a' n'" "HoleRelayKey i s \<noteq> AutoFoldKey r' n'"
  "HoleRelayKey i s \<noteq> CommunityRelayKey i' s'" "HoleRelayKey i s \<noteq> CommunityCardKey i'" "HoleRelayKey i s \<noteq> ShuffleStepKey i'"
  "HoleRelayKey i s \<noteq> ShowdownClaimKey i'" "ShowdownClaimKey i \<noteq> ProposalKey r' a'" "ShowdownClaimKey i \<noteq> VerifyKey r' a' n'"
  "ShowdownClaimKey i \<noteq> AutoFoldKey r' n'" "ShowdownClaimKey i \<noteq> CommunityRelayKey i' s'" "ShowdownClaimKey i \<noteq> CommunityCardKey i'"
  "ShowdownClaimKey i \<noteq> ShuffleStepKey i'" "ShowdownClaimKey i \<noteq> HoleRelayKey i' s'"
  unfolding key_of.simps [symmetric] key_of_eq_iff by simp_all

section \<open>Properties\<close>

text \<open>
  C33. No two files of the protocol share a name, whatever the node identifiers are: the round,
  attempt, seat, card and node of a file can be read off its key.
\<close>

theorem keys_distinct: "key_of f = key_of g \<longleftrightarrow> f = g"
  by (rule key_of_eq_iff)

text \<open>
  C34. Clean-up hits exactly its files.  \<^verbatim>\<open>DeletePrefix(RoundPrefix(r))\<close> removes the verify receipts of
  round \<open>r\<close>, of every attempt and node, and keeps every other file of the protocol (the round's
  proposals included); \<^verbatim>\<open>DeletePrefix(AutoFoldPrefix(r))\<close> removes exactly the round's auto-fold
  attestations.
\<close>

theorem cleanup_exact:
  "Get (key_of f) (DeletePrefix (RoundPrefix r) s) =
     (case f of Receipt r' a n \<Rightarrow> if r' = r then None else Get (key_of f) s | _ \<Rightarrow> Get (key_of f) s) \<and>
   Get (key_of f) (DeletePrefix (AutoFoldPrefix r) s) =
     (case f of AutoFold r' n \<Rightarrow> if r' = r then None else Get (key_of f) s | _ \<Rightarrow> Get (key_of f) s)"
proof -
  have "prefix (RoundPrefix r) (key_of f) \<longleftrightarrow> (case f of Receipt r' a n \<Rightarrow> r' = r | _ \<Rightarrow> False)"
    by (cases f) (auto simp: key_defs RoundPrefix_def prefix_itoa_dash prefix_itoa_head is_digit_def word_unat_eq_iff)
  moreover have "prefix (AutoFoldPrefix r) (key_of f) \<longleftrightarrow> (case f of AutoFold r' n \<Rightarrow> r' = r | _ \<Rightarrow> False)"
    by (cases f) (auto simp: key_defs AutoFoldPrefix_def prefix_itoa_dash prefix_head_itoa is_digit_def word_unat_eq_iff)
  ultimately show ?thesis by (cases f) simp_all
qed

end
