(* ===== verification/Poll_Network.thy ===== *)
theory Poll_Network
  imports Ephemeral_Store
begin

text \<open>
  The pull-based protocols of \<^verbatim>\<open>internal/peer\<close> all have one shape: a node reads keys of other nodes'
  stores with \<^verbatim>\<open>PollRemote\<close> (\<^verbatim>\<open>ephemeral.go\<close>), which waits until the key is there, and publishes keys
  in its own store.  Node code is written as a \<open>prog\<close> with one constructor per such operation, in
  the order the code performs them; a network runs one program per goroutine, interleaved in any
  order.  The main lemmas: if the keys have definite values (an assignment \<open>E\<close> under which every
  program runs through, \<open>consistent\<close>) and every awaited key is published by a program that waits
  only for keys of lower rank before (\<open>productive\<close>), then every run ends, no program is left
  waiting, and every program returns what it returns under \<open>E\<close>, whatever the interleaving.
\<close>

section \<open>Programs\<close>

text \<open>
  \<open>Read\<close> is \<^verbatim>\<open>PollRemote\<close>, with \<open>None\<close> where it returns an error, \<open>Host\<close> is \<^verbatim>\<open>store.Put\<close>, \<open>Local\<close> is
  \<^verbatim>\<open>store.Get\<close> on the node's own store, and \<open>Erase\<close> is \<^verbatim>\<open>store.Delete\<close> or \<^verbatim>\<open>store.DeletePrefix\<close>.
\<close>

datatype ('e, 'r) prog =
    Return 'r
  | Fail 'e
  | Read string string "bytes option \<Rightarrow> ('e, 'r) prog"
  | Host string bytes "('e, 'r) prog"
  | Local string "bytes option \<Rightarrow> ('e, 'r) prog"
  | Erase "string \<Rightarrow> bool" "('e, 'r) prog"

primrec bindp :: "('e, 'a) prog \<Rightarrow> ('a \<Rightarrow> ('e, 'b) prog) \<Rightarrow> ('e, 'b) prog" where
  "bindp (Return a) g = g a"
| "bindp (Fail e) g = Fail e"
| "bindp (Read t k f) g = Read t k (\<lambda>v. bindp (f v) g)"
| "bindp (Host k v p) g = Host k v (bindp p g)"
| "bindp (Local k f) g = Local k (\<lambda>v. bindp (f v) g)"
| "bindp (Erase d p) g = Erase d (bindp p g)"

text \<open>The usual use of \<^verbatim>\<open>PollRemote\<close>: its error ends the caller.\<close>

definition Poll :: "'e \<Rightarrow> string \<Rightarrow> string \<Rightarrow> (bytes \<Rightarrow> ('e, 'r) prog) \<Rightarrow> ('e, 'r) prog" where
  "Poll e t k f = Read t k (\<lambda>r. case r of None \<Rightarrow> Fail e | Some v \<Rightarrow> f v)"

lemma bindp_Poll [simp]: "bindp (Poll e t k f) g = Poll e t k (\<lambda>v. bindp (f v) g)"
  by (auto simp: Poll_def split: option.splits)

type_synonym world = "string \<Rightarrow> Store"

section \<open>Networks\<close>

type_synonym ('e, 'r) net = "world \<times> (string \<times> ('e, 'r) prog) list"

inductive net_step :: "('e, 'r) net \<Rightarrow> ('e, 'r) net \<Rightarrow> bool" where
  poll_step: "i < length ps \<Longrightarrow> ps ! i = (me, Read t k f) \<Longrightarrow> Get k (w t) = Some v \<Longrightarrow>
    net_step (w, ps) (w, ps[i := (me, f (Some v))])"
| host_step: "i < length ps \<Longrightarrow> ps ! i = (me, Host k v p) \<Longrightarrow>
    net_step (w, ps) (w(me := Put k v (w me)), ps[i := (me, p)])"
| local_step: "i < length ps \<Longrightarrow> ps ! i = (me, Local k f) \<Longrightarrow>
    net_step (w, ps) (w, ps[i := (me, f (Get k (w me)))])"
| erase_step: "i < length ps \<Longrightarrow> ps ! i = (me, Erase d p) \<Longrightarrow>
    net_step (w, ps) (w(me := (\<lambda>k. if d k then None else w me k)), ps[i := (me, p)])"

text \<open>
  A deadline or a cancelled context makes a pending read fail.  \<open>net_step\<close> is the network in which
  nobody gives up; \<open>net_any\<close> is the network in which any pending read may fail at any time.
\<close>

inductive net_any :: "('e, 'r) net \<Rightarrow> ('e, 'r) net \<Rightarrow> bool" where
  any_step: "net_step s s' \<Longrightarrow> net_any s s'"
| give_up: "i < length ps \<Longrightarrow> ps ! i = (me, Read t k f) \<Longrightarrow> net_any (w, ps) (w, ps[i := (me, f None)])"

definition net_reachable :: "('e, 'r) net \<Rightarrow> ('e, 'r) net \<Rightarrow> bool" where
  "net_reachable = net_step\<^sup>*\<^sup>*"

inductive_cases net_stepE: "net_step (w, ps) s"

section \<open>Running a program against an assignment\<close>

datatype event = Polled string string | Hosted string | Looked string

primrec trace ::
  "world \<Rightarrow> string \<Rightarrow> ('e, 'r) prog \<Rightarrow> string set \<Rightarrow> (event list \<times> ('e + 'r)) option" where
  "trace E me (Return r) H = Some ([], Inr r)"
| "trace E me (Fail e) H = Some ([], Inl e)"
| "trace E me (Read t k f) H =
     (case E t k of None \<Rightarrow> None
      | Some v \<Rightarrow> map_option (apfst (Cons (Polled t k))) (trace E me (f (Some v)) H))"
| "trace E me (Host k v p) H =
     (if E me k = Some v then map_option (apfst (Cons (Hosted k))) (trace E me p (insert k H)) else None)"
| "trace E me (Local k f) H =
     (if k \<in> H then map_option (apfst (Cons (Looked k))) (trace E me (f (E me k)) H) else None)"
| "trace E me (Erase d p) H = None"

lemma trace_Poll [simp]: "trace E me (Poll e t k f) H =
    (case E t k of None \<Rightarrow> None | Some v \<Rightarrow> map_option (apfst (Cons (Polled t k))) (trace E me (f v) H))"
  by (simp add: Poll_def split: option.splits)

text \<open>
  The programs \<open>ps\<close> in the world \<open>w\<close> agree with \<open>E\<close>: stored values are \<open>E\<close>'s, and process \<open>i\<close> has
  the events \<open>fst (ts ! i)\<close> ahead of it and the result \<open>snd (ts ! i)\<close>.
\<close>

definition consistent :: "world \<Rightarrow> ('e, 'r) net \<Rightarrow> (event list \<times> ('e + 'r)) list \<Rightarrow> bool" where
  "consistent E s ts \<longleftrightarrow> (case s of (w, ps) \<Rightarrow>
     (\<forall>t k v. w t k = Some v \<longrightarrow> E t k = Some v) \<and> length ts = length ps \<and>
     (\<forall>i < length ps. \<exists>H \<subseteq> dom (w (fst (ps ! i))).
        trace E (fst (ps ! i)) (snd (ps ! i)) H = Some (ts ! i)))"

text \<open>Whatever is awaited is there, or comes from a process that waits only for lower ranks before.\<close>

definition produces :: "(string \<Rightarrow> string \<Rightarrow> nat) \<Rightarrow> event list \<Rightarrow> string \<Rightarrow> string \<Rightarrow> bool" where
  "produces rank es t k \<longleftrightarrow> (\<exists>xs ys. es = xs @ Hosted k # ys \<and>
     (\<forall>t' k'. Polled t' k' \<in> set xs \<longrightarrow> rank t' k' < rank t k))"

definition productive ::
  "(string \<Rightarrow> string \<Rightarrow> nat) \<Rightarrow> ('e, 'r) net \<Rightarrow> (event list \<times> ('e + 'r)) list \<Rightarrow> bool" where
  "productive rank s ts \<longleftrightarrow> (\<forall>i < length ts. \<forall>t k. Polled t k \<in> set (fst (ts ! i)) \<longrightarrow>
     fst s t k \<noteq> None \<or>
     (\<exists>j < length ts. fst (snd s ! j) = t \<and> produces rank (fst (ts ! j)) t k))"

text \<open>Advancing process \<open>i\<close> drops its first event.\<close>

definition advance :: "nat \<Rightarrow> (event list \<times> 'r) list \<Rightarrow> (event list \<times> 'r) list" where
  "advance i ts = ts[i := apfst tl (ts ! i)]"

lemma length_advance [simp]: "length (advance i ts) = length ts"
  by (simp add: advance_def)

lemma snd_advance: "i < length ts \<Longrightarrow> snd (advance i ts ! j) = snd (ts ! j)"
  by (cases "i = j") (simp_all add: advance_def nth_list_update)

lemma fst_advance: "i < length ts \<Longrightarrow> fst (advance i ts ! j) = (if j = i then tl (fst (ts ! i)) else fst (ts ! j))"
  by (simp add: advance_def nth_list_update)

lemma consistentD:
  assumes "consistent E (w, ps) ts"
  shows "length ts = length ps" "w t k = Some v \<Longrightarrow> E t k = Some v"
    "i < length ps \<Longrightarrow> \<exists>H \<subseteq> dom (w (fst (ps ! i))). trace E (fst (ps ! i)) (snd (ps ! i)) H = Some (ts ! i)"
  using assms by (auto simp: consistent_def)

lemma produces_Cons: "produces rank (e # es) t k \<Longrightarrow> e \<noteq> Hosted k \<Longrightarrow> produces rank es t k"
proof -
  assume "produces rank (e # es) t k" and e: "e \<noteq> Hosted k"
  then obtain xs ys where eq: "e # es = xs @ Hosted k # ys"
    and low: "\<forall>t' k'. Polled t' k' \<in> set xs \<longrightarrow> rank t' k' < rank t k"
    by (auto simp: produces_def)
  obtain xs' where "xs = e # xs'" using eq e by (cases xs) auto
  then show "produces rank es t k" using eq low by (auto simp: produces_def)
qed

lemma productive_advance:
  assumes prod: "productive rank (w, ps) ts" and i: "i < length ts" and len: "length ts = length ps"
    and ids: "map fst ps' = map fst ps" and ev: "fst (ts ! i) = e # es"
    and mono: "\<And>t k. w t k \<noteq> None \<Longrightarrow> w' t k \<noteq> None"
    and hosted: "\<And>k. e = Hosted k \<Longrightarrow> w' (fst (ps ! i)) k \<noteq> None"
  shows "productive rank (w', ps') (advance i ts)"
  unfolding productive_def fst_conv snd_conv
proof (intro allI impI)
  fix j t k assume j: "j < length (advance i ts)" and polled: "Polled t k \<in> set (fst (advance i ts ! j))"
  have "Polled t k \<in> set (fst (ts ! j))"
    using polled ev by (auto simp: fst_advance [OF i] split: if_splits)
  then consider "w t k \<noteq> None"
    | j' where "j' < length ts" "fst (ps ! j') = t" "produces rank (fst (ts ! j')) t k"
    using prod j unfolding productive_def fst_conv snd_conv length_advance by blast
  then show "w' t k \<noteq> None \<or> (\<exists>j < length (advance i ts). fst (ps' ! j) = t \<and>
      produces rank (fst (advance i ts ! j)) t k)"
  proof cases
    case 1
    then show ?thesis using mono by blast
  next
    case (2 j')
    have id: "fst (ps' ! j') = t" using 2(1, 2) ids len by (metis length_map nth_map)
    show ?thesis
    proof (cases "j' = i \<and> e = Hosted k")
      case True
      then show ?thesis using hosted 2(2) by blast
    next
      case False
      then have "produces rank (fst (advance i ts ! j')) t k"
        using 2(3) ev produces_Cons [of rank e es t k] by (auto simp: fst_advance [OF i])
      then show ?thesis using 2(1) id by auto
    qed
  qed
qed

lemma ids_update: "i < length ps \<Longrightarrow> ps ! i = (me, p) \<Longrightarrow> map fst (ps[i := (me, q)]) = map fst ps"
  by (metis fst_conv list_update_id map_update)

lemma consistent_advance:
  assumes con: "consistent E (w, ps) ts" and i: "i < length ps" "ps ! i = (me, p)"
    and tr: "trace E me q H = Some (es, r)" "ts ! i = (e # es, r)" "H \<subseteq> dom (w' me)"
    and mono: "\<And>x. dom (w x) \<subseteq> dom (w' x)"
    and vals: "\<And>t k v. w' t k = Some v \<Longrightarrow> E t k = Some v"
  shows "consistent E (w', ps[i := (me, q)]) (advance i ts)"
  unfolding consistent_def prod.case
proof (intro conjI allI impI)
  have len: "length ts = length ps" by (rule consistentD(1) [OF con])
  show "length (advance i ts) = length (ps[i := (me, q)])" using len by simp
  fix j assume j: "j < length (ps[i := (me, q)])"
  show "\<exists>H \<subseteq> dom (w' (fst (ps[i := (me, q)] ! j))).
      trace E (fst (ps[i := (me, q)] ! j)) (snd (ps[i := (me, q)] ! j)) H = Some (advance i ts ! j)"
  proof (cases "j = i")
    case True
    then show ?thesis using tr i(1) len by (intro exI [of _ H]) (simp add: advance_def)
  next
    case False
    then obtain H' where "H' \<subseteq> dom (w (fst (ps ! j)))" "trace E (fst (ps ! j)) (snd (ps ! j)) H' = Some (ts ! j)"
      using consistentD(3) [OF con, of j] j by auto
    then show ?thesis
      using False mono [of "fst (ps ! j)"] by (intro exI [of _ H']) (simp add: advance_def)
  qed
qed (rule vals)

text \<open>One step: some process consumes its first event, and the network stays consistent.\<close>

lemma net_step_advances:
  assumes con: "consistent E s ts" and step: "net_step s s'"
  obtains i where "i < length ts" "fst (ts ! i) \<noteq> []" "consistent E s' (advance i ts)"
    "productive rank s ts \<Longrightarrow> productive rank s' (advance i ts)"
    "map fst (snd s') = map fst (snd s)"
    "\<forall>t k. fst s t k \<noteq> None \<longrightarrow> fst s' t k \<noteq> None"
    "\<forall>k. hd (fst (ts ! i)) = Hosted k \<longrightarrow> fst s' (fst (snd s ! i)) k \<noteq> None"
proof -
  from step show thesis
  proof cases
    case (poll_step i ps me t k f w v)
    note s = poll_step(1) and 1 = poll_step(2-5)
    note ids = ids_update [OF 1(2, 3)]
    note con = con [unfolded s]
    note len = consistentD(1) [OF con]
    obtain H where H: "H \<subseteq> dom (w me)" "trace E me (Read t k f) H = Some (ts ! i)"
      using consistentD(3) [OF con 1(2)] 1(3) by auto
    have "E t k = Some v" using consistentD(2) [OF con] 1(4) by (simp add: Get_def)
    then obtain es r where tr: "trace E me (f (Some v)) H = Some (es, r)" "ts ! i = (Polled t k # es, r)"
      using H(2) by (auto simp: apfst_def map_prod_def split: option.splits)
    have "consistent E s' (advance i ts)" unfolding 1(1)
      by (rule consistent_advance [where w' = w, OF con 1(2, 3) tr H(1)]) (use consistentD(2) [OF con] in auto)
    moreover have "productive rank s' (advance i ts)" if "productive rank s ts"
      unfolding 1(1)
      by (rule productive_advance [OF that [unfolded s] _ len ids, of _ "Polled t k" es]) (use 1 len tr in auto)
    ultimately show thesis
      by (rule that [of i, rotated 2]) (use 1 len tr ids s in simp_all)
  next
    case (host_step i ps me k v p w)
    note s = host_step(1) and 2 = host_step(2-4)
    note ids = ids_update [OF 2(2, 3)]
    note con = con [unfolded s]
    note len = consistentD(1) [OF con]
    obtain H where H: "H \<subseteq> dom (w me)" "trace E me (Host k v p) H = Some (ts ! i)"
      using consistentD(3) [OF con 2(2)] 2(3) by auto
    then obtain es r where tr: "E me k = Some v" "trace E me p (insert k H) = Some (es, r)"
        "ts ! i = (Hosted k # es, r)"
      by (auto simp: apfst_def map_prod_def split: if_splits)
    have mono: "w t k' \<noteq> None \<Longrightarrow> (w(me := Put k v (w me))) t k' \<noteq> None" for t k'
      by (auto simp: Put_def)
    have "insert k H \<subseteq> dom ((w(me := Put k v (w me))) me)" using H(1) by (auto simp: Put_def)
    then have "consistent E s' (advance i ts)" unfolding 2(1)
      by (rule consistent_advance [OF con 2(2, 3) tr(2, 3)])
        (use tr(1) consistentD(2) [OF con] in \<open>auto simp: Put_def split: if_splits\<close>)
    moreover have "productive rank s' (advance i ts)" if "productive rank s ts"
      unfolding 2(1)
      by (rule productive_advance [OF that [unfolded s] _ len ids, of _ "Hosted k" es])
        (use 2 len tr mono in \<open>auto simp: Put_def\<close>)
    ultimately show thesis
      by (rule that [of i, rotated 2]) (use 2 len tr ids s mono in \<open>simp_all add: Put_def\<close>)
  next
    case (local_step i ps me k f w)
    note s = local_step(1) and 3 = local_step(2-4)
    note ids = ids_update [OF 3(2, 3)]
    note con = con [unfolded s]
    note len = consistentD(1) [OF con]
    obtain H where H: "H \<subseteq> dom (w me)" "trace E me (Local k f) H = Some (ts ! i)"
      using consistentD(3) [OF con 3(2)] 3(3) by auto
    then have k: "k \<in> H" by (auto split: if_splits)
    then obtain v where v: "w me k = Some v" using H(1) by blast
    then have Ev: "E me k = Some v" using consistentD(2) [OF con] by blast
    obtain es r where tr: "trace E me (f (Some v)) H = Some (es, r)" "ts ! i = (Looked k # es, r)"
      using H(2) k Ev by (auto simp: apfst_def map_prod_def)
    have "Get k (w me) = Some v" using v by (simp add: Get_def)
    then have "consistent E s' (advance i ts)" unfolding 3(1)
      using consistent_advance [where w' = w, OF con 3(2, 3) tr H(1)] consistentD(2) [OF con] by auto
    moreover have "productive rank s' (advance i ts)" if "productive rank s ts"
      unfolding 3(1)
      by (rule productive_advance [OF that [unfolded s] _ len ids, of _ "Looked k" es]) (use 3 len tr in auto)
    ultimately show thesis
      by (rule that [of i, rotated 2]) (use 3 len tr ids s in simp_all)
  next
    case (erase_step i ps me d p w)
    then show thesis using consistentD(3) [of E w ps ts i] con by auto
  qed
qed

definition ahead :: "(event list \<times> 'r) list \<Rightarrow> nat" where
  "ahead ts = sum_list (map (\<lambda>t. length (fst t)) ts)"

lemma ahead_advance:
  assumes "i < length ts" "fst (ts ! i) \<noteq> []"
  shows "Suc (ahead (advance i ts)) = ahead ts"
proof -
  let ?xs = "map (\<lambda>t. length (fst t)) ts"
  have "map (\<lambda>t. length (fst t)) (advance i ts) = ?xs[i := ?xs ! i - 1]"
    using assms by (simp add: advance_def map_update)
  moreover have "?xs ! i \<le> sum_list ?xs" "0 < ?xs ! i" using assms by (simp_all add: member_le_sum_list)
  moreover have "sum_list (?xs[i := ?xs ! i - 1]) = sum_list ?xs + (?xs ! i - 1) - ?xs ! i"
    using assms(1) by (simp add: sum_list_update)
  ultimately have "sum_list (map (\<lambda>t. length (fst t)) (advance i ts)) = sum_list ?xs + (?xs ! i - 1) - ?xs ! i"
    by (simp only:)
  then show ?thesis unfolding ahead_def
    using \<open>?xs ! i \<le> sum_list ?xs\<close> \<open>0 < ?xs ! i\<close> by linarith
qed

text \<open>A run of \<open>n\<close> steps: what is ahead, what is published, and what the results will be.\<close>

lemma net_run:
  assumes "consistent E s ts" "(net_step ^^ n) s s'"
  shows "\<exists>ts'. consistent E s' ts' \<and> map snd ts' = map snd ts \<and> n + ahead ts' = ahead ts \<and>
    (productive rank s ts \<longrightarrow> productive rank s' ts') \<and> map fst (snd s') = map fst (snd s) \<and>
    (\<forall>t k. fst s t k \<noteq> None \<longrightarrow> fst s' t k \<noteq> None) \<and>
    (\<forall>i < length ts. \<forall>k. Hosted k \<in> set (fst (ts ! i)) \<longrightarrow>
       Hosted k \<in> set (fst (ts' ! i)) \<or> fst s' (fst (snd s ! i)) k \<noteq> None)"
  using assms(2)
proof (induction n arbitrary: s')
  case 0
  then show ?case using assms(1) by auto
next
  case (Suc n)
  then obtain u where u: "(net_step ^^ n) s u" "net_step u s'" by (auto simp: relcompp_apply)
  obtain ts' where ts': "consistent E u ts'" "map snd ts' = map snd ts" "n + ahead ts' = ahead ts"
    "productive rank s ts \<longrightarrow> productive rank u ts'" "map fst (snd u) = map fst (snd s)"
    "\<forall>t k. fst s t k \<noteq> None \<longrightarrow> fst u t k \<noteq> None"
    "\<forall>i < length ts. \<forall>k. Hosted k \<in> set (fst (ts ! i)) \<longrightarrow>
       Hosted k \<in> set (fst (ts' ! i)) \<or> fst u (fst (snd s ! i)) k \<noteq> None"
    using Suc.IH [OF u(1)] by blast
  obtain i where i: "i < length ts'" "fst (ts' ! i) \<noteq> []" "consistent E s' (advance i ts')"
    "productive rank u ts' \<longrightarrow> productive rank s' (advance i ts')" "map fst (snd s') = map fst (snd u)"
    "\<forall>t k. fst u t k \<noteq> None \<longrightarrow> fst s' t k \<noteq> None"
    "\<forall>k. hd (fst (ts' ! i)) = Hosted k \<longrightarrow> fst s' (fst (snd u ! i)) k \<noteq> None"
    using net_step_advances [OF ts'(1) u(2), of rank] by blast
  have snds: "map snd (advance i ts') = map snd ts"
    unfolding ts'(2) [symmetric] using i(1) by (simp add: list_eq_iff_nth_eq snd_advance)
  have len: "length ts = length ts'" using ts'(2) by (metis length_map)
  have lenu: "length ts' = length (snd u)" using ts'(1) by (cases u) (simp add: consistent_def)
  have host: "Hosted k \<in> set (fst (advance i ts' ! j)) \<or> fst s' (fst (snd s ! j)) k \<noteq> None"
    if j: "j < length ts" "Hosted k \<in> set (fst (ts ! j))" for j k
  proof (cases "Hosted k \<in> set (fst (ts' ! j))")
    case True
    have "fst (snd u ! j) = fst (snd s ! j)"
      using ts'(5) j(1) len lenu by (metis length_map nth_map)
    moreover have "Hosted k \<in> set (tl (fst (ts' ! i))) \<or> hd (fst (ts' ! i)) = Hosted k" if "j = i"
      using True that i(2) by (cases "fst (ts' ! i)") auto
    ultimately show ?thesis using True i(7) by (auto simp: fst_advance [OF i(1)])
  next
    case False
    then have "fst u (fst (snd s ! j)) k \<noteq> None" using ts'(7) j by blast
    then show ?thesis using i(6) by blast
  qed
  show ?case
    using i(3-6) snds ts'(3-6) ahead_advance [OF i(1, 2)] host by (intro exI [of _ "advance i ts'"]) auto
qed

text \<open>Where nothing can step, nothing is ahead: the waiting process of least rank would have its key.\<close>

lemma stuck_done:
  assumes con: "consistent E (w, ps) ts" and prod: "productive rank (w, ps) ts"
    and stuck: "\<not> (\<exists>s'. net_step (w, ps) s')" and i: "i < length ts"
  shows "fst (ts ! i) = []"
proof (rule ccontr)
  note len = consistentD(1) [OF con]
  have waits: "\<exists>t k es. fst (ts ! j) = Polled t k # es \<and> w t k = None" if j: "j < length ts" "fst (ts ! j) \<noteq> []" for j
  proof -
    obtain me p where p: "ps ! j = (me, p)" by (cases "ps ! j")
    obtain H where H: "H \<subseteq> dom (w me)" "trace E me p H = Some (ts ! j)"
      using consistentD(3) [OF con, of j] j(1) len p by auto
    have jl: "j < length ps" using j(1) len by simp
    show ?thesis
    proof (cases p)
      case (Read t k f)
      have "w t k = None"
      proof (rule ccontr)
        assume "w t k \<noteq> None"
        then obtain v where "Get k (w t) = Some v" by (auto simp: Get_def)
        then show False using stuck poll_step [OF jl] p Read by blast
      qed
      moreover have "\<exists>es. fst (ts ! j) = Polled t k # es"
        using H(2) Read by (cases "ts ! j") (auto split: option.splits)
      ultimately show ?thesis by blast
    next
      case (Host k v q)
      then show ?thesis using stuck host_step [OF jl] p by blast
    next
      case (Local k f)
      then show ?thesis using stuck local_step [OF jl] p by blast
    qed (use H(2) j(2) in \<open>cases "ts ! j"; auto\<close>)+
  qed
  define waiting where "waiting = {(t, k). \<exists>j < length ts. \<exists>es. fst (ts ! j) = Polled t k # es}"
  assume "fst (ts ! i) \<noteq> []"
  then obtain t0 k0 where "(t0, k0) \<in> waiting" using waits [OF i] i by (auto simp: waiting_def)
  then obtain t k where tk: "(t, k) \<in> waiting" "\<And>t' k'. (t', k') \<in> waiting \<Longrightarrow> rank t k \<le> rank t' k'"
    using ex_has_least_nat [of "\<lambda>x. x \<in> waiting" "(t0, k0)" "\<lambda>x. rank (fst x) (snd x)"]
    by (metis fst_conv snd_conv surj_pair)
  then obtain j es where j: "j < length ts" "fst (ts ! j) = Polled t k # es" by (auto simp: waiting_def)
  have "w t k = None" using waits [OF j(1)] j(2) by auto
  then obtain j' where j': "j' < length ts" "produces rank (fst (ts ! j')) t k"
    using prod [unfolded productive_def, rule_format, OF j(1), of t k] j(2) by auto
  then obtain xs ys where xs: "fst (ts ! j') = xs @ Hosted k # ys"
    "\<forall>t' k'. Polled t' k' \<in> set xs \<longrightarrow> rank t' k' < rank t k" by (auto simp: produces_def)
  obtain t' k' es' where es': "fst (ts ! j') = Polled t' k' # es'" using waits [OF j'(1)] xs(1) by auto
  then have "Polled t' k' \<in> set xs" using xs(1) by (cases xs) auto
  moreover have "(t', k') \<in> waiting" using j'(1) es' by (auto simp: waiting_def)
  ultimately show False using xs(2) tk(2) by (metis not_less)
qed

fun finished :: "('e + 'r) \<Rightarrow> ('e, 'r) prog" where
  "finished (Inr r) = Return r"
| "finished (Inl e) = Fail e"

lemma trace_done: "trace E me p H = Some ([], r) \<Longrightarrow> p = finished r"
  by (cases p) (auto simp: apfst_def map_prod_def split: option.splits if_splits)

definition net_done :: "('e, 'r) net \<Rightarrow> bool" where
  "net_done s \<longleftrightarrow> \<not> (\<exists>s'. net_step s s')"

text \<open>
  The main result: runs are bounded, and where a run cannot go on every process has the result it
  has under \<open>E\<close>, and every file it was to publish is there with \<open>E\<close>'s value.
\<close>

lemma net_completes:
  assumes con: "consistent E s ts" and prod: "productive rank s ts" and run: "(net_step ^^ n) s s'"
  shows "n \<le> ahead ts"
    and "net_done s' \<Longrightarrow> n = ahead ts"
    and "net_done s' \<Longrightarrow> map snd (snd s') = map (\<lambda>t. finished (snd t)) ts"
    and "net_done s' \<Longrightarrow> i < length ts \<Longrightarrow> Hosted k \<in> set (fst (ts ! i)) \<Longrightarrow>
      fst s' (fst (snd s ! i)) k = E (fst (snd s ! i)) k"
    and "fst s' t k' = Some v \<Longrightarrow> E t k' = Some v"
    and "fst s t k' \<noteq> None \<Longrightarrow> fst s' t k' = E t k'"
proof -
  obtain ts' where ts': "consistent E s' ts'" "map snd ts' = map snd ts" "n + ahead ts' = ahead ts"
    "productive rank s' ts'" "map fst (snd s') = map fst (snd s)"
    "\<forall>t k. fst s t k \<noteq> None \<longrightarrow> fst s' t k \<noteq> None"
    "\<forall>i < length ts. \<forall>k. Hosted k \<in> set (fst (ts ! i)) \<longrightarrow>
       Hosted k \<in> set (fst (ts' ! i)) \<or> fst s' (fst (snd s ! i)) k \<noteq> None"
    using net_run [OF con run, of rank] prod by blast
  obtain w' ps' where s': "s' = (w', ps')" by (cases s')
  note con' = ts'(1) [unfolded s']
  have len: "length ts = length ts'" using ts'(2) by (metis length_map)
  show "n \<le> ahead ts" using ts'(3) by simp
  show val: "E t k' = Some v" if "fst s' t k' = Some v" for t k' v
    using consistentD(2) [OF con'] that s' by simp
  show "fst s' t k' = E t k'" if "fst s t k' \<noteq> None" for t k'
    using ts'(6) that val by (metis option.exhaust)
  assume "net_done s'"
  then have empty: "fst (ts' ! j) = []" if "j < length ts'" for j
    using stuck_done [OF con' _ _ that] ts'(4) s' by (simp add: net_done_def)
  have "ahead ts' = 0" unfolding ahead_def using empty by (simp add: sum_list_eq_0_iff all_set_conv_all_nth)
  then show "n = ahead ts" using ts'(3) by simp
  show "map snd (snd s') = map (\<lambda>t. finished (snd t)) ts"
  proof (rule nth_equalityI)
    show "length (map snd (snd s')) = length (map (\<lambda>t. finished (snd t)) ts)"
      using consistentD(1) [OF con'] len s' by simp
    fix j assume j: "j < length (map snd (snd s'))"
    then have jl: "j < length ps'" "j < length ts'" using s' consistentD(1) [OF con'] by auto
    obtain H where "trace E (fst (ps' ! j)) (snd (ps' ! j)) H = Some (ts' ! j)"
      using consistentD(3) [OF con' jl(1)] by blast
    then have "trace E (fst (ps' ! j)) (snd (ps' ! j)) H = Some ([], snd (ts' ! j))"
      using empty [OF jl(2)] by (metis prod.collapse)
    then have "snd (ps' ! j) = finished (snd (ts' ! j))" by (rule trace_done)
    moreover have "snd (ts' ! j) = snd (ts ! j)" using ts'(2) jl(2) len by (metis nth_map)
    ultimately show "map snd (snd s') ! j = map (\<lambda>t. finished (snd t)) ts ! j"
      using s' jl len by simp
  qed
  assume i: "i < length ts" "Hosted k \<in> set (fst (ts ! i))"
  then have "fst s' (fst (snd s ! i)) k \<noteq> None" using ts'(7) empty [of i] len by auto
  then show "fst s' (fst (snd s ! i)) k = E (fst (snd s ! i)) k" using val by (metis option.exhaust)
qed

lemma net_can_finish:
  assumes "consistent E s ts"
  shows "\<exists>m s'. (net_step ^^ m) s s' \<and> net_done s'"
  using assms
proof (induction "ahead ts" arbitrary: s ts rule: less_induct)
  case less
  show ?case
  proof (cases "net_done s")
    case True
    then show ?thesis by (intro exI [of _ 0]) auto
  next
    case False
    then obtain u where u: "net_step s u" by (auto simp: net_done_def)
    obtain i where i: "i < length ts" "fst (ts ! i) \<noteq> []" "consistent E u (advance i ts)"
      by (rule net_step_advances [OF less(2) u])
    have "ahead (advance i ts) < ahead ts" using ahead_advance [OF i(1, 2)] by linarith
    from less(1) [OF this i(3)] obtain m s' where "(net_step ^^ m) u s'" "net_done s'" by blast
    then have "(net_step ^^ Suc m) s s' \<and> net_done s'" using relpowp_Suc_I2 [of net_step s u m s'] u by blast
    then show ?thesis by blast
  qed
qed

lemma net_run_finishes:
  assumes "consistent E s ts" "(net_step ^^ n) s s'"
  shows "\<exists>m s''. (net_step ^^ m) s' s'' \<and> net_done s''"
proof -
  obtain ts' where "consistent E s' ts'" using net_run [OF assms, of "\<lambda>_ _. 0"] by blast
  then show ?thesis by (rule net_can_finish)
qed

section \<open>Programs in sequence\<close>

lemma trace_mono: "trace E me p H = Some x \<Longrightarrow> H \<subseteq> H' \<Longrightarrow> trace E me p H' = Some x"
proof (induction p arbitrary: H H' x)
  case (Read t k f)
  obtain v y where "E t k = Some v" "trace E me (f (Some v)) H = Some y" "x = apfst (Cons (Polled t k)) y"
    using Read.prems by (auto split: option.splits)
  then show ?case using Read.IH [OF rangeI, of "Some v" H y H'] Read.prems(2) by simp
next
  case (Host k v p)
  obtain y where "E me k = Some v" "trace E me p (insert k H) = Some y" "x = apfst (Cons (Hosted k)) y"
    using Host.prems by (auto split: if_splits)
  then show ?case using Host.IH [of "insert k H" y "insert k H'"] insert_mono [OF Host.prems(2), of k] by simp
next
  case (Local k f)
  obtain y where "k \<in> H" "trace E me (f (E me k)) H = Some y" "x = apfst (Cons (Looked k)) y"
    using Local.prems by (auto split: if_splits)
  then show ?case using Local.IH [OF rangeI, of "E me k" H y H'] Local.prems(2) by (simp add: subsetD)
qed auto

lemma trace_bindp_from:
  assumes "trace E me p H = Some (es, Inr r)" "trace E me (g r) H = Some (es', r')"
  shows "trace E me (bindp p g) H = Some (es @ es', r')"
proof -
  have "trace E me (g r) H' = Some (es', r')" if "H \<subseteq> H'" for H' by (rule trace_mono [OF assms(2) that])
  then have "trace E me p H' = Some (es, Inr r) \<Longrightarrow> H \<subseteq> H' \<Longrightarrow> trace E me (bindp p g) H' = Some (es @ es', r')" for H'
  proof (induction p arbitrary: H' es)
    case (Read t k f)
    obtain v es1 where "E t k = Some v" "trace E me (f (Some v)) H' = Some (es1, Inr r)" "es = Polled t k # es1"
      using Read.prems by (auto split: option.splits)
    then show ?case using Read.IH [OF rangeI, of "Some v" H' es1] Read.prems by auto
  next
    case (Host k v p)
    obtain es1 where "E me k = Some v" "trace E me p (insert k H') = Some (es1, Inr r)" "es = Hosted k # es1"
      using Host.prems by (auto split: if_splits)
    then show ?case using Host.IH [of "insert k H'" es1] Host.prems by auto
  next
    case (Local k f)
    obtain es1 where "k \<in> H'" "trace E me (f (E me k)) H' = Some (es1, Inr r)" "es = Looked k # es1"
      using Local.prems by (auto split: if_splits)
    then show ?case using Local.IH [OF rangeI, of "E me k" H' es1] Local.prems by auto
  qed auto
  then show ?thesis using assms(1) by simp
qed

lemma trace_bindp:
  assumes "trace E me p H = Some (es, Inr r)" "trace E me (g r) {} = Some (es', r')"
  shows "trace E me (bindp p g) H = Some (es @ es', r')"
  using trace_bindp_from [OF assms(1)] trace_mono [OF assms(2)] by blast

lemma bindp_Return: "bindp p Return = p"
  by (induction p) auto

text \<open>A program whose trace is known runs to its end alone.\<close>

lemma trace_runs:
  "trace E me p H = Some (es, r) \<Longrightarrow> H \<subseteq> dom (E me) \<Longrightarrow> (net_step ^^ length es) (E, [(me, p)]) (E, [(me, finished r)])"
proof (induction p arbitrary: H es)
  case (Read t k f)
  obtain v es1 where v: "E t k = Some v" "trace E me (f (Some v)) H = Some (es1, r)" "es = Polled t k # es1"
    using Read.prems(1) by (auto split: option.splits)
  have "net_step (E, [(me, Read t k f)]) (E, [(me, f (Some v))])"
    using poll_step [of 0 "[(me, Read t k f)]" me t k f E v] v(1) by (simp add: Get_def)
  then show ?case using Read.IH [OF rangeI v(2) Read.prems(2)] v(3) relpowp_Suc_I2 [of net_step] by auto
next
  case (Host k v p)
  obtain es1 where v: "E me k = Some v" "trace E me p (insert k H) = Some (es1, r)" "es = Hosted k # es1"
    using Host.prems(1) by (auto split: if_splits)
  have "E(me := Put k v (E me)) = E" using v(1) by (simp add: Put_def fun_upd_idem)
  then have "net_step (E, [(me, Host k v p)]) (E, [(me, p)])"
    using host_step [of 0 "[(me, Host k v p)]" me k v p E] by simp
  moreover have "insert k H \<subseteq> dom (E me)" using Host.prems(2) v(1) by auto
  ultimately show ?case using Host.IH [OF v(2)] v(3) relpowp_Suc_I2 [of net_step] by auto
next
  case (Local k f)
  obtain es1 where v: "trace E me (f (E me k)) H = Some (es1, r)" "es = Looked k # es1"
    using Local.prems(1) by (auto split: if_splits)
  have "net_step (E, [(me, Local k f)]) (E, [(me, f (E me k))])"
    using local_step [of 0 "[(me, Local k f)]" me k f E] by (simp add: Get_def)
  then show ?case using Local.IH [OF rangeI v(1) Local.prems(2)] v(2) relpowp_Suc_I2 [of net_step] by auto
qed auto

section \<open>Assignments from a list of files\<close>

text \<open>
  A protocol's files in an order in which they can be produced: the assignment they make over the
  stores at the start, and their position as rank.
\<close>

type_synonym file_list = "((string \<times> string) \<times> bytes) list"

definition with_files :: "file_list \<Rightarrow> world \<Rightarrow> world" where
  "with_files fs w t k = (case map_of fs (t, k) of Some v \<Rightarrow> Some v | None \<Rightarrow> w t k)"

definition file_rank :: "file_list \<Rightarrow> string \<Rightarrow> string \<Rightarrow> nat" where
  "file_rank fs t k = length (takeWhile (\<lambda>f. fst f \<noteq> (t, k)) fs)"

definition fresh_for :: "file_list \<Rightarrow> world \<Rightarrow> bool" where
  "fresh_for fs w \<longleftrightarrow> (\<forall>((t, k), v) \<in> set fs. w t k = None)"

lemma with_files_nth:
  assumes "distinct (map fst fs)" "m < length fs" "fs ! m = ((t, k), v)"
  shows "with_files fs w t k = Some v"
proof -
  have "((t, k), v) \<in> set fs" using assms(2, 3) by (metis nth_mem)
  then show ?thesis using assms(1) by (simp add: with_files_def)
qed

lemma with_files_mem:
  assumes "distinct (map fst fs)" "((t, k), v) \<in> set fs"
  shows "with_files fs w t k = Some v"
  using assms by (simp add: with_files_def)

lemma with_files_extends:
  assumes "fresh_for fs w" "w t k = Some v"
  shows "with_files fs w t k = Some v"
proof -
  have "map_of fs (t, k) = None"
    using assms by (auto simp: fresh_for_def map_of_eq_None_iff)
  then show ?thesis using assms(2) by (simp add: with_files_def)
qed

lemma file_rank_nth:
  assumes "distinct (map fst fs)" "m < length fs" "fst (fs ! m) = (t, k)"
  shows "file_rank fs t k = m"
proof -
  have "takeWhile (\<lambda>f. fst f \<noteq> (t, k)) fs = take m fs"
  proof (rule takeWhile_eq_take_P_nth)
    fix i assume "i < m" "i < length fs"
    then show "fst (fs ! i) \<noteq> (t, k)"
      using assms nth_eq_iff_index_eq [of "map fst fs" i m] by auto
  qed (use assms in simp)
  then show ?thesis using assms(2) by (simp add: file_rank_def)
qed

text \<open>
  A network of programs whose traces are known, which poll only listed files and publish each listed
  file after polling only files of lower rank, is consistent and productive.
\<close>

lemma network_of_files:
  assumes fresh: "fresh_for fs w"
    and traces: "\<And>x. x \<in> set xs \<Longrightarrow>
        \<exists>H \<subseteq> dom (w (me x)). trace (with_files fs w) (me x) (pr x) H = Some (tr x)"
    and polls: "\<And>x t k. x \<in> set xs \<Longrightarrow> Polled t k \<in> set (fst (tr x)) \<Longrightarrow>
        w t k \<noteq> None \<or> (t, k) \<in> fst ` set fs"
    and hosts: "\<And>t k v. ((t, k), v) \<in> set fs \<Longrightarrow> \<exists>x \<in> set xs. me x = t \<and>
        (\<exists>ys zs. fst (tr x) = ys @ Hosted k # zs \<and>
           (\<forall>t' k'. Polled t' k' \<in> set ys \<longrightarrow> rank t' k' < rank t k))"
  shows "consistent (with_files fs w) (w, map (\<lambda>x. (me x, pr x)) xs) (map tr xs)"
    "productive rank (w, map (\<lambda>x. (me x, pr x)) xs) (map tr xs)"
proof -
  show "consistent (with_files fs w) (w, map (\<lambda>x. (me x, pr x)) xs) (map tr xs)"
    unfolding consistent_def prod.case using with_files_extends [OF fresh] traces by auto
  show "productive rank (w, map (\<lambda>x. (me x, pr x)) xs) (map tr xs)"
    unfolding productive_def fst_conv snd_conv
  proof (intro allI impI)
    fix i t k assume i: "i < length (map tr xs)" "Polled t k \<in> set (fst (map tr xs ! i))"
    show "w t k \<noteq> None \<or> (\<exists>j < length (map tr xs). fst (map (\<lambda>x. (me x, pr x)) xs ! j) = t \<and>
        produces rank (fst (map tr xs ! j)) t k)"
    proof (cases "w t k = None")
      case True
      then obtain v where "((t, k), v) \<in> set fs" using polls [of "xs ! i" t k] i by auto
      from hosts [OF this] obtain x where x: "x \<in> set xs" "me x = t" "produces rank (fst (tr x)) t k"
        by (auto simp: produces_def)
      then obtain j where "j < length xs" "xs ! j = x" by (auto simp: in_set_conv_nth)
      then show ?thesis using x by auto
    qed simp
  qed
qed

text \<open>A node's seat as rank: enough where files come from ascending seats.\<close>

definition seat_rank :: "string list \<Rightarrow> string \<Rightarrow> string \<Rightarrow> nat" where
  "seat_rank ids t k = length (takeWhile (\<lambda>x. x \<noteq> t) ids)"

lemma seat_rank_nth:
  assumes "distinct ids" "i < length ids"
  shows "seat_rank ids (ids ! i) k = i"
proof -
  have "takeWhile (\<lambda>x. x \<noteq> ids ! i) ids = take i ids"
    using assms by (intro takeWhile_eq_take_P_nth) (auto simp: nth_eq_iff_index_eq)
  then show ?thesis using assms(2) by (simp add: seat_rank_def)
qed

end
