(* ===== verification/Deal.thy ===== *)
theory Deal
  imports SRA Cards Poll_Network
begin

text \<open>
  \<^verbatim>\<open>internal/peer/shuffle.go\<close>, \<^verbatim>\<open>deal.go\<close> and \<^verbatim>\<open>community.go\<close>: the shuffle ring, the hole-card deal and the
  community reveals, each as a program of the polling network.  \<open>Node\<close> holds the fields of
  \<^verbatim>\<open>peer.Node\<close> these operations use.  Gob encoding is a parameter (\<open>deck_codec\<close>); events that only
  report progress are left out.  The theorems: under any interleaving the three protocols finish,
  every node ends with the same final deck, every owner (and nobody else) ends with the two cards of
  their slots, and everyone sees the same board.
\<close>

section \<open>Nodes\<close>

record Node =
  nid :: string
  Order :: "string list"
  SeatIdx :: int
  modKey :: Key
  prime :: nat
  FinalDeck :: "bytes list"
  card1 :: string
  card2 :: string
  community :: "string list"

text \<open>Indexing a slice with an \<^verbatim>\<open>int\<close>; \<open>None\<close> is the panic.\<close>

definition at :: "'a list \<Rightarrow> int \<Rightarrow> 'a option" where
  "at xs i = (if 0 \<le> i \<and> i < int (length xs) then Some (xs ! nat i) else None)"

record deck_codec =
  encodeDeck :: "bytes list \<Rightarrow> bytes option"
  decodeDeck :: "bytes \<Rightarrow> bytes list option"

definition codec_ok :: "deck_codec \<Rightarrow> bool" where
  "codec_ok G \<longleftrightarrow> (\<forall>d. \<exists>b. encodeDeck G d = Some b \<and> decodeDeck G b = Some d)"

datatype deal_error =
    NotEnoughPlayers
  | DecodeShuffleStep int
  | ShuffleFailed
  | EncodeShuffleStep
  | DecodeFinalDeck
  | SlotOutOfBounds int
  | SlotNoOwner int
  | EmptyRing int
  | NotInRing int int
  | CardOutOfBounds int
  | PollShuffleStep int
  | PollFinalDeck
  | PollHoleRelay int
  | PollStripper int int
  | PollCommunityRelay int int
  | PollCommunityCard int
  | GoPanic

definition index_or_panic :: "'a list \<Rightarrow> int \<Rightarrow> ('a \<Rightarrow> (deal_error, 'r) prog) \<Rightarrow> (deal_error, 'r) prog" where
  "index_or_panic xs i f = (case at xs i of None \<Rightarrow> Fail GoPanic | Some x \<Rightarrow> f x)"

section \<open>The shuffle ring\<close>

definition buildOrderedDeck :: "bytes list" where
  "buildOrderedDeck = map (\<lambda>i. bytes_of_string (itoa (i + 1))) [0..<52]"

text \<open>
  \<open>rnd\<close> is the random source of this node's \<^verbatim>\<open>deck.Shuffle\<close>.  \<open>shuffle_host\<close> is everything after
  the deck has arrived.
\<close>

definition shuffle_host :: "deck_codec \<Rightarrow> (nat \<Rightarrow> nat option) \<Rightarrow> Node \<Rightarrow> bytes list \<Rightarrow> (deal_error, Node) prog" where
  "shuffle_host G rnd n d =
     (let (ok, d) = Shuffle rnd d in
      if \<not> ok then Fail ShuffleFailed
      else let d = EncryptDeck d (modKey n) (prime n) in
      case encodeDeck G d of None \<Rightarrow> Fail EncodeShuffleStep
      | Some encoded \<Rightarrow>
          Host (ShuffleStepKey (SeatIdx n)) encoded
            (let lastSeat = int (length (Order n)) - 1 in
             if SeatIdx n = lastSeat then Return (n\<lparr>FinalDeck := d\<rparr>)
             else index_or_panic (Order n) lastSeat (\<lambda>lastID.
               Poll PollFinalDeck lastID (ShuffleStepKey lastSeat) (\<lambda>data.
                 case decodeDeck G data of None \<Rightarrow> Fail DecodeFinalDeck
                 | Some final \<Rightarrow> Return (n\<lparr>FinalDeck := final\<rparr>)))))"

definition RunShuffle :: "deck_codec \<Rightarrow> (nat \<Rightarrow> nat option) \<Rightarrow> Node \<Rightarrow> (deal_error, Node) prog" where
  "RunShuffle G rnd n =
     (if length (Order n) < 2 then Fail NotEnoughPlayers
      else if SeatIdx n = 0 then shuffle_host G rnd n buildOrderedDeck
      else let prevSeat = SeatIdx n - 1 in
        index_or_panic (Order n) prevSeat (\<lambda>prevID.
          Poll (PollShuffleStep prevSeat) prevID (ShuffleStepKey prevSeat) (\<lambda>data.
            case decodeDeck G data of None \<Rightarrow> Fail (DecodeShuffleStep prevSeat)
            | Some d \<Rightarrow> shuffle_host G rnd n d)))"

section \<open>Hole cards\<close>

definition nonOwnerRing :: "nat \<Rightarrow> int \<Rightarrow> int list" where
  "nonOwnerRing numPlayers ownerSeat = filter (\<lambda>i. i \<noteq> ownerSeat) (map int [0..<numPlayers])"

fun ring_pos :: "int list \<Rightarrow> int \<Rightarrow> int \<Rightarrow> int" where
  "ring_pos [] i seat = -1"
| "ring_pos (s # ring) i seat = (if s = seat then i else ring_pos ring (i + 1) seat)"

definition ringPosition :: "int list \<Rightarrow> int \<Rightarrow> int" where
  "ringPosition ring seat = ring_pos ring 0 seat"

definition setHole :: "int \<Rightarrow> string \<Rightarrow> Node \<Rightarrow> Node" where
  "setHole slot c n = (if slot mod 2 = 0 then n\<lparr>card1 := c\<rparr> else n\<lparr>card2 := c\<rparr>)"

text \<open>
  One goroutine of the deal.  Its result is what it writes with \<^verbatim>\<open>setHole\<close>: the slot and the plaintext
  at the owner, nothing elsewhere.
\<close>

definition dealHoleSlot :: "Node \<Rightarrow> int \<Rightarrow> (deal_error, (int \<times> string) option) prog" where
  "dealHoleSlot n slot =
     (if slot < 0 \<or> int (length (FinalDeck n)) \<le> slot then Fail (SlotOutOfBounds slot)
      else let ownerSeat = slot div 2 in
      if int (length (Order n)) \<le> ownerSeat then Fail (SlotNoOwner slot)
      else let ring = nonOwnerRing (length (Order n)) ownerSeat in
      if length ring = 0 then Fail (EmptyRing slot)
      else if SeatIdx n = ownerSeat then
        let lastStripper = ring ! (length ring - 1) in
        index_or_panic (Order n) lastStripper (\<lambda>lastID.
          Poll (PollHoleRelay slot) lastID (HoleRelayKey slot lastStripper) (\<lambda>data.
            Return (Some (slot, string_of_bytes (DecryptCard data (modKey n) (prime n))))))
      else let ringIdx = ringPosition ring (SeatIdx n) in
      if ringIdx < 0 then Fail (NotInRing (SeatIdx n) slot)
      else let strip = (\<lambda>layered. Host (HoleRelayKey slot (SeatIdx n)) (DecryptCard layered (modKey n) (prime n))
                                    (Return None)) in
      if ringIdx = 0 then index_or_panic (FinalDeck n) slot strip
      else index_or_panic ring (ringIdx - 1) (\<lambda>prevSeat.
        index_or_panic (Order n) prevSeat (\<lambda>prevID.
          Poll (PollStripper slot prevSeat) prevID (HoleRelayKey slot prevSeat) strip)))"

text \<open>\<^verbatim>\<open>DealHoleCards\<close> runs one goroutine per slot; their writes and the first error make the outcome.\<close>

definition DealHoleCards :: "Node \<Rightarrow> (deal_error, (int \<times> string) option) prog list" where
  "DealHoleCards n = map (\<lambda>slot. dealHoleSlot n (int slot)) [0..<length (Order n) * 2]"

fun deal_outcome :: "(deal_error, (int \<times> string) option) prog list \<Rightarrow> Node \<Rightarrow> Node" where
  "deal_outcome [] n = n"
| "deal_outcome (Return (Some (slot, c)) # ps) n = deal_outcome ps (setHole slot c n)"
| "deal_outcome (_ # ps) n = deal_outcome ps n"

definition NoCardsYet :: "Node \<Rightarrow> bool" where
  "NoCardsYet n \<longleftrightarrow> card1 n = [] \<or> card2 n = []"

definition HoleCards :: "Node \<Rightarrow> string \<times> string" where
  "HoleCards n = (card1 n, card2 n)"

section \<open>Community cards\<close>

definition communityBase :: "Node \<Rightarrow> int" where
  "communityBase n = int (length (Order n)) * 2"

text \<open>\<^verbatim>\<open>None\<close> is the panic on a negative board index.\<close>

definition setCommunity :: "int \<Rightarrow> string \<Rightarrow> Node \<Rightarrow> Node option" where
  "setCommunity cardIdx c n =
     (let boardIdx = cardIdx - communityBase n;
          cs = community n @ replicate (nat (boardIdx + 1) - length (community n)) [] in
      if boardIdx < 0 then None
      else if cs ! nat boardIdx \<noteq> [] then Some (n\<lparr>community := cs\<rparr>)
      else Some (n\<lparr>community := cs[nat boardIdx := c]\<rparr>))"

definition set_community :: "int \<Rightarrow> string \<Rightarrow> Node \<Rightarrow> (deal_error, Node) prog" where
  "set_community cardIdx c n = (case setCommunity cardIdx c n of None \<Rightarrow> Fail GoPanic | Some n \<Rightarrow> Return n)"

definition RevealCommunityCard :: "int \<Rightarrow> Node \<Rightarrow> (deal_error, Node) prog" where
  "RevealCommunityCard cardIdx n =
     (if cardIdx < 0 \<or> int (length (FinalDeck n)) \<le> cardIdx then Fail (CardOutOfBounds cardIdx)
      else let strip = (\<lambda>layered.
          let stripped = DecryptCard layered (modKey n) (prime n);
              lastSeat = int (length (Order n)) - 1 in
          Host (CommunityRelayKey cardIdx (SeatIdx n)) stripped
            (if SeatIdx n = lastSeat then
               Host (CommunityCardKey cardIdx) stripped (set_community cardIdx (string_of_bytes stripped) n)
             else index_or_panic (Order n) lastSeat (\<lambda>lastID.
               Poll (PollCommunityCard cardIdx) lastID (CommunityCardKey cardIdx) (\<lambda>plaintext.
                 set_community cardIdx (string_of_bytes plaintext) n)))) in
      if SeatIdx n = 0 then index_or_panic (FinalDeck n) cardIdx strip
      else let prevSeat = SeatIdx n - 1 in
        index_or_panic (Order n) prevSeat (\<lambda>prevID.
          Poll (PollCommunityRelay cardIdx prevSeat) prevID (CommunityRelayKey cardIdx prevSeat) strip))"

fun reveal_all :: "int list \<Rightarrow> Node \<Rightarrow> (deal_error, Node) prog" where
  "reveal_all [] n = Return n"
| "reveal_all (idx # idxs) n = bindp (RevealCommunityCard idx n) (reveal_all idxs)"

definition RevealFlop :: "Node \<Rightarrow> (deal_error, Node) prog" where
  "RevealFlop n = (let base = communityBase n in reveal_all [base, base + 1, base + 2] n)"

definition RevealTurn :: "Node \<Rightarrow> (deal_error, Node) prog" where
  "RevealTurn n = RevealCommunityCard (communityBase n + 3) n"

definition RevealRiver :: "Node \<Rightarrow> (deal_error, Node) prog" where
  "RevealRiver n = RevealCommunityCard (communityBase n + 4) n"

definition CommunityCards :: "Node \<Rightarrow> string list" where
  "CommunityCards n = community n"

definition CommunityCount :: "Node \<Rightarrow> nat" where
  "CommunityCount n = length (filter (\<lambda>c. c \<noteq> []) (community n))"

section \<open>A table of nodes\<close>

definition seat_node :: "string list \<Rightarrow> Key list \<Rightarrow> nat \<Rightarrow> nat \<Rightarrow> Node" where
  "seat_node ids ks p i = \<lparr>nid = ids ! i, Order = ids, SeatIdx = int i, modKey = ks ! i, prime = p,
     FinalDeck = [], card1 = [], card2 = [], community = []\<rparr>"

text \<open>
  Distinct node identifiers, a usable key and a working random source for each, and a prime above
  every card number.
\<close>

definition good_table :: "deck_codec \<Rightarrow> nat \<Rightarrow> string list \<Rightarrow> Key list \<Rightarrow> (nat \<Rightarrow> nat option) list \<Rightarrow> bool" where
  "good_table G p ids ks rnds \<longleftrightarrow> codec_ok G \<and> is_prime p \<and> 13618 < p \<and> distinct ids \<and> 2 \<le> length ids \<and>
     length ks = length ids \<and> length rnds = length ids \<and> (\<forall>k \<in> set ks. key_ok p k) \<and>
     (\<forall>rnd \<in> set rnds. draws_ok 52 rnd)"

text \<open>The deck after \<open>i\<close> seats have shuffled and encrypted it.\<close>

fun ring_deck :: "(nat \<Rightarrow> nat option) list \<Rightarrow> Key list \<Rightarrow> nat \<Rightarrow> nat \<Rightarrow> bytes list" where
  "ring_deck rnds ks p 0 = buildOrderedDeck"
| "ring_deck rnds ks p (Suc i) = EncryptDeck (snd (Shuffle (rnds ! i) (ring_deck rnds ks p i))) (ks ! i) p"

definition card_nums :: "nat list" where
  "card_nums = map be_nat buildOrderedDeck"

lemma big_bytes_be_nat:
  assumes "b = [] \<or> hd b \<noteq> 0"
  shows "big_bytes (be_nat b) = b"
  using assms
proof (induction b rule: rev_induct)
  case (snoc w b)
  have n: "be_nat (b @ [w]) = be_nat b * 256 + unat w" by (simp add: be_nat_def)
  have IH: "big_bytes (be_nat b) = b" using snoc by (cases b) auto
  have w: "unat w < 256" using unsigned_less [of w] by simp
  have "be_nat (b @ [w]) \<noteq> 0"
  proof (cases b)
    case Nil
    then show ?thesis using snoc(2) by (simp add: be_nat_def unat_eq_zero)
  next
    case Cons
    then have "be_nat b \<noteq> 0" using IH by (metis big_bytes.simps list.distinct(1))
    then show ?thesis by (simp add: n)
  qed
  moreover have "(of_nat (be_nat b * 256 + unat w) :: 8 word) = w"
  proof -
    have "(256 :: 8 word) = 0" by simp
    then have "(of_nat (be_nat b * 256) :: 8 word) = 0" by (simp only: of_nat_mult of_nat_numeral mult_zero_right)
    then show ?thesis by (simp only: of_nat_add) simp
  qed
  moreover have "(be_nat b * 256 + unat w) div 256 = be_nat b" using w by simp
  ultimately show ?case using IH by (simp add: n big_bytes.simps [of "be_nat b * 256 + unat w"])
qed (simp add: be_nat_def big_bytes.simps)

lemma itoa_bytes_canonical: "big_bytes (be_nat (bytes_of_string (itoa n))) = bytes_of_string (itoa n)"
proof (rule big_bytes_be_nat)
  obtain c s where cs: "itoa n = c # s" "is_digit c" using is_digit_hd_itoa [of n] itoa_nonempty [of n] by (cases "itoa n") auto
  then have "of_char c \<ge> (48 :: nat)" "of_char c < (256 :: nat)" by (auto simp: is_digit_def less_eq_char_def)
  then have "(of_nat (of_char c) :: 8 word) \<noteq> 0" by (simp add: word_of_nat_eq_0_iff nat_dvd_not_less)
  then show "bytes_of_string (itoa n) = [] \<or> hd (bytes_of_string (itoa n)) \<noteq> 0"
    using cs(1) by (simp add: bytes_of_string_def)
qed

lemma digit_byte:
  assumes "d < 10"
  shows "unat (of_nat (of_char (digit_char d)) :: 8 word) = 48 + d"
proof -
  have "(of_char (digit_char d) :: nat) = 48 + d" using assms by (simp add: digit_char_nat)
  moreover have "(48 + d) mod 256 = 48 + d" using assms by simp
  ultimately show ?thesis by (simp only: unat_of_nat_byte)
qed

lemma two_digits:
  assumes "10 \<le> n" "n < 100"
  shows "be_nat (bytes_of_string (itoa n)) = (48 + n div 10) * 256 + (48 + n mod 10)"
proof -
  have "itoa n = [digit_char (n div 10), digit_char (n mod 10)]"
    using assms by (simp add: itoa.simps [of n] itoa.simps [of "n div 10"])
  moreover have "n div 10 < 10" "n mod 10 < 10" using assms by auto
  ultimately show ?thesis by (simp add: bytes_of_string_def be_nat_def digit_byte)
qed

lemma one_digit: "n < 10 \<Longrightarrow> be_nat (bytes_of_string (itoa n)) = 48 + n"
  by (simp add: itoa.simps [of n] bytes_of_string_def be_nat_def digit_byte)

lemma card_num_bound:
  assumes "n \<le> 52"
  shows "be_nat (bytes_of_string (itoa n)) < 13619"
proof (cases "n < 10")
  case False
  have "(48 + n div 10) * 256 + (48 + n mod 10) < 13619"
  proof (cases "n < 50")
    case True
    then have "n div 10 \<le> 4" "n mod 10 \<le> 9" using div_le_mono [of n 49 10] by auto
    moreover have "a \<le> 4 \<Longrightarrow> b \<le> 9 \<Longrightarrow> (48 + a) * 256 + (48 + b) < 13619" for a b :: nat by simp
    ultimately show ?thesis by blast
  next
    case False
    then have "n = 50 \<or> n = 51 \<or> n = 52" using assms by linarith
    then show ?thesis by auto
  qed
  then show ?thesis using False assms by (simp add: two_digits)
qed (simp add: one_digit)

lemma deck_cards: "buildOrderedDeck = map big_bytes card_nums" "\<forall>m \<in> set card_nums. m < 13619"
  "distinct card_nums" "length card_nums = 52"
proof -
  show deck: "buildOrderedDeck = map big_bytes card_nums"
    by (simp add: card_nums_def buildOrderedDeck_def itoa_bytes_canonical)
  show "\<forall>m \<in> set card_nums. m < 13619"
    using card_num_bound by (auto simp: card_nums_def buildOrderedDeck_def)
  have "distinct buildOrderedDeck"
    by (simp add: buildOrderedDeck_def distinct_map inj_on_def bytes_of_string_inj)
  then show "distinct card_nums" unfolding deck by (simp add: distinct_map)
  show "length card_nums = 52" by (simp add: card_nums_def buildOrderedDeck_def)
qed

lemma map_preimage:
  assumes "mset ys = image_mset f M"
  shows "\<exists>xs. mset xs = M \<and> ys = map f xs"
  using assms
proof (induction ys arbitrary: M)
  case (Cons y ys)
  then obtain N x where "M = add_mset x N" "f x = y" "image_mset f N = mset ys"
    using msed_map_invR [of f M y "mset ys"] by (metis mset.simps(2))
  then show ?case using Cons.IH [of N] by (metis list.simps(9) mset.simps(2))
qed simp

lemma Shuffle_ok:
  assumes "draws_ok (length d) rnd" "d \<noteq> []"
  shows "fst (Shuffle rnd d)" "mset (snd (Shuffle rnd d)) = mset d"
proof -
  have "fst (shuffle_loop rnd i e)" if "i < length e" "draws_ok (Suc i) rnd" for i and e :: "'a list"
    using that
  proof (induction rnd i e rule: shuffle_loop.induct)
    case (2 rnd i e)
    obtain j where "rnd (Suc i) = Some j" using 2(3) by (auto simp: draws_ok_def)
    then show ?case using 2 by (auto simp: draws_ok_def)
  qed simp
  then show "fst (Shuffle rnd d)" unfolding Shuffle_def using assms by simp
  show "mset (snd (Shuffle rnd d)) = mset d"
    unfolding Shuffle_def using assms by (intro shuffle_loop_perm) (fastforce simp: draws_ok_def)+
qed

lemma ring_deck_form:
  assumes "good_table G p ids ks rnds" "i \<le> length ids"
  shows "\<exists>ms. mset ms = mset card_nums \<and>
    ring_deck rnds ks p i = map (\<lambda>m. big_bytes (fold (enc p) (take i ks) m)) ms"
  using assms(2)
proof (induction i)
  case 0
  then show ?case using deck_cards(1) by (intro exI [of _ card_nums]) simp
next
  case (Suc i)
  let ?f = "\<lambda>m. big_bytes (fold (enc p) (take i ks) m)"
  obtain ms where ms: "mset ms = mset card_nums" "ring_deck rnds ks p i = map ?f ms" using Suc by auto
  have len: "length ms = 52" using ms(1) deck_cards(4) by (metis size_mset)
  have "rnds ! i \<in> set rnds" using Suc(2) assms(1) by (simp add: good_table_def)
  then have "draws_ok (length (map ?f ms)) (rnds ! i)" using assms(1) len by (simp add: good_table_def)
  then have "mset (snd (Shuffle (rnds ! i) (map ?f ms))) = image_mset ?f (mset ms)"
    using Shuffle_ok(2) [of "map ?f ms" "rnds ! i"] len by fastforce
  then obtain ms' where ms': "mset ms' = mset ms" "snd (Shuffle (rnds ! i) (map ?f ms)) = map ?f ms'"
    using map_preimage by blast
  have "take (Suc i) ks = take i ks @ [ks ! i]"
    using Suc(2) assms(1) by (simp add: good_table_def take_Suc_conv_app_nth)
  then have "ring_deck rnds ks p (Suc i) = map (\<lambda>m. big_bytes (fold (enc p) (take (Suc i) ks) m)) ms'"
    using ms(2) ms'(2) EncryptDeck_enc [of "map (fold (enc p) (take i ks)) ms'" "ks ! i" p] by (simp add: o_def)
  then show ?case using ms(1) ms'(1) by auto
qed

section \<open>The shuffle ring runs through\<close>

definition shuffle_net ::
  "deck_codec \<Rightarrow> nat \<Rightarrow> string list \<Rightarrow> Key list \<Rightarrow> (nat \<Rightarrow> nat option) list \<Rightarrow> world \<Rightarrow> (deal_error, Node) net" where
  "shuffle_net G p ids ks rnds w =
     (w, map (\<lambda>i. (ids ! i, RunShuffle G (rnds ! i) (seat_node ids ks p i))) [0..<length ids])"

definition shuffle_files ::
  "deck_codec \<Rightarrow> nat \<Rightarrow> string list \<Rightarrow> Key list \<Rightarrow> (nat \<Rightarrow> nat option) list \<Rightarrow> file_list" where
  "shuffle_files G p ids ks rnds = map (\<lambda>i. ((ids ! i, ShuffleStepKey (int i)),
     the (encodeDeck G (ring_deck rnds ks p (Suc i))))) [0..<length ids]"

definition shuffle_events :: "string list \<Rightarrow> nat \<Rightarrow> event list" where
  "shuffle_events ids i =
     (if i = 0 then [] else [Polled (ids ! (i - 1)) (ShuffleStepKey (int (i - 1)))]) @
     Hosted (ShuffleStepKey (int i)) #
     (if Suc i = length ids then []
      else [Polled (ids ! (length ids - 1)) (ShuffleStepKey (int (length ids - 1)))])"

lemma at_nth [simp]: "i < length xs \<Longrightarrow> at xs (int i) = Some (xs ! i)"
  by (simp add: at_def)

declare ring_deck.simps [simp del]

lemma ring_deck_length:
  assumes "good_table G p ids ks rnds" "i \<le> length ids"
  shows "length (ring_deck rnds ks p i) = 52"
proof -
  obtain ms where "mset ms = mset card_nums" "length (ring_deck rnds ks p i) = length ms"
    using ring_deck_form [OF assms] by auto
  then show ?thesis using deck_cards(4) by (metis size_mset)
qed

lemma shuffle_trace:
  assumes good: "good_table G p ids ks rnds" and i: "i < length ids"
    and E: "\<And>j. j < length ids \<Longrightarrow> E (ids ! j) (ShuffleStepKey (int j)) =
        Some (the (encodeDeck G (ring_deck rnds ks p (Suc j))))"
  shows "trace E (ids ! i) (RunShuffle G (rnds ! i) (seat_node ids ks p i)) {} =
    Some (shuffle_events ids i, Inr ((seat_node ids ks p i)\<lparr>FinalDeck := ring_deck rnds ks p (length ids)\<rparr>))"
proof -
  let ?N = "length ids" and ?d = "\<lambda>j. ring_deck rnds ks p j"
  have N: "2 \<le> ?N" using good by (simp add: good_table_def)
  then have pos: "0 < ?N" by linarith
  have enc: "\<exists>b. encodeDeck G d = Some b \<and> decodeDeck G b = Some d" for d
    using good by (simp add: good_table_def codec_ok_def)
  have dec: "decodeDeck G (the (encodeDeck G d)) = Some d" "encodeDeck G d = Some (the (encodeDeck G d))" for d
    using enc [of d] by auto
  have "rnds ! i \<in> set rnds" using good i by (simp add: good_table_def)
  then have "draws_ok (length (?d i)) (rnds ! i)"
    using good ring_deck_length [OF good, of i] i by (simp add: good_table_def)
  then have ok: "fst (Shuffle (rnds ! i) (?d i))"
    using ring_deck_length [OF good, of i] i by (intro Shuffle_ok(1)) auto
  have last: "at ids (int ?N - 1) = Some (ids ! (?N - 1))" using N at_nth [of "?N - 1" ids] by (simp add: of_nat_diff)
  have lastE: "E (ids ! (?N - 1)) (ShuffleStepKey (int ?N - 1)) = Some (the (encodeDeck G (?d ?N)))"
    using E [of "?N - 1"] pos by (simp add: of_nat_diff Suc_le_eq)
  have host: "trace E (ids ! i) (shuffle_host G (rnds ! i) (seat_node ids ks p i) (?d i)) {} =
      Some (Hosted (ShuffleStepKey (int i)) # (if Suc i = ?N then []
          else [Polled (ids ! (?N - 1)) (ShuffleStepKey (int (?N - 1)))]),
        Inr ((seat_node ids ks p i)\<lparr>FinalDeck := ?d ?N\<rparr>))"
  proof -
    obtain d where d: "Shuffle (rnds ! i) (?d i) = (True, d)" using ok by (cases "Shuffle (rnds ! i) (?d i)") auto
    then have "EncryptDeck d (ks ! i) p = ?d (Suc i)" by (simp add: ring_deck.simps)
    then show ?thesis
      using i N E [OF i] last lastE dec(2) [of "?d (Suc i)"] d
      by (auto simp: shuffle_host_def seat_node_def Let_def index_or_panic_def dec(1) apfst_def map_prod_def
          of_nat_diff split: option.split)
  qed
  show ?thesis
  proof (cases "i = 0")
    case True
    then show ?thesis using host N by (simp add: ring_deck.simps(1) RunShuffle_def shuffle_events_def seat_node_def)
  next
    case False
    then have prev: "at ids (int i - 1) = Some (ids ! (i - 1))"
      "E (ids ! (i - 1)) (ShuffleStepKey (int i - 1)) = Some (the (encodeDeck G (?d i)))"
      using at_nth [of "i - 1" ids] E [of "i - 1"] i by (simp_all add: of_nat_diff Suc_le_eq)
    then show ?thesis using host N False
      by (simp add: RunShuffle_def shuffle_events_def seat_node_def Let_def index_or_panic_def dec(1) apfst_def
          map_prod_def of_nat_diff)
  qed
qed

lemma good_ids: "good_table G p ids ks rnds \<Longrightarrow> i < length ids \<Longrightarrow> j < length ids \<Longrightarrow> ids ! i = ids ! j \<longleftrightarrow> i = j"
  by (simp add: good_table_def nth_eq_iff_index_eq)

lemma shuffle_network:
  assumes good: "good_table G p ids ks rnds"
    and fresh: "\<forall>i < length ids. w (ids ! i) (ShuffleStepKey (int i)) = None"
  defines "fs \<equiv> shuffle_files G p ids ks rnds"
  defines "ts \<equiv> map (\<lambda>i. (shuffle_events ids i,
      Inr ((seat_node ids ks p i)\<lparr>FinalDeck := ring_deck rnds ks p (length ids)\<rparr>))) [0..<length ids]"
  shows "consistent (with_files fs w) (shuffle_net G p ids ks rnds w) ts"
    "productive (seat_rank ids) (shuffle_net G p ids ks rnds w) ts"
proof -
  let ?N = "length ids"
  have ids: "distinct ids" using good by (simp add: good_table_def)
  have dist: "distinct (map fst fs)" by (auto simp: fs_def shuffle_files_def distinct_map inj_on_def)
  have fr: "fresh_for fs w" using fresh by (auto simp: fresh_for_def fs_def shuffle_files_def)
  have mem: "((ids ! j, ShuffleStepKey (int j)), the (encodeDeck G (ring_deck rnds ks p (Suc j)))) \<in> set fs"
    if "j < ?N" for j using that by (auto simp: fs_def shuffle_files_def)
  have E: "with_files fs w (ids ! j) (ShuffleStepKey (int j)) =
      Some (the (encodeDeck G (ring_deck rnds ks p (Suc j))))" if "j < ?N" for j
    by (rule with_files_mem [OF dist mem [OF that]])
  have polls: "(t, k) \<in> fst ` set fs" if "i < ?N" "Polled t k \<in> set (shuffle_events ids i)" for i t k
  proof -
    have "(t, k) = (ids ! (i - 1), ShuffleStepKey (int (i - 1))) \<or> (t, k) = (ids ! (?N - 1), ShuffleStepKey (int (?N - 1)))"
      using that by (auto simp: shuffle_events_def split: if_splits)
    moreover have "i - 1 < ?N" "?N - 1 < ?N" using that by auto
    ultimately show ?thesis using mem by (metis fst_conv image_eqI)
  qed
  have traces: "\<exists>H \<subseteq> dom (w (ids ! i)). trace (with_files fs w) (ids ! i)
      (RunShuffle G (rnds ! i) (seat_node ids ks p i)) H = Some (shuffle_events ids i,
        Inr ((seat_node ids ks p i)\<lparr>FinalDeck := ring_deck rnds ks p ?N\<rparr>))" if "i \<in> set [0..<?N]" for i
    using shuffle_trace [OF good _ E, of i] that by (intro exI [of _ "{}"]) simp
  have hosts: "\<exists>x \<in> set [0..<?N]. ids ! x = t \<and> (\<exists>ys zs. shuffle_events ids x = ys @ Hosted k # zs \<and>
      (\<forall>t' k'. Polled t' k' \<in> set ys \<longrightarrow> seat_rank ids t' k' < seat_rank ids t k))"
    if mem_fs: "((t, k), v) \<in> set fs" for t k v
  proof -
    obtain i where i: "i < ?N" "t = ids ! i" "k = ShuffleStepKey (int i)"
      using mem_fs by (auto simp: fs_def shuffle_files_def)
    have low: "seat_rank ids t' k' < seat_rank ids t k" if "i \<noteq> 0" "t' = ids ! (i - 1)" for t' k'
      using that i by (simp add: seat_rank_nth [OF ids])
    have "\<exists>ys zs. shuffle_events ids i = ys @ Hosted k # zs \<and>
        (\<forall>t' k'. Polled t' k' \<in> set ys \<longrightarrow> i \<noteq> 0 \<and> t' = ids ! (i - 1))"
      unfolding shuffle_events_def i(3) by (intro exI conjI, rule refl) auto
    then show ?thesis using i(1, 2) low by (intro bexI [of _ i]) (blast, simp)
  qed
  show "consistent (with_files fs w) (shuffle_net G p ids ks rnds w) ts"
    "productive (seat_rank ids) (shuffle_net G p ids ks rnds w) ts"
    unfolding shuffle_net_def ts_def
    by (rule network_of_files [OF fr], erule traces, simp add: polls, simp only: fst_conv, erule hosts)+
qed

lemma ahead_le: "(\<And>t. t \<in> set ts \<Longrightarrow> length (fst t) \<le> b) \<Longrightarrow> ahead ts \<le> b * length ts"
proof (induction ts)
  case (Cons t ts)
  then have "ahead ts \<le> b * length ts" "length (fst t) \<le> b" by auto
  then show ?case by (simp add: ahead_def)
qed (simp add: ahead_def)

text \<open>
  C18. The shuffle ring runs through, whatever the interleaving: with two or more distinct nodes,
  usable keys and working random sources, no run of the \<open>N\<close> nodes takes more than \<open>3N\<close> steps, and
  where it stops every node has returned with the same final deck, which is some permutation of the
  52 cards with every card encrypted under all the keys.
\<close>

theorem shuffle_ring_completes:
  assumes "good_table G p ids ks rnds" "\<forall>i < length ids. w (ids ! i) (ShuffleStepKey (int i)) = None"
    "(net_step ^^ n) (shuffle_net G p ids ks rnds w) s"
  shows "n \<le> 3 * length ids \<and> (\<exists>m s'. (net_step ^^ m) s s' \<and> net_done s') \<and>
    (net_done s \<longrightarrow> (\<exists>ms. mset ms = mset card_nums \<and>
       map snd (snd s) = map (\<lambda>i. Return ((seat_node ids ks p i)
         \<lparr>FinalDeck := map (\<lambda>m. big_bytes (fold (enc p) ks m)) ms\<rparr>)) [0..<length ids]))"
proof -
  let ?ts = "map (\<lambda>i. (shuffle_events ids i,
      Inr ((seat_node ids ks p i)\<lparr>FinalDeck := ring_deck rnds ks p (length ids)\<rparr>) :: deal_error + Node)) [0..<length ids]"
  note net = shuffle_network [OF assms(1, 2)]
  have "ahead ?ts \<le> 3 * length ?ts" by (intro ahead_le) (auto simp: shuffle_events_def)
  then have "n \<le> 3 * length ids" using net_completes(1) [OF net assms(3)] by simp
  moreover have "\<exists>ms. mset ms = mset card_nums \<and>
       map snd (snd s) = map (\<lambda>i. Return ((seat_node ids ks p i)
         \<lparr>FinalDeck := map (\<lambda>m. big_bytes (fold (enc p) ks m)) ms\<rparr>)) [0..<length ids]" if "net_done s"
  proof -
    obtain ms where "mset ms = mset card_nums"
      "ring_deck rnds ks p (length ids) = map (\<lambda>m. big_bytes (fold (enc p) (take (length ids) ks) m)) ms"
      using ring_deck_form [OF assms(1), of "length ids"] by auto
    moreover have "take (length ids) ks = ks" using assms(1) by (simp add: good_table_def)
    ultimately show ?thesis using net_completes(3) [OF net assms(3) that] by (intro exI [of _ ms]) simp
  qed
  moreover have "\<exists>m s'. (net_step ^^ m) s s' \<and> net_done s'" by (rule net_run_finishes [OF net(1) assms(3)])
  ultimately show ?thesis by blast
qed

section \<open>An example table\<close>

fun flat :: "bytes list \<Rightarrow> bytes" where
  "flat [] = []"
| "flat (c # cs) = concat (map (\<lambda>b. [1, b]) c) @ 0 # flat cs"

fun unflat :: "bytes \<Rightarrow> bytes \<Rightarrow> bytes list" where
  "unflat acc (x # xs) = (if x = 0 then rev acc # unflat [] xs
     else case xs of [] \<Rightarrow> [] | b # ys \<Rightarrow> unflat (b # acc) ys)"
| "unflat acc [] = []"

lemma unflat_card: "unflat acc (concat (map (\<lambda>b. [1, b]) c) @ r) = unflat (rev c @ acc) r"
  by (induction c arbitrary: acc) simp_all

lemma unflat_flat: "unflat [] (flat d) = d"
  by (induction d) (simp_all add: unflat_card)

definition demo_codec :: deck_codec where
  "demo_codec = \<lparr>encodeDeck = \<lambda>d. Some (flat d), decodeDeck = \<lambda>b. Some (unflat [] b)\<rparr>"

definition demo_keys :: "Key list" where
  "demo_keys = [\<lparr>Exponent = 3, InverseExponent = 9079\<rparr>, \<lparr>Exponent = 5, InverseExponent = 8171\<rparr>]"

lemma demo_table: "good_table demo_codec PRIME [''a'', ''b''] demo_keys [Some, \<lambda>_. Some 0]"
proof -
  have "codec_ok demo_codec" by (simp add: codec_ok_def demo_codec_def unflat_flat)
  moreover have "\<forall>k \<in> set demo_keys. key_ok PRIME k"
    by (simp add: demo_keys_def key_ok_def PRIME_def coprime_iff_gcd_eq_1 gcd_non_0_nat)
  ultimately show ?thesis
    using PRIME_prime by (simp add: good_table_def draws_ok_def demo_keys_def) (simp add: PRIME_def)
qed

theorem shuffle_ring_completes_witness:
  "\<exists>n s ms. (net_step ^^ n) (shuffle_net demo_codec PRIME [''a'', ''b''] demo_keys [Some, \<lambda>_. Some 0] (\<lambda>_. New)) s \<and>
     n \<le> 6 \<and> mset ms = mset card_nums \<and> map snd (snd s) =
       map (\<lambda>i. Return ((seat_node [''a'', ''b''] demo_keys PRIME i)
         \<lparr>FinalDeck := map (\<lambda>m. big_bytes (fold (enc PRIME) demo_keys m)) ms\<rparr>)) [0, 1]"
proof -
  let ?net = "shuffle_net demo_codec PRIME [''a'', ''b''] demo_keys [Some, \<lambda>_. Some 0] (\<lambda>_. New)"
  have fresh: "\<forall>i < length [''a'', ''b'']. New (ShuffleStepKey (int i)) = None" by (simp add: New_def)
  have "(net_step ^^ 0) ?net ?net" by simp
  from shuffle_ring_completes [OF demo_table fresh this] obtain m s where
    s: "(net_step ^^ m) ?net s" "net_done s" by blast
  have "[0..<length [''a'', ''b'']] = [0, 1]" by (simp add: upt_rec)
  then show ?thesis using shuffle_ring_completes [OF demo_table fresh s(1)] s by fastforce
qed

end
