(* ===== verification/Hole_Deal.thy ===== *)
theory Hole_Deal
  imports Deal
begin

text \<open>
  The hole-card deal of \<^verbatim>\<open>internal/peer/deal.go\<close> run by all nodes at once: the ring of strippers of a
  slot, the files it publishes, and that under every interleaving each owner ends with the two cards
  of their slots.
\<close>

section \<open>The ring of a slot\<close>

lemma ring_pos_nth: "distinct xs \<Longrightarrow> j < length xs \<Longrightarrow> ring_pos xs i (xs ! j) = i + int j"
proof (induction xs arbitrary: i j)
  case (Cons x xs)
  then show ?case by (cases j) auto
qed simp

lemma upt_split: "ow < n \<Longrightarrow> [0..<n] = [0..<ow] @ ow # [Suc ow..<n]"
  using upt_add_eq_append [of 0 ow "n - ow"] by (simp add: upt_conv_Cons)

lemma upt_without: "ow < n \<Longrightarrow> filter (\<lambda>i. i \<noteq> ow) [0..<n] = [0..<ow] @ [Suc ow..<n]"
  by (simp only: upt_split) (simp add: filter_id_conv)

lemma nonOwnerRing_upt:
  assumes "ow < n"
  shows "nonOwnerRing n (int ow) = map int ([0..<ow] @ [Suc ow..<n])"
proof -
  have "nonOwnerRing n (int ow) = map int (filter (\<lambda>i. i \<noteq> ow) [0..<n])"
    by (simp add: nonOwnerRing_def filter_map o_def)
  then show ?thesis by (simp only: upt_without [OF assms])
qed

lemma ring_facts:
  assumes "ow < n"
  shows "length (nonOwnerRing n (int ow)) = n - 1"
    "j < n - 1 \<Longrightarrow> nonOwnerRing n (int ow) ! j = int (if j < ow then j else Suc j)"
    "x < n \<Longrightarrow> x \<noteq> ow \<Longrightarrow> ringPosition (nonOwnerRing n (int ow)) (int x) = int (if x < ow then x else x - 1)"
proof -
  show len: "length (nonOwnerRing n (int ow)) = n - 1" using assms by (simp add: nonOwnerRing_upt)
  show nth: "nonOwnerRing n (int ow) ! j = int (if j < ow then j else Suc j)" if "j < n - 1" for j
    using that assms by (auto simp: nonOwnerRing_upt nth_append)
  assume x: "x < n" "x \<noteq> ow"
  let ?j = "if x < ow then x else x - 1"
  have j: "?j < n - 1" using x assms by auto
  have "nonOwnerRing n (int ow) ! ?j = int x" using nth [OF j] x by auto
  moreover have "distinct (nonOwnerRing n (int ow))" using assms by (auto simp: nonOwnerRing_upt distinct_map)
  ultimately show "ringPosition (nonOwnerRing n (int ow)) (int x) = int ?j"
    using ring_pos_nth [of "nonOwnerRing n (int ow)" ?j 0] j len by (simp add: ringPosition_def)
qed

definition dealt_node :: "string list \<Rightarrow> Key list \<Rightarrow> nat \<Rightarrow> nat list \<Rightarrow> nat \<Rightarrow> Node" where
  "dealt_node ids ks p ms i = (seat_node ids ks p i)
     \<lparr>FinalDeck := map (\<lambda>m. big_bytes (fold (enc p) ks m)) ms\<rparr>"

text \<open>What the shuffle leaves: the plaintext numbers \<open>ms\<close> are the 52 cards in some order.\<close>

definition dealt_table :: "nat \<Rightarrow> string list \<Rightarrow> Key list \<Rightarrow> nat list \<Rightarrow> bool" where
  "dealt_table p ids ks ms \<longleftrightarrow> is_prime p \<and> 13618 < p \<and> distinct ids \<and> 2 \<le> length ids \<and>
     length ks = length ids \<and> (\<forall>k \<in> set ks. key_ok p k) \<and> mset ms = mset card_nums"

definition card_text :: "nat \<Rightarrow> string" where
  "card_text m = string_of_bytes (big_bytes m)"

definition hole_net :: "nat \<Rightarrow> string list \<Rightarrow> Key list \<Rightarrow> nat list \<Rightarrow> world \<Rightarrow> (deal_error, (int \<times> string) option) net" where
  "hole_net p ids ks ms w = (w, concat (map (\<lambda>i. map (Pair (ids ! i)) (DealHoleCards (dealt_node ids ks p ms i)))
     [0..<length ids]))"

text \<open>Seats before \<open>x\<close> in the ring of a slot with owner \<open>ow\<close>.\<close>

fun ring_prev :: "nat \<Rightarrow> nat \<Rightarrow> nat option" where
  "ring_prev ow 0 = None"
| "ring_prev ow (Suc x) = (if x = ow then (case x of 0 \<Rightarrow> None | Suc y \<Rightarrow> Some y) else Some x)"

definition ring_last :: "nat \<Rightarrow> nat \<Rightarrow> nat" where
  "ring_last n ow = (if Suc ow = n then n - 2 else n - 1)"

definition strip_keys :: "Key list \<Rightarrow> nat \<Rightarrow> nat \<Rightarrow> Key list" where
  "strip_keys ks ow x = map ((!) ks) (filter (\<lambda>i. i \<noteq> ow) [0..<Suc x])"

definition hole_relay :: "nat \<Rightarrow> Key list \<Rightarrow> nat list \<Rightarrow> nat \<Rightarrow> nat \<Rightarrow> bytes" where
  "hole_relay p ks ms s x = big_bytes (fold (dec p) (strip_keys ks (s div 2) x) (fold (enc p) ks (ms ! s)))"

definition hole_files :: "nat \<Rightarrow> string list \<Rightarrow> Key list \<Rightarrow> nat list \<Rightarrow> file_list" where
  "hole_files p ids ks ms = map (\<lambda>(s, x). ((ids ! x, HoleRelayKey (int s) (int x)), hole_relay p ks ms s x))
     (filter (\<lambda>(s, x). x \<noteq> s div 2) (List.product [0..<length ids * 2] [0..<length ids]))"

definition hole_events :: "string list \<Rightarrow> nat \<Rightarrow> nat \<Rightarrow> event list" where
  "hole_events ids i s =
     (let poll = (\<lambda>y. Polled (ids ! y) (HoleRelayKey (int s) (int y))) in
      if i = s div 2 then [poll (ring_last (length ids) i)]
      else (case ring_prev (s div 2) i of None \<Rightarrow> [] | Some y \<Rightarrow> [poll y]) @ [Hosted (HoleRelayKey (int s) (int i))])"

definition hole_result :: "nat list \<Rightarrow> nat \<Rightarrow> nat \<Rightarrow> (int \<times> string) option" where
  "hole_result ms i s = (if i = s div 2 then Some (int s, card_text (ms ! s)) else None)"

lemma strip_keys_step:
  assumes "x \<noteq> ow"
  shows "strip_keys ks ow x = (case ring_prev ow x of None \<Rightarrow> [] | Some y \<Rightarrow> strip_keys ks ow y) @ [ks ! x]"
  using assms by (cases x) (auto simp: strip_keys_def split: nat.splits)

lemma ring_prev_lt: "ring_prev ow x = Some y \<Longrightarrow> y < x \<and> y \<noteq> ow"
  by (cases x) (auto split: if_splits nat.splits)

lemma strip_keys_last:
  assumes "ow < n" "2 \<le> n" "length ks = n"
  shows "mset (strip_keys ks ow (ring_last n ow) @ [ks ! ow]) = mset ks"
    "ring_last n ow < n" "ring_last n ow \<noteq> ow"
proof -
  have "filter (\<lambda>i. i \<noteq> ow) [0..<Suc (ring_last n ow)] = [0..<ow] @ [Suc ow..<n]"
  proof (cases "Suc ow = n")
    case True
    then show ?thesis using assms(2) by (auto simp: ring_last_def filter_id_conv Suc_diff_Suc numeral_2_eq_2)
  next
    case False
    then show ?thesis using assms by (simp add: ring_last_def upt_without)
  qed
  then have "mset (strip_keys ks ow (ring_last n ow) @ [ks ! ow]) = image_mset ((!) ks) (mset ([0..<ow] @ ow # [Suc ow..<n]))"
    by (simp add: strip_keys_def)
  also have "[0..<ow] @ ow # [Suc ow..<n] = [0..<n]" by (rule upt_split [OF assms(1), symmetric])
  also have "image_mset ((!) ks) (mset [0..<n]) = mset ks"
    using assms(3) by (metis map_nth mset_map)
  finally show "mset (strip_keys ks ow (ring_last n ow) @ [ks ! ow]) = mset ks" .
qed (use assms in \<open>auto simp: ring_last_def\<close>)

lemma dealt_node_simps [simp]:
  "Order (dealt_node ids ks p ms i) = ids" "SeatIdx (dealt_node ids ks p ms i) = int i"
  "modKey (dealt_node ids ks p ms i) = ks ! i" "prime (dealt_node ids ks p ms i) = p"
  "FinalDeck (dealt_node ids ks p ms i) = map (\<lambda>m. big_bytes (fold (enc p) ks m)) ms"
  "nid (dealt_node ids ks p ms i) = ids ! i" "community (dealt_node ids ks p ms i) = []"
  by (simp_all add: dealt_node_def seat_node_def)

lemma dealt_length: "dealt_table p ids ks ms \<Longrightarrow> length ms = 52"
  by (metis dealt_table_def deck_cards(4) size_mset)

lemma card_small: "dealt_table p ids ks ms \<Longrightarrow> s < 52 \<Longrightarrow> ms ! s < p"
proof -
  assume t: "dealt_table p ids ks ms" and s: "s < 52"
  then have "ms ! s \<in> set card_nums" using dealt_length [OF t] by (metis dealt_table_def nth_mem set_mset_mset)
  then show ?thesis using deck_cards(2) t by (auto simp: dealt_table_def)
qed

lemma hole_strip:
  assumes "x \<noteq> s div 2"
  shows "hole_relay p ks ms s x = DecryptCard
    (case ring_prev (s div 2) x of None \<Rightarrow> big_bytes (fold (enc p) ks (ms ! s)) | Some y \<Rightarrow> hole_relay p ks ms s y) (ks ! x) p"
  by (simp add: hole_relay_def strip_keys_step [OF assms] DecryptCard_dec split: option.splits)

lemma all_layers_off:
  assumes t: "dealt_table p ids ks ms" and ks': "mset ks' = mset ks" and s: "s < 52"
  shows "fold (dec p) ks' (fold (enc p) ks (ms ! s)) = ms ! s"
proof -
  have "is_prime p" "2 < p" "\<forall>k \<in> set ks. key_ok p k" "ks \<noteq> []" using t by (auto simp: dealt_table_def)
  moreover from this ks' have "ks' \<noteq> []" by auto
  ultimately show ?thesis
    using decrypt_all [OF _ _ ks', of p "ms ! s"] fold_dec_less [of p ks'] card_small [OF t s] by simp
qed

lemma hole_open:
  assumes t: "dealt_table p ids ks ms" and s: "s < 52" and ow: "s div 2 < length ids"
  shows "DecryptCard (hole_relay p ks ms s (ring_last (length ids) (s div 2))) (ks ! (s div 2)) p = big_bytes (ms ! s)"
proof -
  let ?x = "ring_last (length ids) (s div 2)"
  have "mset (strip_keys ks (s div 2) ?x @ [ks ! (s div 2)]) = mset ks"
    using strip_keys_last(1) [OF ow, of ks] t by (simp add: dealt_table_def)
  from all_layers_off [OF t this s] show ?thesis by (simp add: hole_relay_def DecryptCard_dec)
qed

lemma ring_prev_pos:
  assumes "ow < n" "x < n" "x \<noteq> ow"
  defines "j \<equiv> if x < ow then x else x - 1"
  shows "ring_prev ow x = None \<longleftrightarrow> j = 0"
    "ring_prev ow x = Some y \<Longrightarrow> 0 < j \<and> nonOwnerRing n (int ow) ! (j - 1) = int y"
proof -
  show "ring_prev ow x = None \<longleftrightarrow> j = 0" using assms by (cases x) (auto split: nat.splits)
  assume y: "ring_prev ow x = Some y"
  then have "0 < j" "j - 1 < n - 1" "y = (if j - 1 < ow then j - 1 else j)"
    using assms by (cases x; auto split: if_splits nat.splits)+
  then show "0 < j \<and> nonOwnerRing n (int ow) ! (j - 1) = int y" using ring_facts(2) [OF assms(1), of "j - 1"] by auto
qed

lemma hole_trace:
  assumes t: "dealt_table p ids ks ms" and i: "i < length ids" and s: "s < length ids * 2" "s < 52"
    and E: "\<And>x. x < length ids \<Longrightarrow> x \<noteq> s div 2 \<Longrightarrow>
        E (ids ! x) (HoleRelayKey (int s) (int x)) = Some (hole_relay p ks ms s x)"
  shows "trace E (ids ! i) (dealHoleSlot (dealt_node ids ks p ms i) (int s)) {} =
    Some (hole_events ids i s, Inr (hole_result ms i s))"
proof -
  let ?n = "length ids" and ?ow = "s div 2"
  let ?ring = "nonOwnerRing ?n (int ?ow)"
  have ow: "?ow < ?n" using s(1) by simp
  have n: "2 \<le> ?n" using t by (simp add: dealt_table_def)
  have owi: "int s div 2 = int ?ow" by simp
  have len: "length ?ring = ?n - 1" by (rule ring_facts(1) [OF ow])
  have deck: "length (FinalDeck (dealt_node ids ks p ms i)) = 52" using dealt_length [OF t] by simp
  have ne: "length ?ring \<noteq> 0" using len n by simp
  note start = dealHoleSlot_def [of "dealt_node ids ks p ms i" "int s", unfolded owi, simplified Let_def deck]
  show ?thesis
  proof (cases "i = ?ow")
    case True
    let ?x = "ring_last ?n ?ow"
    have x: "?x < ?n" "?x \<noteq> ?ow" using strip_keys_last(2, 3) [OF ow n] t by (auto simp: dealt_table_def)
    have "?n - 2 < ?n - 1" "(if ?n - 2 < ?ow then ?n - 2 else Suc (?n - 2)) = ?x"
      using ow n by (auto simp: ring_last_def)
    then have "?ring ! (?n - 2) = int ?x" using ring_facts(2) [OF ow, of "?n - 2"] by simp
    moreover have "length ?ring - 1 = ?n - 2" using len by simp
    ultimately have "?ring ! (length ?ring - 1) = int ?x" by (simp only:)
    then have "dealHoleSlot (dealt_node ids ks p ms i) (int s) =
        Poll (PollHoleRelay (int s)) (ids ! ?x) (HoleRelayKey (int s) (int ?x))
          (\<lambda>data. Return (Some (int s, string_of_bytes (DecryptCard data (ks ! ?ow) p))))"
      unfolding start using s ow ne x(1) True by (simp add: index_or_panic_def)
    then show ?thesis
      using E [OF x] hole_open [OF t s(2) ow] True by (simp add: hole_events_def hole_result_def card_text_def)
  next
    case False
    let ?j = "if i < ?ow then i else i - 1"
    let ?strip = "\<lambda>layered. Host (HoleRelayKey (int s) (int i)) (DecryptCard layered (ks ! i) p) (Return None)"
    have pos: "ringPosition ?ring (int i) = int ?j" by (rule ring_facts(3) [OF ow i False])
    have prog: "dealHoleSlot (dealt_node ids ks p ms i) (int s) =
        (if ?j = 0 then index_or_panic (FinalDeck (dealt_node ids ks p ms i)) (int s) ?strip
         else index_or_panic ?ring (int ?j - 1) (\<lambda>prevSeat. index_or_panic ids prevSeat (\<lambda>prevID.
           Poll (PollStripper (int s) prevSeat) prevID (HoleRelayKey (int s) prevSeat) ?strip)))"
      using s ow ne False pos by (simp add: start)
    show ?thesis
    proof (cases "ring_prev ?ow i")
      case None
      then have "?j = 0" using ring_prev_pos(1) [OF ow i False] by simp
      then have "dealHoleSlot (dealt_node ids ks p ms i) (int s) = ?strip (big_bytes (fold (enc p) ks (ms ! s)))"
        unfolding prog using s(2) dealt_length [OF t] by (simp add: index_or_panic_def)
      then show ?thesis
        using E [OF i False] hole_strip [OF False, of p ks ms] None False
        by (simp add: hole_events_def hole_result_def)
    next
      case (Some y)
      have y: "y < ?n" "y \<noteq> ?ow" using ring_prev_lt [OF Some] i by auto
      have j: "0 < ?j" "?ring ! (?j - 1) = int y" using ring_prev_pos(2) [OF ow i False Some] by auto
      have jl: "?j - 1 < length ?ring" using i False ow len by auto
      have ji: "int ?j - 1 = int (?j - 1)" using j(1) by auto
      have "index_or_panic ?ring (int ?j - 1) f = f (int y)" for f :: "int \<Rightarrow> (deal_error, (int \<times> string) option) prog"
        unfolding ji index_or_panic_def at_nth [OF jl] j(2) by simp
      then have "dealHoleSlot (dealt_node ids ks p ms i) (int s) = Poll (PollStripper (int s) (int y)) (ids ! y) (HoleRelayKey (int s) (int y)) ?strip"
        unfolding prog using j(1) y(1) by (simp add: index_or_panic_def)
      then show ?thesis
        using E [OF i False] E [OF y] hole_strip [OF False, of p ks ms] Some False
        by (simp add: hole_events_def hole_result_def)
    qed
  qed
qed

lemma hole_slots: "hole_net p ids ks ms w = (w, map (\<lambda>x. (ids ! fst x, dealHoleSlot (dealt_node ids ks p ms (fst x)) (int (snd x))))
    (List.product [0..<length ids] [0..<length ids * 2]))"
  by (simp add: hole_net_def DealHoleCards_def product_concat_map map_concat o_def)

lemma hole_network:
  assumes t: "dealt_table p ids ks ms" and n: "length ids * 2 \<le> 52"
    and fresh: "\<forall>x < length ids. \<forall>s < length ids * 2. w (ids ! x) (HoleRelayKey (int s) (int x)) = None"
  defines "fs \<equiv> hole_files p ids ks ms"
  defines "ts \<equiv> map (\<lambda>x. (hole_events ids (fst x) (snd x), Inr (hole_result ms (fst x) (snd x))))
    (List.product [0..<length ids] [0..<length ids * 2])"
  shows "consistent (with_files fs w) (hole_net p ids ks ms w) ts"
    "productive (seat_rank ids) (hole_net p ids ks ms w) ts"
proof -
  let ?n = "length ids"
  have ids: "distinct ids" using t by (simp add: dealt_table_def)
  have fs: "((t, k), v) \<in> set fs \<longleftrightarrow> (\<exists>s < ?n * 2. \<exists>x < ?n. x \<noteq> s div 2 \<and> t = ids ! x \<and>
      k = HoleRelayKey (int s) (int x) \<and> v = hole_relay p ks ms s x)" for t k v
    by (auto simp: fs_def hole_files_def)
  have dist: "distinct (map fst fs)"
    by (auto simp: fs_def hole_files_def distinct_map inj_on_def distinct_product)
  have fr: "fresh_for fs w" using fresh fs by (auto simp: fresh_for_def)
  have traces: "\<exists>H \<subseteq> dom (w (ids ! fst x)). trace (with_files fs w) (ids ! fst x)
      (dealHoleSlot (dealt_node ids ks p ms (fst x)) (int (snd x))) H =
      Some (hole_events ids (fst x) (snd x), Inr (hole_result ms (fst x) (snd x)))"
    if "x \<in> set (List.product [0..<?n] [0..<?n * 2])" for x
  proof -
    have x: "fst x < ?n" "snd x < ?n * 2" "snd x < 52" using that n by auto
    have "with_files fs w (ids ! y) (HoleRelayKey (int (snd x)) (int y)) = Some (hole_relay p ks ms (snd x) y)"
      if "y < ?n" "y \<noteq> snd x div 2" for y
      by (rule with_files_mem [OF dist]) (use that x fs in blast)
    from hole_trace [OF t x this] show ?thesis by (intro exI [of _ "{}"]) simp
  qed
  have polls: "(t, k) \<in> fst ` set fs" if "i < ?n" "s < ?n * 2" "Polled t k \<in> set (hole_events ids i s)" for i s t k
  proof -
    have ow: "s div 2 < ?n" using that(2) by simp
    have last: "ring_last ?n (s div 2) < ?n" "ring_last ?n (s div 2) \<noteq> s div 2"
      using strip_keys_last(2, 3) [OF ow, of ks] t by (simp_all add: dealt_table_def)
    have "\<exists>y. (y = ring_last ?n (s div 2) \<or> ring_prev (s div 2) i = Some y) \<and> t = ids ! y \<and>
        k = HoleRelayKey (int s) (int y)"
      using that(3) by (cases "i = s div 2"; cases "ring_prev (s div 2) i"; simp add: hole_events_def; blast)
    then obtain y where y: "y = ring_last ?n (s div 2) \<or> ring_prev (s div 2) i = Some y" "t = ids ! y"
      "k = HoleRelayKey (int s) (int y)" by blast
    have "y < ?n \<and> y \<noteq> s div 2" using y(1)
    proof
      assume "ring_prev (s div 2) i = Some y"
      from ring_prev_lt [OF this] that(1) show ?thesis by simp
    qed (use last in simp)
    with y(2, 3) that(2) have "((t, k), hole_relay p ks ms s y) \<in> set fs" unfolding fs by blast
    then show ?thesis by force
  qed
  have polls': "w t k \<noteq> None \<or> (t, k) \<in> fst ` set fs"
    if "x \<in> set (List.product [0..<?n] [0..<?n * 2])"
      "Polled t k \<in> set (fst (hole_events ids (fst x) (snd x), Inr (hole_result ms (fst x) (snd x)) :: deal_error + (int \<times> string) option))" for x t k
    using polls [of "fst x" "snd x" t k] that by auto
  have hosts: "\<exists>x \<in> set (List.product [0..<?n] [0..<?n * 2]). ids ! fst x = t \<and>
      (\<exists>ys zs. hole_events ids (fst x) (snd x) = ys @ Hosted k # zs \<and>
        (\<forall>t' k'. Polled t' k' \<in> set ys \<longrightarrow> seat_rank ids t' k' < seat_rank ids t k))"
    if mem: "((t, k), v) \<in> set fs" for t k v
  proof -
    obtain s x where x: "s < ?n * 2" "x < ?n" "x \<noteq> s div 2" "t = ids ! x" "k = HoleRelayKey (int s) (int x)"
      using mem fs by blast
    have low: "seat_rank ids (ids ! y) k' < seat_rank ids t k" if "ring_prev (s div 2) x = Some y" for y k'
      using ring_prev_lt [OF that] x(2, 4) by (simp add: seat_rank_nth [OF ids])
    obtain ys zs where "hole_events ids x s = ys @ Hosted k # zs \<and>
        (\<forall>t' k'. Polled t' k' \<in> set ys \<longrightarrow> (\<exists>y. ring_prev (s div 2) x = Some y \<and> t' = ids ! y))"
      using x(3, 5) by - (rule that [of "case ring_prev (s div 2) x of None \<Rightarrow> []
          | Some y \<Rightarrow> [Polled (ids ! y) (HoleRelayKey (int s) (int y))]" "[]"],
        cases "ring_prev (s div 2) x", simp_all add: hole_events_def)
    then have "hole_events ids x s = ys @ Hosted k # zs \<and>
        (\<forall>t' k'. Polled t' k' \<in> set ys \<longrightarrow> seat_rank ids t' k' < seat_rank ids t k)" using low by auto
    then show ?thesis using x(1, 2, 4) by (intro bexI [of _ "(x, s)"]) auto
  qed
  show "consistent (with_files fs w) (hole_net p ids ks ms w) ts"
    "productive (seat_rank ids) (hole_net p ids ks ms w) ts"
    unfolding hole_slots ts_def
    by (rule network_of_files [OF fr], erule traces, erule (1) polls', simp only: fst_conv, erule hosts)+
qed

lemma card_texts:
  assumes "dealt_table p ids ks ms"
  shows "mset (map card_text ms) = mset (map (\<lambda>i. itoa (i + 1)) [0..<52])" "distinct (map card_text ms)"
proof -
  have "map card_text card_nums = map (\<lambda>i. itoa (i + 1)) [0..<52]"
    by (simp add: card_nums_def buildOrderedDeck_def card_text_def itoa_bytes_canonical)
  then show eq: "mset (map card_text ms) = mset (map (\<lambda>i. itoa (i + 1)) [0..<52])"
    using assms by (metis dealt_table_def mset_map)
  have "distinct (map (\<lambda>i. itoa (i + 1)) [0..<52])" by (simp add: distinct_map inj_on_def)
  then show "distinct (map card_text ms)" using eq by (metis mset_eq_imp_distinct_iff)
qed

text \<open>A node's goroutines at the end write its two cards.\<close>

definition with_hole :: "nat list \<Rightarrow> nat \<Rightarrow> Node \<Rightarrow> Node" where
  "with_hole ms i n = n\<lparr>card1 := card_text (ms ! (2 * i)), card2 := card_text (ms ! (2 * i + 1))\<rparr>"

lemma deal_outcome_append: "deal_outcome (ps @ qs) n = deal_outcome qs (deal_outcome ps n)"
  by (induction ps n rule: deal_outcome.induct) auto

lemma deal_outcome_none:
  "\<forall>s \<in> set ss. s div 2 \<noteq> i \<Longrightarrow> deal_outcome (map (\<lambda>s. Return (hole_result ms i s)) ss) n = n"
  by (induction ss) (auto simp: hole_result_def)

lemma outcome_of_slots:
  assumes "i < n"
  shows "deal_outcome (map (\<lambda>s. Return (hole_result ms i s)) [0..<n * 2]) nd = with_hole ms i nd"
proof -
  let ?f = "\<lambda>s. Return (hole_result ms i s) :: (deal_error, (int \<times> string) option) prog"
  have "[0..<n * 2] = [0..<2 * i] @ [2 * i, 2 * i + 1] @ [2 * i + 2..<n * 2]"
    using assms upt_split [of "2 * i" "n * 2"] by (simp add: upt_conv_Cons)
  moreover have "deal_outcome (map ?f [0..<2 * i]) m = m" "deal_outcome (map ?f [2 * i + 2..<n * 2]) m = m" for m
    by (rule deal_outcome_none, auto)+
  moreover have "deal_outcome (map ?f [2 * i, 2 * i + 1]) nd = with_hole ms i nd"
    by (simp add: hole_result_def setHole_def with_hole_def)
  ultimately show ?thesis by (simp only: map_append deal_outcome_append)
qed

lemma filter_product_fst:
  assumes "distinct xs" "x \<in> set xs"
  shows "filter (\<lambda>y. fst y = x) (List.product xs ys) = map (Pair x) ys"
  using assms
proof (induction xs)
  case (Cons a xs)
  have "filter (\<lambda>y. fst y = x) (List.product xs ys) = []" if "x \<notin> set xs"
    using that by (auto simp: filter_empty_conv)
  moreover have "filter (\<lambda>y. fst y = x) (map (Pair a) ys) = (if a = x then map (Pair x) ys else [])"
    by (induction ys) auto
  ultimately show ?case using Cons by auto
qed simp

lemma hole_end:
  assumes t: "dealt_table p ids ks ms" and n: "length ids * 2 \<le> 52"
    and fresh: "\<forall>x < length ids. \<forall>s < length ids * 2. w (ids ! x) (HoleRelayKey (int s) (int x)) = None"
    and run: "(net_step ^^ m) (hole_net p ids ks ms w) s" and fin: "net_done s" and i: "i < length ids"
  shows "deal_outcome (map snd (filter (\<lambda>x. fst x = ids ! i) (snd s))) nd = with_hole ms i nd"
proof -
  let ?ps = "List.product [0..<length ids] [0..<length ids * 2]"
  let ?fin = "\<lambda>x. Return (hole_result ms (fst x) (snd x)) :: (deal_error, (int \<times> string) option) prog"
  note net = hole_network [OF t n fresh]
  have ids: "distinct ids" using t by (simp add: dealt_table_def)
  have res: "map snd (snd s) = map ?fin ?ps" using net_completes(3) [OF net run fin] by (simp add: o_def)
  have "map fst (snd s) = map fst (snd (hole_net p ids ks ms w))"
    using net_run [OF net(1) run, of "\<lambda>_ _. 0"] by blast
  then have who: "map fst (snd s) = map (\<lambda>x. ids ! fst x) ?ps" by (simp add: hole_slots o_def)
  have "snd s = zip (map fst (snd s)) (map snd (snd s))" by (rule zip_map_fst_snd [symmetric])
  also have "\<dots> = map (\<lambda>x. (ids ! fst x, ?fin x)) ?ps"
    unfolding res who by (simp add: zip_map_map zip_same_conv_map)
  finally have "snd s = map (\<lambda>x. (ids ! fst x, ?fin x)) ?ps" .
  then have "map snd (filter (\<lambda>x. fst x = ids ! i) (snd s)) = map ?fin (filter (\<lambda>x. ids ! fst x = ids ! i) ?ps)"
    by (simp add: filter_map o_def)
  also have "filter (\<lambda>x. ids ! fst x = ids ! i) ?ps = filter (\<lambda>x. fst x = i) ?ps"
    using i ids by (intro filter_cong) (auto simp: nth_eq_iff_index_eq)
  also have "\<dots> = map (Pair i) [0..<length ids * 2]" using i by (intro filter_product_fst) auto
  finally have "map snd (filter (\<lambda>x. fst x = ids ! i) (snd s)) = map (\<lambda>s. Return (hole_result ms i s)) [0..<length ids * 2]"
    by (simp add: o_def)
  then show ?thesis using outcome_of_slots [OF i] by (simp only:)
qed

text \<open>
  C19. The hole-card deal runs through under any interleaving of the \<open>2N\<^sup>2\<close> goroutines: no run is
  longer than \<open>4N\<^sup>2\<close> steps, every run can be continued to one where all have returned without
  error, and then each seat has exactly the two cards of its own slots; the 52 card texts are the
  52 deck strings, so no card is dealt twice.
\<close>

theorem hole_deal_completes:
  assumes "dealt_table p ids ks ms" "length ids * 2 \<le> 52"
    "\<forall>x < length ids. \<forall>s < length ids * 2. w (ids ! x) (HoleRelayKey (int s) (int x)) = None"
    "(net_step ^^ n) (hole_net p ids ks ms w) s"
  shows "n \<le> 4 * (length ids * length ids) \<and> (\<exists>m s'. (net_step ^^ m) s s' \<and> net_done s') \<and>
    (net_done s \<longrightarrow> (\<forall>x \<in> set (snd s). \<exists>r. snd x = Return r) \<and>
      (\<forall>i < length ids. let node = dealt_node ids ks p ms i;
          node' = deal_outcome (map snd (filter (\<lambda>x. fst x = ids ! i) (snd s))) node in
        HoleCards node' = (card_text (ms ! (2 * i)), card_text (ms ! (2 * i + 1))) \<and>
        node'\<lparr>card1 := [], card2 := []\<rparr> = node)) \<and>
    mset (map card_text ms) = mset (map (\<lambda>i. itoa (i + 1)) [0..<52])"
proof -
  let ?ts = "map (\<lambda>x. (hole_events ids (fst x) (snd x), Inr (hole_result ms (fst x) (snd x)) ::
      deal_error + (int \<times> string) option)) (List.product [0..<length ids] [0..<length ids * 2])"
  note net = hole_network [OF assms(1-3)]
  have "length (hole_events ids i sl) \<le> 2" for i sl by (simp add: hole_events_def split: option.splits)
  then have "ahead ?ts \<le> 2 * length ?ts" by (intro ahead_le) auto
  then have "n \<le> 4 * (length ids * length ids)" using net_completes(1) [OF net assms(4)] by simp
  moreover have "\<exists>m s'. (net_step ^^ m) s s' \<and> net_done s'" by (rule net_run_finishes [OF net(1) assms(4)])
  moreover have "\<exists>r. snd x = Return r" if "net_done s" "x \<in> set (snd s)" for x
  proof -
    have "snd x \<in> set (map snd (snd s))" using that(2) by simp
    then show ?thesis unfolding net_completes(3) [OF net assms(4) that(1)] by auto
  qed
  moreover have "let node = dealt_node ids ks p ms i;
          node' = deal_outcome (map snd (filter (\<lambda>x. fst x = ids ! i) (snd s))) node in
        HoleCards node' = (card_text (ms ! (2 * i)), card_text (ms ! (2 * i + 1))) \<and>
        node'\<lparr>card1 := [], card2 := []\<rparr> = node" if "net_done s" "i < length ids" for i
    using hole_end [OF assms that]
    by (simp add: with_hole_def HoleCards_def dealt_node_def seat_node_def)
  ultimately show ?thesis using card_texts(1) [OF assms(1)] by blast
qed

lemma demo_dealt: "dealt_table PRIME [''a'', ''b''] demo_keys card_nums"
  using demo_table by (simp add: good_table_def dealt_table_def)

theorem hole_deal_completes_witness:
  "\<exists>n s. (net_step ^^ n) (hole_net PRIME [''a'', ''b''] demo_keys card_nums (\<lambda>_. New)) s \<and> n \<le> 16 \<and>
     HoleCards (deal_outcome (map snd (filter (\<lambda>x. fst x = ''b'') (snd s)))
       (dealt_node [''a'', ''b''] demo_keys PRIME card_nums 1)) =
     (card_text (card_nums ! 2), card_text (card_nums ! 3))"
proof -
  let ?net = "hole_net PRIME [''a'', ''b''] demo_keys card_nums (\<lambda>_. New)" and ?ids = "[''a'', ''b'']"
  have fresh: "\<forall>x < length ?ids. \<forall>s < length ?ids * 2. New (HoleRelayKey (int s) (int x)) = None"
    by (simp add: New_def)
  have n: "length ?ids * 2 \<le> 52" by simp
  have "(net_step ^^ 0) ?net ?net" by simp
  from hole_deal_completes [OF demo_dealt n fresh this] obtain m s where
    s: "(net_step ^^ m) ?net s" "net_done s" by blast
  note r = hole_deal_completes [OF demo_dealt n fresh s(1)]
  then have "m \<le> 16" by simp
  moreover from r s(2) have "HoleCards (deal_outcome (map snd (filter (\<lambda>x. fst x = ?ids ! 1) (snd s)))
       (dealt_node ?ids demo_keys PRIME card_nums 1)) =
     (card_text (card_nums ! (2 * 1)), card_text (card_nums ! (2 * 1 + 1)))"
    unfolding Let_def by (metis One_nat_def length_Cons lessI list.size(3))
  ultimately show ?thesis using s(1) by (intro exI [of _ m] exI [of _ s]) (simp add: numeral_3_eq_3 numeral_2_eq_2)
qed

end
