(* ===== verification/Board_Reveal.thy ===== *)
theory Board_Reveal
  imports Hole_Deal
begin

text \<open>
  The community reveals of \<^verbatim>\<open>internal/peer/community.go\<close> run by all nodes at once: programs in
  sequence, the files of a reveal in the order they appear, and that every node ends with the same
  board.
\<close>

section \<open>Revealing cards\<close>

text \<open>Seat \<open>i\<close>'s node with board \<open>cs\<close>.\<close>

definition board_node :: "nat \<Rightarrow> string list \<Rightarrow> Key list \<Rightarrow> nat list \<Rightarrow> string list \<Rightarrow> nat \<Rightarrow> Node \<Rightarrow> bool" where
  "board_node p ids ks ms cs i nd \<longleftrightarrow> Order nd = ids \<and> SeatIdx nd = int i \<and> modKey nd = ks ! i \<and> prime nd = p \<and>
     FinalDeck nd = map (\<lambda>m. big_bytes (fold (enc p) ks m)) ms \<and> community nd = cs"

definition board_relay :: "nat \<Rightarrow> Key list \<Rightarrow> nat list \<Rightarrow> nat \<Rightarrow> nat \<Rightarrow> bytes" where
  "board_relay p ks ms c x = big_bytes (fold (dec p) (take (Suc x) ks) (fold (enc p) ks (ms ! c)))"

text \<open>Files \<open>m\<close> of a reveal from card \<open>c0\<close> on: for each card the relays of the seats, then the plaintext.\<close>

definition board_file :: "nat \<Rightarrow> string list \<Rightarrow> Key list \<Rightarrow> nat list \<Rightarrow> nat \<Rightarrow> nat \<Rightarrow> (string \<times> string) \<times> bytes" where
  "board_file p ids ks ms c x = (if x < length ids then ((ids ! x, CommunityRelayKey (int c) (int x)), board_relay p ks ms c x)
     else ((ids ! (length ids - 1), CommunityCardKey (int c)), big_bytes (ms ! c)))"

definition board_files :: "nat \<Rightarrow> string list \<Rightarrow> Key list \<Rightarrow> nat list \<Rightarrow> nat \<Rightarrow> nat \<Rightarrow> file_list" where
  "board_files p ids ks ms c0 k = map (\<lambda>m. board_file p ids ks ms (c0 + m div Suc (length ids)) (m mod Suc (length ids)))
     [0..<k * Suc (length ids)]"

definition board_events :: "string list \<Rightarrow> nat \<Rightarrow> nat \<Rightarrow> event list" where
  "board_events ids i c =
     (if i = 0 then [] else [Polled (ids ! (i - 1)) (CommunityRelayKey (int c) (int (i - 1)))]) @
     [Hosted (CommunityRelayKey (int c) (int i)),
      if Suc i = length ids then Hosted (CommunityCardKey (int c))
      else Polled (ids ! (length ids - 1)) (CommunityCardKey (int c))]"

lemma board_strip: "x < length ks \<Longrightarrow> DecryptCard (if x = 0 then big_bytes (fold (enc p) ks (ms ! c)) else board_relay p ks ms c (x - 1))
    (ks ! x) p = board_relay p ks ms c x"
  by (cases x) (simp_all add: board_relay_def DecryptCard_dec take_Suc_conv_app_nth)

lemma board_open:
  assumes "dealt_table p ids ks ms" "c < 52"
  shows "board_relay p ks ms c (length ids - 1) = big_bytes (ms ! c)"
proof -
  have "Suc (length ids - 1) = length ks" using assms(1) by (auto simp: dealt_table_def)
  then show ?thesis using all_layers_off [OF assms(1) refl assms(2)] by (simp add: board_relay_def)
qed

lemma setCommunity_next:
  assumes "length (community nd) = b"
  shows "setCommunity (communityBase nd + int b) s nd = Some (nd\<lparr>community := community nd @ [s]\<rparr>)"
  using assms by (simp add: setCommunity_def nat_add_distrib list_update_append nth_append)

lemma reveal_trace:
  assumes t: "dealt_table p ids ks ms" and i: "i < length ids" and nd: "board_node p ids ks ms cs i nd"
    and c: "c = length ids * 2 + length cs" "c < 52"
    and E: "\<And>x. x < length ids \<Longrightarrow> E (ids ! x) (CommunityRelayKey (int c) (int x)) = Some (board_relay p ks ms c x)"
      "E (ids ! (length ids - 1)) (CommunityCardKey (int c)) = Some (big_bytes (ms ! c))"
  shows "trace E (ids ! i) (RevealCommunityCard (int c) nd) {} =
    Some (board_events ids i c, Inr (nd\<lparr>community := cs @ [card_text (ms ! c)]\<rparr>))"
proof -
  let ?n = "length ids"
  have fields: "Order nd = ids" "SeatIdx nd = int i" "modKey nd = ks ! i" "prime nd = p"
    and deck: "FinalDeck nd = map (\<lambda>m. big_bytes (fold (enc p) ks m)) ms" and cs: "community nd = cs"
    using nd by (auto simp: board_node_def)
  have len: "length (FinalDeck nd) = 52" "length ks = ?n" using deck dealt_length [OF t] t by (simp_all add: dealt_table_def)
  have last: "int ?n - 1 = int (?n - 1)" "?n - 1 < ?n" using i by auto
  have set: "set_community (int c) s nd = Return (nd\<lparr>community := cs @ [s]\<rparr>)" for s
    using setCommunity_next [of nd "length cs"] fields cs c(1) by (simp add: set_community_def communityBase_def)
  have strip: "DecryptCard (if i = 0 then big_bytes (fold (enc p) ks (ms ! c)) else board_relay p ks ms c (i - 1)) (ks ! i) p
      = board_relay p ks ms c i" using board_strip i len(2) by metis
  have final: "board_relay p ks ms c i = big_bytes (ms ! c)" if "Suc i = ?n"
    using board_open [OF t c(2)] that by (metis diff_Suc_1)
  let ?K = "\<lambda>stripped. Host (CommunityRelayKey (int c) (int i)) stripped
      (if int i = int ?n - 1 then Host (CommunityCardKey (int c)) stripped
         (set_community (int c) (string_of_bytes stripped) nd)
       else index_or_panic ids (int ?n - 1) (\<lambda>lastID. Poll (PollCommunityCard (int c)) lastID (CommunityCardKey (int c))
         (\<lambda>plaintext. set_community (int c) (string_of_bytes plaintext) nd)))"
  have tail: "trace E (ids ! i) (?K (board_relay p ks ms c i)) {} =
      Some ([Hosted (CommunityRelayKey (int c) (int i)), if Suc i = ?n then Hosted (CommunityCardKey (int c))
         else Polled (ids ! (?n - 1)) (CommunityCardKey (int c))], Inr (nd\<lparr>community := cs @ [card_text (ms ! c)]\<rparr>))"
  proof (cases "Suc i = ?n")
    case True
    then have "int i = int ?n - 1" "i = ?n - 1" by auto
    then show ?thesis using E(1) [OF i] E(2) final [OF True] True set by (simp add: card_text_def)
  next
    case False
    then have "int i \<noteq> int ?n - 1" by auto
    then show ?thesis using E(1) [OF i] E(2) False set at_nth [OF last(2)] unfolding last(1)
      by (simp add: index_or_panic_def card_text_def)
  qed
  have prog: "RevealCommunityCard (int c) nd =
      (if int i = 0 then index_or_panic (FinalDeck nd) (int c) (\<lambda>layered. ?K (DecryptCard layered (ks ! i) p))
       else index_or_panic ids (int i - 1) (\<lambda>prevID. Poll (PollCommunityRelay (int c) (int i - 1)) prevID (CommunityRelayKey (int c) (int i - 1))
         (\<lambda>layered. ?K (DecryptCard layered (ks ! i) p))))"
    unfolding RevealCommunityCard_def Let_def fields using len(1) c(2) by simp
  show ?thesis
  proof (cases "i = 0")
    case True
    have "at (FinalDeck nd) (int c) = Some (big_bytes (fold (enc p) ks (ms ! c)))"
      using c(2) dealt_length [OF t] deck by simp
    then have "RevealCommunityCard (int c) nd = ?K (board_relay p ks ms c i)"
      unfolding prog using strip True by (simp add: index_or_panic_def)
    then show ?thesis using tail True by (simp add: board_events_def)
  next
    case False
    then have prev: "int i - 1 = int (i - 1)" "i - 1 < ?n" using i by auto
    have "at ids (int i - 1) = Some (ids ! (i - 1))" unfolding prev(1) by (rule at_nth [OF prev(2)])
    then have "RevealCommunityCard (int c) nd = Poll (PollCommunityRelay (int c) (int i - 1)) (ids ! (i - 1)) (CommunityRelayKey (int c) (int i - 1))
         (\<lambda>layered. ?K (DecryptCard layered (ks ! i) p))"
      unfolding prog index_or_panic_def using False by simp
    then have "RevealCommunityCard (int c) nd = Poll (PollCommunityRelay (int c) (int (i - 1))) (ids ! (i - 1)) (CommunityRelayKey (int c) (int (i - 1)))
         (\<lambda>layered. ?K (DecryptCard layered (ks ! i) p))" unfolding prev(1) .
    then have "trace E (ids ! i) (RevealCommunityCard (int c) nd) {} =
        map_option (apfst (Cons (Polled (ids ! (i - 1)) (CommunityRelayKey (int c) (int (i - 1))))))
          (trace E (ids ! i) (?K (DecryptCard (board_relay p ks ms c (i - 1)) (ks ! i) p)) {})"
      by (simp only: trace_Poll E(1) [OF prev(2)] option.case)
    moreover have "DecryptCard (board_relay p ks ms c (i - 1)) (ks ! i) p = board_relay p ks ms c i"
      using strip False by simp
    ultimately show ?thesis by (simp only: tail) (use False in \<open>simp add: board_events_def\<close>)
  qed
qed

lemma reveal_all_trace:
  assumes t: "dealt_table p ids ks ms" and i: "i < length ids"
    and E: "\<And>c x. c0 \<le> c \<Longrightarrow> c < c0 + k \<Longrightarrow> x < length ids \<Longrightarrow>
        E (ids ! x) (CommunityRelayKey (int c) (int x)) = Some (board_relay p ks ms c x)"
      "\<And>c. c0 \<le> c \<Longrightarrow> c < c0 + k \<Longrightarrow> E (ids ! (length ids - 1)) (CommunityCardKey (int c)) = Some (big_bytes (ms ! c))"
    and c0: "c0 + k \<le> 52"
  shows "board_node p ids ks ms cs i nd \<Longrightarrow> c0 \<le> c \<Longrightarrow> c = length ids * 2 + length cs \<Longrightarrow> c + j = c0 + k \<Longrightarrow>
    trace E (ids ! i) (reveal_all (map int [c..<c + j]) nd) {} =
    Some (concat (map (board_events ids i) [c..<c + j]),
      Inr (nd\<lparr>community := cs @ map (\<lambda>c. card_text (ms ! c)) [c..<c + j]\<rparr>))"
proof (induction j arbitrary: c cs nd)
  case 0
  then show ?case by (simp add: board_node_def)
next
  case (Suc j)
  let ?nd = "nd\<lparr>community := cs @ [card_text (ms ! c)]\<rparr>"
  have c: "c < c0 + k" "c < 52" using Suc.prems(4) c0 by auto
  have first: "trace E (ids ! i) (RevealCommunityCard (int c) nd) {} = Some (board_events ids i c, Inr ?nd)"
    by (rule reveal_trace [OF t i Suc.prems(1, 3) c(2) E(1) [OF Suc.prems(2) c(1)] E(2) [OF Suc.prems(2) c(1)]])
  have nd: "board_node p ids ks ms (cs @ [card_text (ms ! c)]) i ?nd" using Suc.prems(1) by (simp add: board_node_def)
  have len: "c0 \<le> Suc c" "Suc c = length ids * 2 + length (cs @ [card_text (ms ! c)])" "Suc c + j = c0 + k"
    using Suc.prems by simp_all
  have upt: "[c..<c + Suc j] = c # [Suc c..<Suc c + j]" by (simp add: upt_conv_Cons)
  show ?case unfolding upt using trace_bindp [where g = "reveal_all (map int [Suc c..<Suc c + j])", OF first Suc.IH [OF nd len]] by simp
qed

lemma board_files_nth:
  assumes "c0 \<le> c" "c < c0 + k" "x \<le> length ids"
  defines "m \<equiv> (c - c0) * Suc (length ids) + x"
  shows "m < length (board_files p ids ks ms c0 k)" "board_files p ids ks ms c0 k ! m = board_file p ids ks ms c x"
proof -
  let ?d = "Suc (length ids)"
  have m: "m div ?d = c - c0" "m mod ?d = x"
    using assms(3) div_mult_self3 [of ?d "c - c0" x] mod_mult_self3 [of "c - c0" ?d x] unfolding m_def by simp_all
  have "m < Suc (c - c0) * ?d" using assms(3) by (simp add: m_def)
  also have "\<dots> \<le> k * ?d" using assms(1, 2) by (intro mult_le_mono1) simp
  finally show lt: "m < length (board_files p ids ks ms c0 k)" by (simp add: board_files_def)
  then show "board_files p ids ks ms c0 k ! m = board_file p ids ks ms c x"
    using assms(1) m by (simp add: board_files_def del: upt_Suc mult_Suc_right)
qed

lemma board_file_key: "x \<le> length ids \<Longrightarrow> x' \<le> length ids \<Longrightarrow>
    snd (fst (board_file p ids ks ms c x)) = snd (fst (board_file p ids ks ms c' x')) \<longleftrightarrow> c = c' \<and> x = x'"
  by (auto simp: board_file_def)

lemma board_files_distinct: "distinct (map fst (board_files p ids ks ms c0 k))"
proof -
  let ?d = "Suc (length ids)"
  have "m = m'" if "fst (board_file p ids ks ms (c0 + m div ?d) (m mod ?d)) =
      fst (board_file p ids ks ms (c0 + m' div ?d) (m' mod ?d))" for m m'
  proof -
    have "m mod ?d \<le> length ids" "m' mod ?d \<le> length ids" by (simp_all add: less_Suc_eq_le [symmetric] del: less_Suc_eq_le)
    then have "m div ?d = m' div ?d \<and> m mod ?d = m' mod ?d" using that board_file_key by (metis add_left_cancel)
    then show ?thesis by (metis div_mult_mod_eq)
  qed
  then show ?thesis unfolding board_files_def by (auto simp: distinct_map inj_on_def)
qed

lemma board_files_mem:
  "f \<in> set (board_files p ids ks ms c0 k) \<longleftrightarrow> (\<exists>c x. c0 \<le> c \<and> c < c0 + k \<and> x \<le> length ids \<and> f = board_file p ids ks ms c x)"
proof
  let ?d = "Suc (length ids)"
  assume "f \<in> set (board_files p ids ks ms c0 k)"
  then obtain m where m: "m < k * ?d" "f = board_file p ids ks ms (c0 + m div ?d) (m mod ?d)"
    by (auto simp: board_files_def simp del: mult_Suc_right)
  have "m div ?d < k" using m(1) by (simp add: less_mult_imp_div_less)
  moreover have "m mod ?d \<le> length ids" using mod_less_divisor [of ?d m] by linarith
  ultimately show "\<exists>c x. c0 \<le> c \<and> c < c0 + k \<and> x \<le> length ids \<and> f = board_file p ids ks ms c x"
    using m(2) by (intro exI [of _ "c0 + m div ?d"] exI [of _ "m mod ?d"]) simp
qed (metis board_files_nth nth_mem)

lemma board_rank:
  assumes "c0 \<le> c" "c < c0 + k" "x \<le> length ids" "(t, ky) = fst (board_file p ids ks ms c x)"
  shows "file_rank (board_files p ids ks ms c0 k) t ky = (c - c0) * Suc (length ids) + x"
  using file_rank_nth [OF board_files_distinct board_files_nth(1) [OF assms(1-3)]] board_files_nth(2) [OF assms(1-3)] assms(4)
  by simp

lemma board_polls:
  assumes "i < length ids" "Polled t ky \<in> set (board_events ids i c)"
  shows "\<exists>x \<le> length ids. (t, ky) = fst (board_file p ids ks ms c x)"
proof -
  have "(0 < i \<and> (t, ky) = fst (board_file p ids ks ms c (i - 1))) \<or> (t, ky) = fst (board_file p ids ks ms c (length ids))"
    using assms by (auto simp: board_events_def board_file_def split: if_splits)
  then show ?thesis using assms(1) by (metis less_imp_le_nat less_imp_diff_less order_refl)
qed

text \<open>Where a file is published: everything polled before has a lower rank.\<close>

lemma board_hosts:
  assumes "x \<le> length ids" "0 < length ids" "((t, ky), v) = board_file p ids ks ms c x"
  shows "\<exists>i < length ids. ids ! i = t \<and> (\<exists>ys zs. board_events ids i c = ys @ Hosted ky # zs \<and>
    (\<forall>t' k'. Polled t' k' \<in> set ys \<longrightarrow> (\<exists>x' < x. (t', k') = fst (board_file p ids ks ms c x'))))"
proof (cases "x < length ids")
  case True
  let ?pre = "if x = 0 then [] else [Polled (ids ! (x - 1)) (CommunityRelayKey (int c) (int (x - 1)))]"
  have "board_events ids x c = ?pre @ Hosted ky # tl (drop (length ?pre) (board_events ids x c))"
    using True assms(3) by (auto simp: board_events_def board_file_def)
  moreover have "\<exists>x' < x. (t', k') = fst (board_file p ids ks ms c x')" if "Polled t' k' \<in> set ?pre" for t' k'
    using that True by (intro exI [of _ "x - 1"]) (auto simp: board_file_def split: if_splits)
  moreover have "ids ! x = t" using True assms(3) by (simp add: board_file_def)
  ultimately show ?thesis using True by blast
next
  case False
  let ?i = "length ids - 1"
  let ?pre = "(if ?i = 0 then [] else [Polled (ids ! (?i - 1)) (CommunityRelayKey (int c) (int (?i - 1)))]) @
    [Hosted (CommunityRelayKey (int c) (int ?i))]"
  have x: "x = length ids" "Suc ?i = length ids" "?i < length ids" using False assms(1, 2) by auto
  have "board_events ids ?i c = ?pre @ Hosted ky # []"
    unfolding board_events_def using x assms(3) by (simp add: board_file_def)
  moreover have "\<exists>x' < x. (t', k') = fst (board_file p ids ks ms c x')" if "Polled t' k' \<in> set ?pre" for t' k'
    using that x by (intro exI [of _ "?i - 1"]) (auto simp: board_file_def split: if_splits)
  moreover have "ids ! ?i = t" using x assms(3) by (simp add: board_file_def)
  ultimately show ?thesis using x(3) by blast
qed

definition board_net ::
  "string list \<Rightarrow> (nat \<Rightarrow> (deal_error, Node) prog) \<Rightarrow> world \<Rightarrow> (deal_error, Node) net" where
  "board_net ids prog w = (w, map (\<lambda>i. (ids ! i, prog i)) [0..<length ids])"

definition board_done :: "string list \<Rightarrow> nat list \<Rightarrow> nat \<Rightarrow> nat \<Rightarrow> Node \<Rightarrow> Node" where
  "board_done ids ms c0 k nd = nd\<lparr>community := community nd @ map (\<lambda>c. card_text (ms ! c)) [c0..<c0 + k]\<rparr>"

definition board_fresh :: "string list \<Rightarrow> nat \<Rightarrow> nat \<Rightarrow> world \<Rightarrow> bool" where
  "board_fresh ids c0 k w \<longleftrightarrow> (\<forall>c. c0 \<le> c \<and> c < c0 + k \<longrightarrow>
     w (ids ! (length ids - 1)) (CommunityCardKey (int c)) = None \<and>
     (\<forall>x < length ids. w (ids ! x) (CommunityRelayKey (int c) (int x)) = None))"

lemma board_hosts_all:
  assumes pos: "0 < length ids" and mem: "((t', ky), v) \<in> set (board_files p ids ks ms c0 k)"
  defines "fs \<equiv> board_files p ids ks ms c0 k"
  shows "\<exists>i \<in> set [0..<length ids]. ids ! i = t' \<and> (\<exists>ys zs. concat (map (board_events ids i) [c0..<c0 + k]) = ys @ Hosted ky # zs \<and>
      (\<forall>t2 k2. Polled t2 k2 \<in> set ys \<longrightarrow> file_rank fs t2 k2 < file_rank fs t' ky))"
proof -
  let ?n = "length ids"
  obtain c x where c: "c0 \<le> c" "c < c0 + k" "x \<le> ?n" "((t', ky), v) = board_file p ids ks ms c x"
    using mem unfolding board_files_mem by blast
  have key: "(t', ky) = fst (board_file p ids ks ms c x)" unfolding c(4) [symmetric] by simp
  have rank: "file_rank fs t' ky = (c - c0) * Suc ?n + x" unfolding fs_def by (rule board_rank [OF c(1-3) key])
  obtain i ys zs where i: "i < ?n" "ids ! i = t'" "board_events ids i c = ys @ Hosted ky # zs"
    and low: "\<forall>t2 k2. Polled t2 k2 \<in> set ys \<longrightarrow> (\<exists>x' < x. (t2, k2) = fst (board_file p ids ks ms c x'))"
    using board_hosts [OF c(3) pos c(4)] by blast
  let ?ys = "concat (map (board_events ids i) [c0..<c]) @ ys" and ?zs = "zs @ concat (map (board_events ids i) [Suc c..<c0 + k])"
  have "[c0..<c0 + k] = [c0..<c] @ c # [Suc c..<c0 + k]"
    using c(1, 2) upt_add_eq_append [of c0 c "c0 + k - c"] by (simp add: upt_conv_Cons)
  then have "concat (map (board_events ids i) [c0..<c0 + k]) = ?ys @ Hosted ky # ?zs" using i(3) by simp
  moreover have "file_rank fs t2 k2 < file_rank fs t' ky" if "Polled t2 k2 \<in> set ?ys" for t2 k2
  proof -
    consider c' where "c0 \<le> c'" "c' < c" "Polled t2 k2 \<in> set (board_events ids i c')" | "Polled t2 k2 \<in> set ys"
      using \<open>Polled t2 k2 \<in> set ?ys\<close> by auto
    then show ?thesis
    proof cases
      case (1 c')
      then obtain x' where x': "x' \<le> ?n" "(t2, k2) = fst (board_file p ids ks ms c' x')"
        using board_polls [OF i(1) 1(3)] by blast
      have "file_rank fs t2 k2 = (c' - c0) * Suc ?n + x'"
        unfolding fs_def by (rule board_rank [OF 1(1) _ x']) (use 1 c in simp)
      also have "\<dots> < Suc (c' - c0) * Suc ?n" using x'(1) by simp
      also have "\<dots> \<le> (c - c0) * Suc ?n" using 1(1, 2) by (intro mult_le_mono1) simp
      finally show ?thesis using rank by simp
    next
      case 2
      then obtain x' where x': "x' < x" "(t2, k2) = fst (board_file p ids ks ms c x')" using low by blast
      have "file_rank fs t2 k2 = (c - c0) * Suc ?n + x'"
        unfolding fs_def by (rule board_rank [OF c(1, 2) _ x'(2)]) (use x' c in simp)
      then show ?thesis using rank x'(1) by simp
    qed
  qed
  ultimately show ?thesis using i(1, 2) by (intro bexI [of _ i]) (blast, simp)
qed

lemma board_network:
  assumes t: "dealt_table p ids ks ms" and nds: "\<And>i. i < length ids \<Longrightarrow> board_node p ids ks ms cs i (nds i)"
    and c0: "c0 = length ids * 2 + length cs" "c0 + k \<le> 52" and fresh: "board_fresh ids c0 k w"
  defines "fs \<equiv> board_files p ids ks ms c0 k"
  defines "ts \<equiv> map (\<lambda>i. (concat (map (board_events ids i) [c0..<c0 + k]), Inr (board_done ids ms c0 k (nds i)))) [0..<length ids]"
  shows "consistent (with_files fs w) (board_net ids (\<lambda>i. reveal_all (map int [c0..<c0 + k]) (nds i)) w) ts"
    "productive (file_rank fs) (board_net ids (\<lambda>i. reveal_all (map int [c0..<c0 + k]) (nds i)) w) ts"
proof -
  let ?n = "length ids"
  have pos: "0 < ?n" using t by (auto simp: dealt_table_def)
  have mem: "board_file p ids ks ms c x \<in> set fs" if "c0 \<le> c" "c < c0 + k" "x \<le> ?n" for c x
    using that unfolding fs_def board_files_mem by blast
  have val: "with_files fs w t' ky = Some v" if "c0 \<le> c" "c < c0 + k" "x \<le> ?n" "board_file p ids ks ms c x = ((t', ky), v)" for c x t' ky v
    using with_files_mem [OF board_files_distinct mem [unfolded fs_def, OF that(1-3), unfolded that(4)]] unfolding fs_def .
  have fr: "fresh_for fs w"
    unfolding fresh_for_def
  proof safe
    fix t' ky v assume "((t', ky), v) \<in> set fs"
    then obtain c x where "c0 \<le> c" "c < c0 + k" "x \<le> ?n" "((t', ky), v) = board_file p ids ks ms c x"
      unfolding fs_def board_files_mem by blast
    then show "w t' ky = None" using fresh by (auto simp: board_fresh_def board_file_def split: if_splits)
  qed
  have traces: "\<exists>H \<subseteq> dom (w (ids ! i)). trace (with_files fs w) (ids ! i) (reveal_all (map int [c0..<c0 + k]) (nds i)) H =
      Some (concat (map (board_events ids i) [c0..<c0 + k]), Inr (board_done ids ms c0 k (nds i)))" if "i \<in> set [0..<?n]" for i
  proof -
    have i: "i < ?n" using that by simp
    have "trace (with_files fs w) (ids ! i) (reveal_all (map int [c0..<c0 + k]) (nds i)) {} =
      Some (concat (map (board_events ids i) [c0..<c0 + k]),
        Inr ((nds i)\<lparr>community := cs @ map (\<lambda>c. card_text (ms ! c)) [c0..<c0 + k]\<rparr>))"
    proof (rule reveal_all_trace [OF t i _ _ c0(2) nds [OF i] order_refl c0(1) refl])
      fix c x assume c: "c0 \<le> c" "c < c0 + k" and x: "x < ?n"
      show "with_files fs w (ids ! x) (CommunityRelayKey (int c) (int x)) = Some (board_relay p ks ms c x)"
        by (rule val [OF c, of x]) (use x in \<open>simp_all add: board_file_def\<close>)
    next
      fix c assume c: "c0 \<le> c" "c < c0 + k"
      show "with_files fs w (ids ! (?n - 1)) (CommunityCardKey (int c)) = Some (big_bytes (ms ! c))"
        by (rule val [OF c, of ?n]) (simp_all add: board_file_def)
    qed
    moreover have "community (nds i) = cs" using nds [OF i] by (simp add: board_node_def)
    ultimately show ?thesis by (intro exI [of _ "{}"]) (simp add: board_done_def)
  qed
  have polls: "(t', ky) \<in> fst ` set fs" if i: "i \<in> set [0..<?n]" and polled: "Polled t' ky \<in> set (concat (map (board_events ids i) [c0..<c0 + k]))" for i t' ky
  proof -
    obtain c where c: "c0 \<le> c" "c < c0 + k" "Polled t' ky \<in> set (board_events ids i c)" using polled by auto
    then obtain x where "x \<le> ?n" "(t', ky) = fst (board_file p ids ks ms c x)"
      using board_polls [of i ids t' ky c p ks ms] i by auto
    then show ?thesis using mem [OF c(1, 2)] by (metis image_eqI)
  qed
  show "consistent (with_files fs w) (board_net ids (\<lambda>i. reveal_all (map int [c0..<c0 + k]) (nds i)) w) ts"
    "productive (file_rank fs) (board_net ids (\<lambda>i. reveal_all (map int [c0..<c0 + k]) (nds i)) w) ts"
    unfolding board_net_def ts_def
    by (rule network_of_files [OF fr], erule traces, simp only: fst_conv, rule disjI2, erule (1) polls,
        simp only: fst_conv, unfold fs_def, erule board_hosts_all [OF pos])+
qed

lemma street_reveal:
  assumes "(reveal, length cs, k) \<in> {(RevealFlop, 0, 3), (RevealTurn, 3, 1), (RevealRiver, 4, 1)}"
    and "board_node p ids ks ms cs i nd"
  shows "reveal nd = reveal_all (map int [length ids * 2 + length cs..<length ids * 2 + length cs + k]) nd"
proof -
  let ?b = "length ids * 2"
  have base: "communityBase nd = int ?b" using assms(2) by (simp add: communityBase_def board_node_def)
  have one: "reveal_all [int c] nd = RevealCommunityCard (int c) nd" for c
  proof -
    have "reveal_all [] = Return" by (rule ext) simp
    then show ?thesis by (simp add: bindp_Return)
  qed
  have "[?b..<?b + 3] = [?b, ?b + 1, ?b + 2]" by (simp add: upt_rec)
  then have "RevealFlop nd = reveal_all (map int [?b..<?b + 3]) nd" unfolding RevealFlop_def base Let_def by (simp add: add.commute)
  moreover have card: "reveal_all (map int [c..<c + 1]) nd = RevealCommunityCard (int c) nd" for c
    unfolding one [symmetric] by simp
  have "RevealTurn nd = reveal_all (map int [?b + 3..<?b + 3 + 1]) nd"
    "RevealRiver nd = reveal_all (map int [?b + 4..<?b + 4 + 1]) nd"
    unfolding RevealTurn_def RevealRiver_def base card by simp_all
  ultimately show ?thesis using assms(1) by auto
qed

lemma board_street:
  assumes t: "dealt_table p ids ks ms" and nds: "\<forall>i < length ids. board_node p ids ks ms cs i (nds i)"
    and street: "(reveal, length cs, k) \<in> {(RevealFlop, 0, 3), (RevealTurn, 3, 1), (RevealRiver, 4, 1)}"
    and n: "length ids * 2 + 5 \<le> 52" and fresh: "board_fresh ids (length ids * 2 + length cs) k w"
    and run: "(net_step ^^ m) (board_net ids (\<lambda>i. reveal (nds i)) w) s"
  defines "c0 \<equiv> length ids * 2 + length cs"
  shows "m \<le> 3 * k * length ids" "\<exists>m s'. (net_step ^^ m) s s' \<and> net_done s'"
    "net_done s \<Longrightarrow> map snd (snd s) = map (\<lambda>i. Return (board_done ids ms c0 k (nds i))) [0..<length ids]"
    "fst s t' ky = Some v \<Longrightarrow> with_files (board_files p ids ks ms c0 k) w t' ky = Some v"
    "w t' ky \<noteq> None \<Longrightarrow> fst s t' ky = with_files (board_files p ids ks ms c0 k) w t' ky"
proof -
  have "map (\<lambda>i. (ids ! i, reveal (nds i))) [0..<length ids] =
      map (\<lambda>i. (ids ! i, reveal_all (map int [c0..<c0 + k]) (nds i))) [0..<length ids]"
    using street_reveal [OF street, of p ids ks ms] nds by (auto simp: c0_def)
  then have eq: "board_net ids (\<lambda>i. reveal (nds i)) w = board_net ids (\<lambda>i. reveal_all (map int [c0..<c0 + k]) (nds i)) w"
    by (simp only: board_net_def)
  have k: "c0 + k \<le> 52" using street n by (auto simp: c0_def)
  note net = board_network [OF t nds [rule_format] c0_def [THEN meta_eq_to_obj_eq] k fresh [folded c0_def], simplified]
  note run = run [unfolded eq]
  let ?ts = "map (\<lambda>i. (concat (map (board_events ids i) [c0..<c0 + k]),
      Inr (board_done ids ms c0 k (nds i)) :: deal_error + Node)) [0..<length ids]"
  have "length (board_events ids i c) \<le> 3" for i c by (simp add: board_events_def)
  then have "length (concat (map (board_events ids i) cl)) \<le> 3 * length cl" for i cl
    by (induction cl) (auto intro: add_mono)
  then have "length (concat (map (board_events ids i) [c0..<c0 + k])) \<le> 3 * k" for i by (metis add_diff_cancel_left' length_upt)
  then have "ahead ?ts \<le> 3 * k * length ?ts" by (intro ahead_le) auto
  then show "m \<le> 3 * k * length ids" using net_completes(1) [OF net run] by simp
  show "\<exists>m s'. (net_step ^^ m) s s' \<and> net_done s'" by (rule net_run_finishes [OF net(1) run])
  show "map snd (snd s) = map (\<lambda>i. Return (board_done ids ms c0 k (nds i))) [0..<length ids]" if "net_done s"
    using net_completes(3) [OF net run that] by simp
  show "with_files (board_files p ids ks ms c0 k) w t' ky = Some v" if "fst s t' ky = Some v"
    by (rule net_completes(5) [OF net run that])
  show "fst s t' ky = with_files (board_files p ids ks ms c0 k) w t' ky" if "w t' ky \<noteq> None"
    using net_completes(6) [OF net run, of t' ky] that by (simp add: board_net_def)
qed

text \<open>
  C20. Flop, turn and river are revealed to everyone alike: started on every node with the same board,
  under any interleaving the reveal takes at most \<open>3kN\<close> steps for \<open>k\<close> cards, can always be finished,
  and then every node's board is the old one followed by the next \<open>k\<close> cards of the shuffled deck,
  after the hole-card slots, and nothing else of the node has changed.
\<close>

theorem community_reveal_completes:
  assumes "dealt_table p ids ks ms" "\<forall>i < length ids. board_node p ids ks ms cs i (nds i)"
    "(reveal, length cs, k) \<in> {(RevealFlop, 0, 3), (RevealTurn, 3, 1), (RevealRiver, 4, 1)}"
    "length ids * 2 + 5 \<le> 52" "board_fresh ids (length ids * 2 + length cs) k w"
    "(net_step ^^ n) (board_net ids (\<lambda>i. reveal (nds i)) w) s"
  shows "n \<le> 3 * k * length ids \<and> (\<exists>m s'. (net_step ^^ m) s s' \<and> net_done s') \<and>
    (net_done s \<longrightarrow> map snd (snd s) = map (\<lambda>i. Return ((nds i)\<lparr>community :=
       cs @ map (\<lambda>j. card_text (ms ! (length ids * 2 + length cs + j))) [0..<k]\<rparr>)) [0..<length ids])"
proof -
  have "map (\<lambda>j. card_text (ms ! (c + j))) [0..<k] = map (\<lambda>c. card_text (ms ! c)) [c..<c + k]" for c
    by (auto simp: list_eq_iff_nth_eq)
  then show ?thesis using board_street(1-3) [OF assms] assms(2) by (auto simp: board_done_def board_node_def)
qed

theorem community_reveal_completes_witness:
  "\<exists>n s. (net_step ^^ n) (board_net [''a'', ''b''] (\<lambda>i. RevealFlop (dealt_node [''a'', ''b''] demo_keys PRIME card_nums i)) (\<lambda>_. New)) s \<and>
     n \<le> 18 \<and> map snd (snd s) = map (\<lambda>i. Return ((dealt_node [''a'', ''b''] demo_keys PRIME card_nums i)\<lparr>community :=
       map (\<lambda>j. card_text (card_nums ! (4 + j))) [0..<3]\<rparr>)) [0..<2]"
proof -
  let ?ids = "[''a'', ''b'']"
  let ?nds = "dealt_node ?ids demo_keys PRIME card_nums"
  let ?net = "board_net ?ids (\<lambda>i. RevealFlop (?nds i)) (\<lambda>_. New)"
  have nds: "\<forall>i < length ?ids. board_node PRIME ?ids demo_keys card_nums [] i (?nds i)" by (simp add: board_node_def)
  have street: "(RevealFlop, length ([] :: string list), 3) \<in> {(RevealFlop, 0, 3), (RevealTurn, 3, 1), (RevealRiver, 4, 1)}" by simp
  have fresh: "board_fresh ?ids (length ?ids * 2 + length ([] :: string list)) 3 (\<lambda>_. New)" by (simp add: board_fresh_def New_def)
  have n: "length ?ids * 2 + 5 \<le> 52" by simp
  have "(net_step ^^ 0) ?net ?net" by simp
  from community_reveal_completes [OF demo_dealt nds street n fresh this] obtain m s where
    s: "(net_step ^^ m) ?net s" "net_done s" by blast
  then show ?thesis using community_reveal_completes [OF demo_dealt nds street n fresh s(1)]
    by (intro exI [of _ m] exI [of _ s]) (simp add: eval_nat_numeral)
qed

end
