(* ===== verification/Showdown.thy ===== *)
theory Showdown
  imports Board_Reveal Hand_Eval
begin

text \<open>
  \<^verbatim>\<open>internal/peer/showdown.go\<close>: claims, their verification against the relay files of the hole-card deal,
  and the tally.  The results: the tally picks exactly the unbeaten hands whatever the order of
  arrival, an honest showdown ends with the same winners at every node, and a claim with a wrong
  inverse exponent can pass verification.
\<close>

section \<open>Claims\<close>

record ShowdownClaim =
  claim_Seat :: u8
  claim_Card1 :: string
  claim_Card2 :: string
  InvExp :: bytes

record VerifiedClaim =
  vc_Seat :: int
  Hand :: HandRank

record ShowdownResult =
  Winners :: "int list"
  Claims :: "VerifiedClaim list"

text \<open>\<^verbatim>\<open>encodeClaim\<close> and \<^verbatim>\<open>decodeClaim\<close> are gob.\<close>

record claim_codec =
  encodeClaim :: "ShowdownClaim \<Rightarrow> bytes option"
  decodeClaim :: "bytes \<Rightarrow> ShowdownClaim option"

definition claim_codec_ok :: "claim_codec \<Rightarrow> bool" where
  "claim_codec_ok K \<longleftrightarrow> (\<forall>c. \<exists>b. encodeClaim K c = Some b \<and> decodeClaim K b = Some c)"

datatype showdown_error =
    FoldedTooShort
  | EncodeClaimFailed
  | LocalKeyMissing string
  | FetchFailed string string
  | DecodeClaimFailed
  | SeatMismatch u8 int
  | NoStripper int
  | CardMismatch string string
  | ParseHole card_error
  | ParseCommunity card_error
  | HandEval card_error
  | ShowdownPanic

section \<open>Publishing and verifying\<close>

definition publishShowdownClaim :: "claim_codec \<Rightarrow> Node \<Rightarrow> (showdown_error, unit) prog" where
  "publishShowdownClaim K n =
     (let claim = \<lparr>claim_Seat = of_int (SeatIdx n), claim_Card1 = card1 n, claim_Card2 = card2 n,
                   InvExp = big_bytes (InverseExponent (modKey n))\<rparr> in
      case encodeClaim K claim of None \<Rightarrow> Fail EncodeClaimFailed
      | Some data \<Rightarrow> Host (ShowdownClaimKey (SeatIdx n)) data (Return ()))"

definition fetchEphemeral :: "Node \<Rightarrow> string \<Rightarrow> string \<Rightarrow> (showdown_error, bytes) prog" where
  "fetchEphemeral n nodeID key =
     (if nodeID = nid n then Local key (\<lambda>v. case v of None \<Rightarrow> Fail (LocalKeyMissing key) | Some v \<Rightarrow> Return v)
      else Poll (FetchFailed nodeID key) nodeID key Return)"

definition verifyClaimCard :: "Node \<Rightarrow> int \<Rightarrow> int \<Rightarrow> string \<Rightarrow> nat \<Rightarrow> (showdown_error, unit) prog" where
  "verifyClaimCard n ownerSeat slot claimed invExp =
     (let ring = nonOwnerRing (length (Order n)) ownerSeat in
      if length ring = 0 then Fail (NoStripper slot)
      else let lastStripper = ring ! (length ring - 1) in
      case at (Order n) lastStripper of None \<Rightarrow> Fail ShowdownPanic
      | Some lastID \<Rightarrow>
          bindp (fetchEphemeral n lastID (HoleRelayKey slot lastStripper)) (\<lambda>data.
            let c = be_nat data; m = big_Exp c invExp (prime n); got = string_of_bytes (big_bytes m) in
            if got \<noteq> claimed then Fail (CardMismatch got claimed) else Return ()))"

text \<open>The two parsing loops; empty board slots are skipped.\<close>

fun parse_hole :: "string list \<Rightarrow> showdown_error + Card list" where
  "parse_hole [] = Inr []"
| "parse_hole (s # ss) =
     (case ParseDeckString s of Inl e \<Rightarrow> Inl (ParseHole e)
      | Inr c \<Rightarrow> (case parse_hole ss of Inl e \<Rightarrow> Inl e | Inr cs \<Rightarrow> Inr (c # cs)))"

fun parse_community :: "string list \<Rightarrow> showdown_error + Card list" where
  "parse_community [] = Inr []"
| "parse_community (s # ss) =
     (if s = [] then parse_community ss
      else case ParseDeckString s of Inl e \<Rightarrow> Inl (ParseCommunity e)
      | Inr c \<Rightarrow> (case parse_community ss of Inl e \<Rightarrow> Inl e | Inr cs \<Rightarrow> Inr (c # cs)))"

definition claim_hand :: "ShowdownClaim \<Rightarrow> string list \<Rightarrow> showdown_error + HandRank" where
  "claim_hand claim board =
     (case parse_hole [claim_Card1 claim, claim_Card2 claim] of Inl e \<Rightarrow> Inl e
      | Inr hole \<Rightarrow> (case parse_community board of Inl e \<Rightarrow> Inl e
      | Inr cs \<Rightarrow> (case Best (hole @ cs) of Inl e \<Rightarrow> Inl (HandEval e) | Inr hr \<Rightarrow> Inr hr)))"

definition pollAndVerifyClaim :: "claim_codec \<Rightarrow> Node \<Rightarrow> int \<Rightarrow> string \<Rightarrow> (showdown_error, VerifiedClaim) prog" where
  "pollAndVerifyClaim K n seat nodeID =
     bindp (fetchEphemeral n nodeID (ShowdownClaimKey seat)) (\<lambda>data.
       case decodeClaim K data of None \<Rightarrow> Fail DecodeClaimFailed
       | Some claim \<Rightarrow>
           if uint (claim_Seat claim) \<noteq> seat then Fail (SeatMismatch (claim_Seat claim) seat)
           else let invExp = be_nat (InvExp claim) in
           bindp (verifyClaimCard n seat (2 * seat) (claim_Card1 claim) invExp) (\<lambda>_.
           bindp (verifyClaimCard n seat (2 * seat + 1) (claim_Card2 claim) invExp) (\<lambda>_.
           case claim_hand claim (CommunityCards n) of Inl e \<Rightarrow> Fail e
           | Inr hr \<Rightarrow> Return \<lparr>vc_Seat = seat, Hand = hr\<rparr>)))"

section \<open>The tally\<close>

definition seat_before :: "VerifiedClaim \<Rightarrow> VerifiedClaim \<Rightarrow> bool" where
  "seat_before a b \<longleftrightarrow> vc_Seat a < vc_Seat b"

fun tally_loop :: "VerifiedClaim list \<Rightarrow> VerifiedClaim \<Rightarrow> int list \<Rightarrow> int list" where
  "tally_loop [] best winners = winners"
| "tally_loop (c # cs) best winners =
     (let r = Compare (Hand c) (Hand best) in
      if r = 1 then tally_loop cs c [vc_Seat c]
      else if r = 0 then tally_loop cs best (winners @ [vc_Seat c])
      else tally_loop cs best winners)"

definition tally :: "VerifiedClaim list \<Rightarrow> ShowdownResult" where
  "tally claims =
     (case go_sort seat_before claims of [] \<Rightarrow> \<lparr>Winners = [], Claims = []\<rparr>
      | best # cs \<Rightarrow> \<lparr>Winners = tally_loop cs best [vc_Seat best], Claims = best # cs\<rparr>)"

text \<open>
  A goroutine whose claim is invalid drops out; a panic takes the process down.  \<open>collect_claims\<close>
  runs the goroutines of \<^verbatim>\<open>RunShowdown\<close> seat by seat; in which order their claims arrive does not
  matter to \<open>tally\<close> (\<open>tally_perm\<close> below).
\<close>

primrec catchp :: "(showdown_error, 'a) prog \<Rightarrow> (showdown_error, 'a option) prog" where
  "catchp (Return a) = Return (Some a)"
| "catchp (Fail e) = (if e = ShowdownPanic then Fail e else Return None)"
| "catchp (Read t k f) = Read t k (\<lambda>v. catchp (f v))"
| "catchp (Host k v p) = Host k v (catchp p)"
| "catchp (Local k f) = Local k (\<lambda>v. catchp (f v))"
| "catchp (Erase d p) = Erase d (catchp p)"

fun collect_claims :: "claim_codec \<Rightarrow> Node \<Rightarrow> bool list \<Rightarrow> (int \<times> string) list \<Rightarrow>
    (showdown_error, VerifiedClaim list) prog" where
  "collect_claims K n folded [] = Return []"
| "collect_claims K n folded ((seat, nodeID) # rest) =
     (case at folded seat of None \<Rightarrow> Fail ShowdownPanic
      | Some True \<Rightarrow> collect_claims K n folded rest
      | Some False \<Rightarrow>
          bindp (catchp (pollAndVerifyClaim K n seat nodeID)) (\<lambda>vc.
          bindp (collect_claims K n folded rest) (\<lambda>claims.
          Return (case vc of None \<Rightarrow> claims | Some vc \<Rightarrow> vc # claims))))"

definition RunShowdown :: "claim_codec \<Rightarrow> Node \<Rightarrow> bool list \<Rightarrow> (showdown_error, ShowdownResult) prog" where
  "RunShowdown K n folded =
     (if int (length folded) \<le> SeatIdx n then Fail FoldedTooShort
      else case at folded (SeatIdx n) of None \<Rightarrow> Fail ShowdownPanic
      | Some out \<Rightarrow>
          bindp (if \<not> out then publishShowdownClaim K n else Return ()) (\<lambda>_.
          bindp (collect_claims K n folded (zip (map int [0..<length (Order n)]) (Order n))) (\<lambda>claims.
          Return (tally claims))))"

section \<open>Winners\<close>

interpretation sb: less_fun seat_before
  by unfold_locales (auto simp: seat_before_def)

lemma tally_loop_winners:
  assumes "hand_ok (Hand best)" "\<forall>c \<in> set cs. hand_ok (Hand c)"
    "winners = map vc_Seat (filter (\<lambda>c. hand_key (Hand c) = hand_key (Hand best)) bs)"
    "best \<in> set bs" "\<forall>c \<in> set bs. hand_ok (Hand c) \<and> hand_key (Hand c) \<le> hand_key (Hand best)"
  shows "tally_loop cs best winners = map vc_Seat (filter (\<lambda>c. \<forall>d \<in> set (bs @ cs). Compare (Hand d) (Hand c) \<le> 0) (bs @ cs))"
  using assms
proof (induction cs arbitrary: best winners bs)
  case Nil
  have "(\<forall>d \<in> set bs. Compare (Hand d) (Hand c) \<le> 0) \<longleftrightarrow> hand_key (Hand c) = hand_key (Hand best)" if "c \<in> set bs" for c
    using that Nil.prems(4, 5) by (auto simp: hr.cmp_le intro: order_antisym order_trans)
  then show ?case using Nil.prems(3) by (auto intro!: arg_cong [of _ _ "map vc_Seat"] filter_cong)
next
  case (Cons c cs)
  let ?k = "\<lambda>c. hand_key (Hand c)"
  have ok: "hand_ok (Hand c)" "\<forall>c \<in> set cs. hand_ok (Hand c)" using Cons.prems(2) by auto
  note cmp = hr.cmp_zero [OF ok(1) Cons.prems(1)] hr.cmp_one [OF ok(1) Cons.prems(1)]
  have app: "bs @ c # cs = (bs @ [c]) @ cs" by simp
  consider "?k best < ?k c" | "?k c = ?k best" | "?k c < ?k best" by (meson linorder_cases)
  then show ?case
  proof cases
    case 1
    have "filter (\<lambda>d. ?k d = ?k c) bs = []" using Cons.prems(5) 1 by (auto simp: filter_empty_conv)
    then have w: "[vc_Seat c] = map vc_Seat (filter (\<lambda>d. ?k d = ?k c) (bs @ [c]))" by simp
    have "tally_loop (c # cs) best winners = tally_loop cs c [vc_Seat c]" using cmp 1 by simp
    then show ?thesis unfolding app
      using Cons.IH [OF ok w] Cons.prems(5) 1 ok by fastforce
  next
    case 2
    then have w: "winners @ [vc_Seat c] = map vc_Seat (filter (\<lambda>d. ?k d = ?k best) (bs @ [c]))"
      using Cons.prems(3) by simp
    have "tally_loop (c # cs) best winners = tally_loop cs best (winners @ [vc_Seat c])" using cmp 2 by simp
    then show ?thesis unfolding app
      using Cons.IH [OF Cons.prems(1) ok(2) w] Cons.prems(4, 5) 2 ok by fastforce
  next
    case 3
    then have w: "winners = map vc_Seat (filter (\<lambda>d. ?k d = ?k best) (bs @ [c]))"
      using Cons.prems(3) by simp
    have "tally_loop (c # cs) best winners = tally_loop cs best winners" using cmp 3 by auto
    then show ?thesis unfolding app
      using Cons.IH [OF Cons.prems(1) ok(2) w] Cons.prems(4, 5) 3 ok by fastforce
  qed
qed

lemma tally_winners:
  assumes "\<forall>c \<in> set claims. hand_ok (Hand c)"
  shows "Winners (tally claims) = map vc_Seat
      (filter (\<lambda>c. \<forall>d \<in> set claims. Compare (Hand d) (Hand c) \<le> 0) (go_sort seat_before claims))"
    "Claims (tally claims) = go_sort seat_before claims"
proof -
  have "\<forall>c \<in> set (go_sort seat_before claims). hand_ok (Hand c)" using assms by simp
  moreover have "set claims = set (go_sort seat_before claims)" by simp
  ultimately show "Winners (tally claims) = map vc_Seat
      (filter (\<lambda>c. \<forall>d \<in> set claims. Compare (Hand d) (Hand c) \<le> 0) (go_sort seat_before claims))"
    unfolding tally_def
    using tally_loop_winners [of "hd (go_sort seat_before claims)" "tl (go_sort seat_before claims)" _ "[hd (go_sort seat_before claims)]"]
    by (cases "go_sort seat_before claims") simp_all
qed (simp add: tally_def split: list.splits)

lemma go_sort_seats:
  assumes "distinct (map vc_Seat claims)" "sorted (map vc_Seat cs)" "mset cs = mset claims"
  shows "go_sort seat_before claims = cs"
proof (rule map_sorted_distinct_set_unique [of vc_Seat])
  have set: "set cs = set claims" using assms(3) by (metis set_mset_mset)
  then show "inj_on vc_Seat (set (go_sort seat_before claims) \<union> set cs)" using assms by (simp add: distinct_map)
  show "sorted (map vc_Seat (go_sort seat_before claims))"
    using sb.sorted_go_sort [of claims] by (simp add: sorted_wrt_map seat_before_def not_less)
  show "distinct (map vc_Seat (go_sort seat_before claims))" "distinct (map vc_Seat cs)"
    using assms by (metis mset_eq_imp_distinct_iff mset_go_sort mset_map)+
qed (use assms set_mset_mset in \<open>auto simp flip: set_mset_mset\<close>)

lemma tally_perm:
  assumes "distinct (map vc_Seat claims)" "mset claims' = mset claims"
  shows "tally claims' = tally claims"
proof -
  have "distinct (map vc_Seat claims')" using assms by (metis mset_eq_imp_distinct_iff mset_map)
  then have "go_sort seat_before claims' = go_sort seat_before claims"
    using assms go_sort_seats [of claims' "sort_key vc_Seat claims"] go_sort_seats [of claims "sort_key vc_Seat claims"] by simp
  then show ?thesis by (simp add: tally_def)
qed

section \<open>Honest claims verify\<close>

lemma trace_catchp: "trace E me p H = Some (es, Inr r) \<Longrightarrow> trace E me (catchp p) H = Some (es, Inr (Some r))"
proof (induction p arbitrary: H es)
  case (Read t k f)
  obtain v es1 where "E t k = Some v" "trace E me (f (Some v)) H = Some (es1, Inr r)" "es = Polled t k # es1"
    using Read.prems by (auto split: option.splits)
  then show ?case using Read.IH [OF rangeI, of "Some v" H es1] by auto
next
  case (Host k v p)
  obtain es1 where "E me k = Some v" "trace E me p (insert k H) = Some (es1, Inr r)" "es = Hosted k # es1"
    using Host.prems by (auto split: if_splits)
  then show ?case using Host.IH [of "insert k H" es1] by auto
next
  case (Local k f)
  obtain es1 where "k \<in> H" "trace E me (f (E me k)) H = Some (es1, Inr r)" "es = Looked k # es1"
    using Local.prems by (auto split: if_splits)
  then show ?case using Local.IH [OF rangeI, of "E me k" H es1] by auto
qed auto

text \<open>A read that finds its value: at most one event, a poll unless the file is the node's own.\<close>

definition quiet :: "event list \<Rightarrow> (string \<times> string) set \<Rightarrow> bool" where
  "quiet es S \<longleftrightarrow> (\<forall>t k. Polled t k \<in> set es \<longrightarrow> (t, k) \<in> S)"

lemma quiet_append [simp]: "quiet (es @ es') S \<longleftrightarrow> quiet es S \<and> quiet es' S"
  by (auto simp: quiet_def)

lemma quiet_Nil [simp]: "quiet [] S"
  by (simp add: quiet_def)

lemma quiet_mono: "quiet es S \<Longrightarrow> S \<subseteq> S' \<Longrightarrow> quiet es S'"
  by (auto simp: quiet_def)

lemma fetch_trace:
  assumes "E t k = Some v" "t = nid n \<Longrightarrow> k \<in> H" "me = nid n"
  shows "\<exists>es. trace E me (fetchEphemeral n t k) H = Some (es, Inr v) \<and> quiet es {(t, k)} \<and> length es = 1"
  using assms by (auto simp: fetchEphemeral_def quiet_def)

lemma itoa_card:
  assumes "k < 52"
  shows "\<exists>c. ParseDeckString (itoa (k + 1)) = Inr c \<and> Card_Int c = int k"
proof -
  have "(2 :: nat) ^ 63 = 9223372036854775808" by simp
  then have "atoi (itoa (k + 1)) = Inr (int (k + 1))" using assms by (intro atoi_itoa) linarith
  moreover have "wrap_int (int (k + 1) - 1) = int k" using assms by (simp add: wrap_int_id)
  moreover obtain c where c: "FromInt (int k) = Inr c" using assms by (auto simp: FromInt_def)
  ultimately have "ParseDeckString (itoa (k + 1)) = Inr c" by (simp only: ParseDeckString_def sum.case)
  then show ?thesis using FromInt_Int [OF c] by blast
qed

definition card_at :: "nat list \<Rightarrow> nat \<Rightarrow> Card" where
  "card_at ms c = projr (ParseDeckString (card_text (ms ! c)))"

lemma card_at:
  assumes t: "dealt_table p ids ks ms" and c: "c < 52"
  shows "ParseDeckString (card_text (ms ! c)) = Inr (card_at ms c)" "card_text (ms ! c) \<noteq> []"
    "c' < 52 \<Longrightarrow> card_at ms c = card_at ms c' \<Longrightarrow> c = c'"
proof -
  have ex: "\<exists>k < 52. card_text (ms ! c) = itoa (k + 1)" if "c < 52" for c
  proof -
    have "card_text (ms ! c) \<in> set (map card_text ms)" using dealt_length [OF t] that by simp
    also have "\<dots> = set (map (\<lambda>i. itoa (i + 1)) [0..<52])" using card_texts(1) [OF t] by (metis set_mset_mset)
    finally show ?thesis by auto
  qed
  have parse: "\<exists>k < 52. card_text (ms ! c) = itoa (k + 1) \<and> ParseDeckString (card_text (ms ! c)) = Inr (card_at ms c) \<and>
      Card_Int (card_at ms c) = int k" if c: "c < 52" for c
  proof -
    obtain k where k: "k < 52" "card_text (ms ! c) = itoa (k + 1)" using ex [OF c] by blast
    obtain d where "ParseDeckString (itoa (k + 1)) = Inr d" "Card_Int d = int k" using itoa_card [OF k(1)] by blast
    then show ?thesis using k by (intro exI [of _ k]) (simp add: card_at_def)
  qed
  show "ParseDeckString (card_text (ms ! c)) = Inr (card_at ms c)" "card_text (ms ! c) \<noteq> []"
    using parse [OF c] itoa_nonempty by (auto, metis)
  assume c': "c' < 52" "card_at ms c = card_at ms c'"
  then have "card_text (ms ! c) = card_text (ms ! c')" using parse [OF c] parse [OF c'(1)] by auto
  then show "c = c'"
    using card_texts(2) [OF t] c c'(1) dealt_length [OF t] nth_eq_iff_index_eq [of "map card_text ms" c c'] by simp
qed

text \<open>Seat \<open>j\<close>'s seven cards and hand.\<close>

definition seat_slots :: "nat \<Rightarrow> nat \<Rightarrow> nat list" where
  "seat_slots n j = [2 * j, 2 * j + 1] @ [n * 2..<n * 2 + 5]"

definition seat_hand :: "nat list \<Rightarrow> nat \<Rightarrow> nat \<Rightarrow> HandRank" where
  "seat_hand ms n j = projr (Best (map (card_at ms) (seat_slots n j)))"

lemma seat_hand:
  assumes t: "dealt_table p ids ks ms" and n: "length ids * 2 + 5 \<le> 52" and j: "j < length ids"
  shows "Best (map (card_at ms) (seat_slots (length ids) j)) = Inr (seat_hand ms (length ids) j)"
    "hand_ok (seat_hand ms (length ids) j)"
proof -
  let ?ss = "seat_slots (length ids) j"
  have ss: "length ?ss = 7" "distinct ?ss" "\<forall>c \<in> set ?ss. c < 52" using j n by (auto simp: seat_slots_def)
  have "inj_on (card_at ms) (set ?ss)" using card_at(3) [OF t] ss(3) by (auto intro!: inj_onI)
  then have "distinct (map (card_at ms) ?ss)" using ss(2) by (simp add: distinct_map)
  then obtain r h where "Best (map (card_at ms) ?ss) = Inr r" "r = Rank5 h"
    using Best_max [of "map (card_at ms) ?ss"] ss(1) by auto
  then show "Best (map (card_at ms) ?ss) = Inr (seat_hand ms (length ids) j)" "hand_ok (seat_hand ms (length ids) j)"
    by (simp_all add: seat_hand_def)
qed

definition board_of :: "nat list \<Rightarrow> nat \<Rightarrow> string list" where
  "board_of ms n = map (\<lambda>c. card_text (ms ! c)) [n * 2..<n * 2 + 5]"

definition honest_claim :: "Key list \<Rightarrow> nat list \<Rightarrow> nat \<Rightarrow> ShowdownClaim" where
  "honest_claim ks ms j = \<lparr>claim_Seat = of_nat j, claim_Card1 = card_text (ms ! (2 * j)),
     claim_Card2 = card_text (ms ! (2 * j + 1)), InvExp = big_bytes (InverseExponent (ks ! j))\<rparr>"

lemma parse_board:
  assumes t: "dealt_table p ids ks ms" and "\<forall>c \<in> set cs. c < 52"
  shows "parse_community (map (\<lambda>c. card_text (ms ! c)) cs) = Inr (map (card_at ms) cs)"
  using assms(2) by (induction cs) (simp_all add: card_at(1, 2) [OF t])

lemma honest_hand:
  assumes t: "dealt_table p ids ks ms" and n: "length ids * 2 + 5 \<le> 52" and j: "j < length ids"
  shows "claim_hand (honest_claim ks ms j) (board_of ms (length ids)) = Inr (seat_hand ms (length ids) j)"
proof -
  have "2 * j < 52" "2 * j + 1 < 52" using n j by auto
  then have "parse_hole [claim_Card1 (honest_claim ks ms j), claim_Card2 (honest_claim ks ms j)] =
      Inr [card_at ms (2 * j), card_at ms (2 * j + 1)]"
    using card_at(1) [OF t] by (simp add: honest_claim_def)
  moreover have "parse_community (board_of ms (length ids)) = Inr (map (card_at ms) [length ids * 2..<length ids * 2 + 5])"
    unfolding board_of_def by (rule parse_board [OF t]) (use n in auto)
  moreover have "[card_at ms (2 * j), card_at ms (2 * j + 1)] @ map (card_at ms) [length ids * 2..<length ids * 2 + 5] =
      map (card_at ms) (seat_slots (length ids) j)" by (simp add: seat_slots_def)
  ultimately show ?thesis using seat_hand(1) [OF assms] by (simp only: claim_hand_def sum.case)
qed

definition show_node :: "nat \<Rightarrow> string list \<Rightarrow> Key list \<Rightarrow> nat list \<Rightarrow> nat \<Rightarrow> Node \<Rightarrow> bool" where
  "show_node p ids ks ms i nd \<longleftrightarrow> board_node p ids ks ms (board_of ms (length ids)) i nd \<and> nid nd = ids ! i \<and>
     HoleCards nd = (card_text (ms ! (2 * i)), card_text (ms ! (2 * i + 1)))"

text \<open>The relay files a verifier needs.\<close>

definition relays_in :: "nat \<Rightarrow> string list \<Rightarrow> Key list \<Rightarrow> nat list \<Rightarrow> world \<Rightarrow> bool" where
  "relays_in p ids ks ms w \<longleftrightarrow> (\<forall>s < length ids * 2. \<forall>x < length ids. x \<noteq> s div 2 \<longrightarrow>
     w (ids ! x) (HoleRelayKey (int s) (int x)) = Some (hole_relay p ks ms s x))"

lemma ring_end:
  assumes "ow < n" "2 \<le> n"
  shows "nonOwnerRing n (int ow) ! (length (nonOwnerRing n (int ow)) - 1) = int (ring_last n ow)"
    "length (nonOwnerRing n (int ow)) \<noteq> 0" "ring_last n ow < n" "ring_last n ow \<noteq> ow"
proof -
  have len: "length (nonOwnerRing n (int ow)) - 1 = n - 2" using ring_facts(1) [OF assms(1)] by simp
  have "n - 2 < n - 1" "(if n - 2 < ow then n - 2 else Suc (n - 2)) = ring_last n ow"
    using assms by (auto simp: ring_last_def)
  then show "nonOwnerRing n (int ow) ! (length (nonOwnerRing n (int ow)) - 1) = int (ring_last n ow)"
    using ring_facts(2) [OF assms(1), of "n - 2"] unfolding len by simp
  show "length (nonOwnerRing n (int ow)) \<noteq> 0" using ring_facts(1) [OF assms(1)] assms(2) by simp
qed (use assms in \<open>auto simp: ring_last_def\<close>)

lemma verify_card_trace:
  assumes t: "dealt_table p ids ks ms" and nd: "show_node p ids ks ms i nd"
    and s: "s < length ids * 2" "s < 52" "j = s div 2" and rel: "relays_in p ids ks ms E"
    and H: "\<And>x. x < length ids \<Longrightarrow> x \<noteq> j \<Longrightarrow> ids ! x = ids ! i \<Longrightarrow> HoleRelayKey (int s) (int x) \<in> H"
  shows "\<exists>es. trace E (ids ! i) (verifyClaimCard nd (int j) (int s) (card_text (ms ! s ^ e mod p)) (InverseExponent (ks ! j) * e)) H =
      Some (es, Inr ()) \<and> quiet es {(ids ! x, HoleRelayKey (int s) (int x)) | x. x < length ids \<and> x \<noteq> j} \<and> length es = 1"
proof -
  let ?n = "length ids" and ?x = "ring_last (length ids) j"
  have fields: "Order nd = ids" "prime nd = p" "nid nd = ids ! i" using nd by (auto simp: show_node_def board_node_def)
  have j: "j < ?n" "2 \<le> ?n" using s t by (auto simp: dealt_table_def)
  note ring = ring_end [OF j]
  have E: "E (ids ! ?x) (HoleRelayKey (int s) (int ?x)) = Some (hole_relay p ks ms s ?x)"
    using rel s ring(3, 4) by (simp add: relays_in_def)
  have own: "HoleRelayKey (int s) (int ?x) \<in> H" if "ids ! ?x = nid nd"
    by (rule H [OF ring(3, 4)]) (use that fields in simp)
  obtain es where es: "trace E (ids ! i) (fetchEphemeral nd (ids ! ?x) (HoleRelayKey (int s) (int ?x))) H =
      Some (es, Inr (hole_relay p ks ms s ?x))" "quiet es {(ids ! ?x, HoleRelayKey (int s) (int ?x))}" "length es = 1"
    using fetch_trace [where E = E and n = nd and me = "ids ! i" and t = "ids ! ?x" and k = "HoleRelayKey (int s) (int ?x)",
      OF E own fields(3) [symmetric]] by blast
  let ?r = "be_nat (hole_relay p ks ms s ?x)"
  have "big_bytes (?r ^ InverseExponent (ks ! j) mod p) = big_bytes (ms ! s)"
    using hole_open [OF t s(2)] s(3) j(1) by (simp add: DecryptCard_def big_Exp_power)
  then have "?r ^ InverseExponent (ks ! j) mod p = ms ! s" by (metis be_nat_big_bytes)
  then have "?r ^ (InverseExponent (ks ! j) * e) mod p = ms ! s ^ e mod p" by (metis power_mod power_mult)
  then have "string_of_bytes (big_bytes (big_Exp ?r (InverseExponent (ks ! j) * e) p)) = card_text (ms ! s ^ e mod p)"
    by (simp add: big_Exp_power card_text_def)
  then have "trace E (ids ! i) (verifyClaimCard nd (int j) (int s) (card_text (ms ! s ^ e mod p)) (InverseExponent (ks ! j) * e)) H = Some (es @ [], Inr ())"
    unfolding verifyClaimCard_def Let_def fields ring(1) at_nth [OF ring(3)] option.case if_not_P [OF ring(2)]
    by (intro trace_bindp_from [OF es(1)]) simp
  then show ?thesis using es(2, 3) ring(3, 4) by (intro exI [of _ es]) (auto simp: quiet_def)
qed

definition claim_file :: "claim_codec \<Rightarrow> string list \<Rightarrow> Key list \<Rightarrow> nat list \<Rightarrow> nat \<Rightarrow> (string \<times> string) \<times> bytes" where
  "claim_file K ids ks ms j = ((ids ! j, ShowdownClaimKey (int j)), the (encodeClaim K (honest_claim ks ms j)))"

definition show_polls :: "string list \<Rightarrow> bool list \<Rightarrow> (string \<times> string) set" where
  "show_polls ids folded = {(ids ! x, HoleRelayKey (int s) (int x)) | s x. s < length ids * 2 \<and> x < length ids \<and> x \<noteq> s div 2} \<union>
     {(ids ! j, ShowdownClaimKey (int j)) | j. j < length ids \<and> \<not> folded ! j}"

lemma relay_polls: "s < length ids * 2 \<Longrightarrow>
    {(ids ! x, HoleRelayKey (int s) (int x)) | x. x < length ids \<and> x \<noteq> s div 2} \<subseteq> show_polls ids folded"
  unfolding show_polls_def by blast

text \<open>
  What a verifier accepts: any claim whose cards are the dealt ones raised to some power \<open>e\<close>, with the
  claimant's inverse exponent multiplied by the same \<open>e\<close>.
\<close>

lemma claim_trace:
  assumes t: "dealt_table p ids ks ms" and n: "length ids * 2 + 5 \<le> 52"
    and nd: "show_node p ids ks ms i nd" and j: "j < length ids" "\<not> folded ! j" and rel: "relays_in p ids ks ms E"
    and E: "E (ids ! j) (ShowdownClaimKey (int j)) = Some b" and dec: "decodeClaim K b = Some c"
    and seat: "uint (claim_Seat c) = int j" and inv: "be_nat (InvExp c) = InverseExponent (ks ! j) * e"
    and cards: "claim_Card1 c = card_text (ms ! (2 * j) ^ e mod p)" "claim_Card2 c = card_text (ms ! (2 * j + 1) ^ e mod p)"
    and hand: "claim_hand c (board_of ms (length ids)) = Inr h"
    and H: "\<And>s x. s < length ids * 2 \<Longrightarrow> x < length ids \<Longrightarrow> x \<noteq> s div 2 \<Longrightarrow> ids ! x = ids ! i \<Longrightarrow> HoleRelayKey (int s) (int x) \<in> H"
      "ids ! j = ids ! i \<Longrightarrow> ShowdownClaimKey (int j) \<in> H"
  shows "\<exists>es. trace E (ids ! i) (pollAndVerifyClaim K nd (int j) (ids ! j)) H =
      Some (es, Inr \<lparr>vc_Seat = int j, Hand = h\<rparr>) \<and> quiet es (show_polls ids folded) \<and> length es = 3"
proof -
  have fields: "nid nd = ids ! i" "CommunityCards nd = board_of ms (length ids)"
    using nd by (auto simp: show_node_def board_node_def CommunityCards_def)
  have sl: "2 * j < length ids * 2" "2 * j + 1 < length ids * 2" "2 * j < 52" "2 * j + 1 < 52" using j(1) n by auto
  have own: "ShowdownClaimKey (int j) \<in> H" if "ids ! j = nid nd" by (rule H(2)) (use that fields in simp)
  obtain es1 where es1: "trace E (ids ! i) (fetchEphemeral nd (ids ! j) (ShowdownClaimKey (int j))) H =
      Some (es1, Inr b)" "quiet es1 {(ids ! j, ShowdownClaimKey (int j))}" "length es1 = 1"
    using fetch_trace [where E = E and n = nd and me = "ids ! i" and t = "ids ! j" and k = "ShowdownClaimKey (int j)",
      OF E own fields(1) [symmetric]] by blast
  obtain es2 where es2: "trace E (ids ! i) (verifyClaimCard nd (int j) (int (2 * j)) (card_text (ms ! (2 * j) ^ e mod p)) (InverseExponent (ks ! j) * e)) H =
      Some (es2, Inr ())" "quiet es2 {(ids ! x, HoleRelayKey (int (2 * j)) (int x)) | x. x < length ids \<and> x \<noteq> j}" "length es2 = 1"
    using verify_card_trace [OF t nd sl(1, 3), of j E H e] rel H(1) [OF sl(1)] by auto
  obtain es3 where es3: "trace E (ids ! i) (verifyClaimCard nd (int j) (int (2 * j + 1)) (card_text (ms ! (2 * j + 1) ^ e mod p)) (InverseExponent (ks ! j) * e)) H =
      Some (es3, Inr ())" "quiet es3 {(ids ! x, HoleRelayKey (int (2 * j + 1)) (int x)) | x. x < length ids \<and> x \<noteq> j}" "length es3 = 1"
    using verify_card_trace [OF t nd sl(2, 4), of j E H e] rel H(1) [OF sl(2)] by auto
  have ints: "2 * int j = int (2 * j)" "2 * int j + 1 = int (2 * j + 1)" by simp_all
  let ?X = "\<lparr>vc_Seat = int j, Hand = h\<rparr>"
  have t3: "trace E (ids ! i) (bindp (verifyClaimCard nd (int j) (int (2 * j + 1)) (card_text (ms ! (2 * j + 1) ^ e mod p)) (InverseExponent (ks ! j) * e))
      (\<lambda>_. Return ?X)) H = Some (es3 @ [], Inr ?X)"
    by (rule trace_bindp_from [OF es3(1)]) simp
  note t2 = trace_bindp_from [where g = "\<lambda>_. bindp (verifyClaimCard nd (int j) (int (2 * j + 1)) (card_text (ms ! (2 * j + 1) ^ e mod p))
      (InverseExponent (ks ! j) * e)) (\<lambda>_. Return ?X)", OF es2(1) t3]
  have "trace E (ids ! i) (pollAndVerifyClaim K nd (int j) (ids ! j)) H = Some (es1 @ es2 @ es3 @ [], Inr ?X)"
    unfolding pollAndVerifyClaim_def Let_def
    by (rule trace_bindp_from [OF es1(1)], unfold dec option.case seat inv fields hand sum.case cards ints)
      (use t2 in \<open>simp add: add.commute\<close>)
  moreover have "quiet (es1 @ es2 @ es3 @ []) (show_polls ids folded)"
  proof -
    have halves: "2 * j div 2 = j" "(2 * j + 1) div 2 = j" by simp_all
    have "{(ids ! x, HoleRelayKey (int (2 * j)) (int x)) | x. x < length ids \<and> x \<noteq> j} \<subseteq> show_polls ids folded"
      using relay_polls [OF sl(1), of folded] by (simp only: halves)
    moreover have "{(ids ! x, HoleRelayKey (int (2 * j + 1)) (int x)) | x. x < length ids \<and> x \<noteq> j} \<subseteq> show_polls ids folded"
      using relay_polls [OF sl(2), of folded] by (simp only: halves)
    moreover have "{(ids ! j, ShowdownClaimKey (int j))} \<subseteq> show_polls ids folded"
      unfolding show_polls_def using j by blast
    ultimately show ?thesis using es1(2) es2(2) es3(2) by (simp add: quiet_mono)
  qed
  ultimately show ?thesis using es1(3) es2(3) es3(3) by (intro exI [of _ "es1 @ es2 @ es3"]) simp
qed

lemma verify_claim_trace:
  assumes t: "dealt_table p ids ks ms" and n: "length ids * 2 + 5 \<le> 52" and K: "claim_codec_ok K"
    and nd: "show_node p ids ks ms i nd" and j: "j < length ids" "\<not> folded ! j" and rel: "relays_in p ids ks ms E"
    and E: "E (ids ! j) (ShowdownClaimKey (int j)) = Some (snd (claim_file K ids ks ms j))"
    and H: "\<And>s x. s < length ids * 2 \<Longrightarrow> x < length ids \<Longrightarrow> x \<noteq> s div 2 \<Longrightarrow> ids ! x = ids ! i \<Longrightarrow> HoleRelayKey (int s) (int x) \<in> H"
      "ids ! j = ids ! i \<Longrightarrow> ShowdownClaimKey (int j) \<in> H"
  shows "\<exists>es. trace E (ids ! i) (pollAndVerifyClaim K nd (int j) (ids ! j)) H =
      Some (es, Inr \<lparr>vc_Seat = int j, Hand = seat_hand ms (length ids) j\<rparr>) \<and> quiet es (show_polls ids folded) \<and> length es = 3"
proof (rule claim_trace [where c = "honest_claim ks ms j" and e = 1, OF t n nd j rel E _ _ _ _ _ honest_hand [OF t n j(1)] H])
  obtain b where "encodeClaim K (honest_claim ks ms j) = Some b" "decodeClaim K b = Some (honest_claim ks ms j)"
    using K by (auto simp: claim_codec_ok_def)
  then show "decodeClaim K (snd (claim_file K ids ks ms j)) = Some (honest_claim ks ms j)" by (simp add: claim_file_def)
  show "uint (claim_Seat (honest_claim ks ms j)) = int j"
    using j(1) n by (simp add: honest_claim_def unsigned_of_nat take_bit_nat_eq_self)
  have "2 * j < 52" "2 * j + 1 < 52" using j(1) n by auto
  then show "claim_Card1 (honest_claim ks ms j) = card_text (ms ! (2 * j) ^ 1 mod p)"
    "claim_Card2 (honest_claim ks ms j) = card_text (ms ! (2 * j + 1) ^ 1 mod p)"
    using card_small [OF t] by (simp_all add: honest_claim_def)
qed (simp_all add: honest_claim_def be_nat_big_bytes)

definition seat_claims :: "nat list \<Rightarrow> nat \<Rightarrow> bool list \<Rightarrow> nat list \<Rightarrow> VerifiedClaim list" where
  "seat_claims ms n folded js = map (\<lambda>j. \<lparr>vc_Seat = int j, Hand = seat_hand ms n j\<rparr>) (filter (\<lambda>j. \<not> folded ! j) js)"

lemma collect_trace:
  assumes t: "dealt_table p ids ks ms" and n: "length ids * 2 + 5 \<le> 52" and K: "claim_codec_ok K"
    and nd: "show_node p ids ks ms i nd" and rel: "relays_in p ids ks ms E" and len: "length folded = length ids"
    and E: "\<And>j. j < length ids \<Longrightarrow> \<not> folded ! j \<Longrightarrow> E (ids ! j) (ShowdownClaimKey (int j)) = Some (snd (claim_file K ids ks ms j))"
    and H: "\<And>s x. s < length ids * 2 \<Longrightarrow> x < length ids \<Longrightarrow> x \<noteq> s div 2 \<Longrightarrow> ids ! x = ids ! i \<Longrightarrow> HoleRelayKey (int s) (int x) \<in> H"
      "\<And>j. j < length ids \<Longrightarrow> \<not> folded ! j \<Longrightarrow> ids ! j = ids ! i \<Longrightarrow> ShowdownClaimKey (int j) \<in> H"
  shows "\<forall>j \<in> set js. j < length ids \<Longrightarrow>
    \<exists>es. trace E (ids ! i) (collect_claims K nd folded (map (\<lambda>j. (int j, ids ! j)) js)) H =
      Some (es, Inr (seat_claims ms (length ids) folded js)) \<and> quiet es (show_polls ids folded) \<and> length es \<le> 3 * length js"
proof (induction js)
  case (Cons j js)
  let ?rest = "collect_claims K nd folded (map (\<lambda>j. (int j, ids ! j)) js)"
  obtain es where es: "trace E (ids ! i) ?rest H = Some (es, Inr (seat_claims ms (length ids) folded js))"
    "quiet es (show_polls ids folded)" "length es \<le> 3 * length js" using Cons by auto
  have j: "j < length ids" "at folded (int j) = Some (folded ! j)" using Cons.prems len by auto
  show ?case
  proof (cases "folded ! j")
    case True
    then show ?thesis using es j(2) by (intro exI [of _ es]) (simp add: seat_claims_def)
  next
    case False
    let ?vc = "\<lparr>vc_Seat = int j, Hand = seat_hand ms (length ids) j\<rparr>"
    obtain es1 where es1: "trace E (ids ! i) (pollAndVerifyClaim K nd (int j) (ids ! j)) H = Some (es1, Inr ?vc)"
      "quiet es1 (show_polls ids folded)" "length es1 = 3"
      using verify_claim_trace [where E = E and H = H, OF t n K nd j(1) False rel E [OF j(1) False] H(1) H(2) [OF j(1) False]] by blast
    have "trace E (ids ! i) (bindp ?rest (\<lambda>claims. Return (?vc # claims))) H =
        Some (es @ [], Inr (?vc # seat_claims ms (length ids) folded js))"
      by (rule trace_bindp_from [OF es(1)]) simp
    then have "trace E (ids ! i) (bindp (catchp (pollAndVerifyClaim K nd (int j) (ids ! j))) (\<lambda>vc. bindp ?rest (\<lambda>claims.
        Return (case vc of None \<Rightarrow> claims | Some vc \<Rightarrow> vc # claims)))) H =
        Some (es1 @ es @ [], Inr (?vc # seat_claims ms (length ids) folded js))"
      by (intro trace_bindp_from [OF trace_catchp [OF es1(1)]]) simp
    then show ?thesis using es(2, 3) es1(2, 3) j(2) False by (intro exI [of _ "es1 @ es"]) (simp add: seat_claims_def)
  qed
qed (simp add: seat_claims_def)

lemma RunShowdown_trace:
  assumes t: "dealt_table p ids ks ms" and n: "length ids * 2 + 5 \<le> 52" and K: "claim_codec_ok K"
    and nd: "show_node p ids ks ms i nd" and i: "i < length ids" and rel: "relays_in p ids ks ms E" and len: "length folded = length ids"
    and E: "\<And>j. j < length ids \<Longrightarrow> \<not> folded ! j \<Longrightarrow> E (ids ! j) (ShowdownClaimKey (int j)) = Some (snd (claim_file K ids ks ms j))"
    and H: "\<And>s x. s < length ids * 2 \<Longrightarrow> x < length ids \<Longrightarrow> x \<noteq> s div 2 \<Longrightarrow> ids ! x = ids ! i \<Longrightarrow> HoleRelayKey (int s) (int x) \<in> H"
  shows "\<exists>es. trace E (ids ! i) (RunShowdown K nd folded) H =
      Some ((if folded ! i then [] else [Hosted (ShowdownClaimKey (int i))]) @ es,
        Inr (tally (seat_claims ms (length ids) folded [0..<length ids]))) \<and>
      quiet es (show_polls ids folded) \<and> length es \<le> 3 * length ids"
proof -
  let ?n = "length ids" and ?cs = "seat_claims ms (length ids) folded [0..<length ids]"
  have fields: "Order nd = ids" "SeatIdx nd = int i" "modKey nd = ks ! i" "card1 nd = card_text (ms ! (2 * i))"
    "card2 nd = card_text (ms ! (2 * i + 1))"
    using nd by (simp_all add: show_node_def board_node_def HoleCards_def)
  let ?col = "collect_claims K nd folded (zip (map int [0..<?n]) ids)"
  have zip: "zip (map int [0..<?n]) ids = map (\<lambda>j. (int j, ids ! j)) [0..<?n]"
    by (rule nth_equalityI) simp_all
  have ids: "distinct ids" using t by (simp add: dealt_table_def)
  have same: "ids ! j = ids ! i \<longleftrightarrow> j = i" if "j < ?n" for j using that i ids by (simp add: nth_eq_iff_index_eq)
  have col: "\<exists>es. trace E (ids ! i) (bindp ?col (\<lambda>claims. Return (tally claims))) H' = Some (es, Inr (tally ?cs)) \<and>
      quiet es (show_polls ids folded) \<and> length es \<le> 3 * ?n" if H': "H \<subseteq> H'" "\<not> folded ! i \<Longrightarrow> ShowdownClaimKey (int i) \<in> H'" for H'
  proof -
    have "HoleRelayKey (int s) (int x) \<in> H'" if "s < ?n * 2" "x < ?n" "x \<noteq> s div 2" "ids ! x = ids ! i" for s x
      using H [OF that] H'(1) by blast
    moreover have "ShowdownClaimKey (int j) \<in> H'" if "j < ?n" "\<not> folded ! j" "ids ! j = ids ! i" for j
      using H'(2) that same by auto
    ultimately obtain es where "trace E (ids ! i) ?col H' = Some (es, Inr ?cs)" "quiet es (show_polls ids folded)" "length es \<le> 3 * ?n"
      using collect_trace [where E = E and H = H' and js = "[0..<?n]", OF t n K nd rel len E] unfolding zip by force
    then show ?thesis using trace_bindp_from [of E "ids ! i" ?col H' es ?cs "\<lambda>claims. Return (tally claims)" "[]"] by auto
  qed
  have prog: "RunShowdown K nd folded = bindp (if \<not> folded ! i then publishShowdownClaim K nd else Return ())
      (\<lambda>_. bindp ?col (\<lambda>claims. Return (tally claims)))"
    unfolding RunShowdown_def fields using i len by simp
  show ?thesis
  proof (cases "folded ! i")
    case True
    then show ?thesis unfolding prog using col [of H] by simp
  next
    case False
    obtain b where b: "encodeClaim K (honest_claim ks ms i) = Some b" using K by (auto simp: claim_codec_ok_def)
    have "publishShowdownClaim K nd = Host (ShowdownClaimKey (int i)) b (Return ())"
      unfolding publishShowdownClaim_def fields using b by (simp add: honest_claim_def)
    moreover have "E (ids ! i) (ShowdownClaimKey (int i)) = Some b" using E [OF i False] b by (simp add: claim_file_def)
    ultimately show ?thesis unfolding prog using col [of "insert (ShowdownClaimKey (int i)) H"] False by auto
  qed
qed

definition show_net :: "claim_codec \<Rightarrow> string list \<Rightarrow> (nat \<Rightarrow> Node) \<Rightarrow> bool list \<Rightarrow> world \<Rightarrow> (showdown_error, ShowdownResult) net" where
  "show_net K ids nds folded w = (w, map (\<lambda>i. (ids ! i, RunShowdown K (nds i) folded)) [0..<length ids])"

definition claim_files :: "claim_codec \<Rightarrow> string list \<Rightarrow> Key list \<Rightarrow> nat list \<Rightarrow> bool list \<Rightarrow> file_list" where
  "claim_files K ids ks ms folded = map (claim_file K ids ks ms) (filter (\<lambda>j. \<not> folded ! j) [0..<length ids])"

lemma show_network:
  assumes t: "dealt_table p ids ks ms" and n: "length ids * 2 + 5 \<le> 52" and K: "claim_codec_ok K"
    and nds: "\<forall>i < length ids. show_node p ids ks ms i (nds i)" and len: "length folded = length ids"
    and rel: "relays_in p ids ks ms w" and fresh: "\<forall>j < length ids. w (ids ! j) (ShowdownClaimKey (int j)) = None"
  defines "fs \<equiv> claim_files K ids ks ms folded"
  defines "res \<equiv> tally (seat_claims ms (length ids) folded [0..<length ids])"
  shows "\<exists>es. consistent (with_files fs w) (show_net K ids nds folded w) (map (\<lambda>i. (es i, Inr res)) [0..<length ids]) \<and>
    productive (\<lambda>_ _. 0) (show_net K ids nds folded w) (map (\<lambda>i. (es i, Inr res)) [0..<length ids]) \<and>
    (\<forall>i. i < length ids \<longrightarrow> length (es i) \<le> 3 * length ids + 1)"
proof -
  let ?n = "length ids" and ?E = "with_files fs w"
  have ids: "distinct ids" using t by (simp add: dealt_table_def)
  have mem: "claim_file K ids ks ms j \<in> set fs" if "j < ?n" "\<not> folded ! j" for j
    using that by (auto simp: fs_def claim_files_def)
  have dist: "distinct (map fst fs)"
    by (auto simp: fs_def claim_files_def claim_file_def distinct_map inj_on_def)
  have fr: "fresh_for fs w" using fresh by (auto simp: fresh_for_def fs_def claim_files_def claim_file_def)
  have relE: "relays_in p ids ks ms ?E" using rel with_files_extends [OF fr] by (simp add: relays_in_def)
  have clE: "?E (ids ! j) (ShowdownClaimKey (int j)) = Some (snd (claim_file K ids ks ms j))" if "j < ?n" "\<not> folded ! j" for j
    by (rule with_files_mem [OF dist]) (use mem [OF that] in \<open>simp add: claim_file_def\<close>)
  have "\<forall>i \<in> {..<?n}. \<exists>es. trace ?E (ids ! i) (RunShowdown K (nds i) folded) (dom (w (ids ! i))) =
      Some ((if folded ! i then [] else [Hosted (ShowdownClaimKey (int i))]) @ es, Inr res) \<and>
      quiet es (show_polls ids folded) \<and> length es \<le> 3 * ?n"
  proof
    fix i assume "i \<in> {..<?n}"
    then have i: "i < ?n" by simp
    have H: "HoleRelayKey (int s) (int x) \<in> dom (w (ids ! i))"
      if "s < ?n * 2" "x < ?n" "x \<noteq> s div 2" "ids ! x = ids ! i" for s x
      using rel that unfolding relays_in_def by (metis domI)
    show "\<exists>es. trace ?E (ids ! i) (RunShowdown K (nds i) folded) (dom (w (ids ! i))) =
      Some ((if folded ! i then [] else [Hosted (ShowdownClaimKey (int i))]) @ es, Inr res) \<and>
      quiet es (show_polls ids folded) \<and> length es \<le> 3 * ?n"
      unfolding res_def by (rule RunShowdown_trace [OF t n K nds [rule_format, OF i] i relE len clE H])
  qed
  from bchoice [OF this] obtain es where es: "\<And>i. i < ?n \<Longrightarrow> trace ?E (ids ! i) (RunShowdown K (nds i) folded) (dom (w (ids ! i))) =
      Some ((if folded ! i then [] else [Hosted (ShowdownClaimKey (int i))]) @ es i, Inr res)"
    "\<And>i. i < ?n \<Longrightarrow> quiet (es i) (show_polls ids folded)" "\<And>i. i < ?n \<Longrightarrow> length (es i) \<le> 3 * ?n" by auto
  let ?es = "\<lambda>i. (if folded ! i then [] else [Hosted (ShowdownClaimKey (int i))]) @ es i"
  have traces: "\<exists>H \<subseteq> dom (w (ids ! i)). trace ?E (ids ! i) (RunShowdown K (nds i) folded) H = Some (?es i, Inr res)"
    if "i \<in> set [0..<?n]" for i
    using es(1) [of i] that by (intro exI [of _ "dom (w (ids ! i))"]) simp
  have polls: "w t k \<noteq> None \<or> (t, k) \<in> fst ` set fs" if i: "i \<in> set [0..<?n]" and p: "Polled t k \<in> set (?es i)" for i t k
  proof -
    have "(t, k) \<in> show_polls ids folded" using es(2) [of i] i p by (auto simp: quiet_def split: if_splits)
    then consider s x where "s < ?n * 2" "x < ?n" "x \<noteq> s div 2" "t = ids ! x" "k = HoleRelayKey (int s) (int x)"
      | j where "j < ?n" "\<not> folded ! j" "t = ids ! j" "k = ShowdownClaimKey (int j)"
      unfolding show_polls_def by blast
    then show ?thesis
    proof cases
      case 1
      then show ?thesis using rel by (simp add: relays_in_def)
    next
      case 2
      then show ?thesis using mem [OF 2(1, 2)] by (force simp: claim_file_def)
    qed
  qed
  have hosts: "\<exists>i \<in> set [0..<?n]. ids ! i = t \<and> (\<exists>ys zs. ?es i = ys @ Hosted k # zs \<and>
      (\<forall>t' k'. Polled t' k' \<in> set ys \<longrightarrow> (0 :: nat) < 0))" if m: "((t, k), v) \<in> set fs" for t k v
  proof -
    obtain i where i: "i < ?n" "\<not> folded ! i" "t = ids ! i" "k = ShowdownClaimKey (int i)"
      using m by (auto simp: fs_def claim_files_def claim_file_def)
    have "?es i = [] @ Hosted k # es i" using i by simp
    then show ?thesis using i(1, 3) by (intro bexI [of _ i] conjI exI [of _ "[]"] exI [of _ "es i"]) simp_all
  qed
  have "consistent ?E (show_net K ids nds folded w) (map (\<lambda>i. (?es i, Inr res)) [0..<?n])"
    "productive (\<lambda>_ _. 0) (show_net K ids nds folded w) (map (\<lambda>i. (?es i, Inr res)) [0..<?n])"
    unfolding show_net_def
    by (rule network_of_files [OF fr], erule traces, simp only: fst_conv, erule (1) polls, simp only: fst_conv, erule hosts)+
  moreover have "length (?es i) \<le> 3 * ?n + 1" if "i < ?n" for i using es(3) [OF that] by simp
  ultimately show ?thesis by (intro exI [of _ ?es]) simp
qed

lemma seat_claims_tally:
  assumes t: "dealt_table p ids ks ms" and n: "length ids * 2 + 5 \<le> 52"
  defines "h \<equiv> seat_hand ms (length ids)"
  shows "Winners (tally (seat_claims ms (length ids) folded [0..<length ids])) =
    map int (filter (\<lambda>j. \<not> folded ! j \<and> (\<forall>k < length ids. \<not> folded ! k \<longrightarrow> Compare (h k) (h j) \<le> 0)) [0..<length ids])"
proof -
  let ?js = "filter (\<lambda>j. \<not> folded ! j) [0..<length ids]" and ?cs = "seat_claims ms (length ids) folded [0..<length ids]"
  have ok: "\<forall>c \<in> set ?cs. hand_ok (Hand c)" using seat_hand(2) [OF t n] by (auto simp: seat_claims_def)
  have cs: "?cs = map (\<lambda>j. \<lparr>vc_Seat = int j, Hand = h j\<rparr>) ?js" by (simp add: seat_claims_def h_def)
  have "sorted (map int ?js)" "distinct (map int ?js)" by (simp_all add: sorted_map sorted_wrt_filter distinct_map)
  then have "go_sort seat_before ?cs = ?cs" by (intro go_sort_seats) (simp_all add: cs o_def)
  then have "Winners (tally ?cs) = map vc_Seat (filter (\<lambda>c. \<forall>d \<in> set ?cs. Compare (Hand d) (Hand c) \<le> 0) ?cs)"
    using tally_winners(1) [OF ok] by simp
  also have "\<dots> = map int (filter (\<lambda>j. \<forall>k \<in> set ?js. Compare (h k) (h j) \<le> 0) ?js)"
    unfolding cs by (simp add: filter_map o_def)
  also have "\<dots> = map int (filter (\<lambda>j. \<not> folded ! j \<and> (\<forall>k < length ids. \<not> folded ! k \<longrightarrow> Compare (h k) (h j) \<le> 0)) [0..<length ids])"
    unfolding filter_filter by (intro arg_cong [of _ _ "map int"] filter_cong) auto
  finally show ?thesis .
qed

lemma show_end:
  assumes "dealt_table p ids ks ms" "length ids * 2 + 5 \<le> 52" "claim_codec_ok K"
    "\<forall>i < length ids. show_node p ids ks ms i (nds i)" "length folded = length ids"
    "relays_in p ids ks ms w" "\<forall>j < length ids. w (ids ! j) (ShowdownClaimKey (int j)) = None"
    and run: "(net_step ^^ n) (show_net K ids nds folded w) s"
  defines "res \<equiv> tally (seat_claims ms (length ids) folded [0..<length ids])"
  shows "n \<le> (3 * length ids + 1) * length ids" "\<exists>m s'. (net_step ^^ m) s s' \<and> net_done s'"
    "net_done s \<Longrightarrow> map snd (snd s) = replicate (length ids) (Return res)"
proof -
  let ?fs = "with_files (claim_files K ids ks ms folded) w"
  obtain es where net: "consistent ?fs (show_net K ids nds folded w) (map (\<lambda>i. (es i, Inr res)) [0..<length ids])"
    "productive (\<lambda>_ _. 0) (show_net K ids nds folded w) (map (\<lambda>i. (es i, Inr res)) [0..<length ids])"
    "\<And>i. i < length ids \<Longrightarrow> length (es i) \<le> 3 * length ids + 1"
    using show_network [OF assms(1-7)] unfolding res_def by blast
  let ?ts = "map (\<lambda>i. (es i, Inr res :: showdown_error + ShowdownResult)) [0..<length ids]"
  have "ahead ?ts \<le> (3 * length ids + 1) * length ?ts" using net(3) by (intro ahead_le) auto
  then show "n \<le> (3 * length ids + 1) * length ids" using net_completes(1) [OF net(1, 2) run] by simp
  show "\<exists>m s'. (net_step ^^ m) s s' \<and> net_done s'" by (rule net_run_finishes [OF net(1) run])
  assume "net_done s"
  from net_completes(3) [OF net(1, 2) run this] show "map snd (snd s) = replicate (length ids) (Return res)"
    by (simp add: o_def map_replicate_const)
qed

text \<open>
  C10. At an honest showdown all nodes agree and the best hands win.  With the five community cards
  out and the relay files of the deal in place, under any interleaving every node finishes within
  the bound, verifies every live seat's claim, and returns the same result: the winners are exactly
  the seats that have not folded and whose best five of seven no live seat beats, in seat order.
\<close>

theorem showdown_agrees:
  assumes "dealt_table p ids ks ms" "length ids * 2 + 5 \<le> 52" "claim_codec_ok K"
    "\<forall>i < length ids. show_node p ids ks ms i (nds i)" "length folded = length ids"
    "relays_in p ids ks ms w" "\<forall>j < length ids. w (ids ! j) (ShowdownClaimKey (int j)) = None"
    "(net_step ^^ n) (show_net K ids nds folded w) s"
  defines "hand \<equiv> seat_hand ms (length ids)"
  shows "n \<le> (3 * length ids + 1) * length ids \<and> (\<exists>m s'. (net_step ^^ m) s s' \<and> net_done s') \<and>
    (net_done s \<longrightarrow> (\<exists>r. map snd (snd s) = replicate (length ids) (Return r) \<and>
       Winners r = map int (filter (\<lambda>j. \<not> folded ! j \<and>
         (\<forall>k < length ids. \<not> folded ! k \<longrightarrow> Compare (hand k) (hand j) \<le> 0)) [0..<length ids])))"
  using show_end [OF assms(1-8)] seat_claims_tally [OF assms(1, 2)] unfolding hand_def by blast

lemma hole_files_relays:
  "relays_in p ids ks ms (with_files (hole_files p ids ks ms) w)"
  unfolding relays_in_def
proof (intro allI impI)
  fix s x assume sx: "s < length ids * 2" "x < length ids" "x \<noteq> s div 2"
  have dist: "distinct (map fst (hole_files p ids ks ms))"
    by (auto simp: hole_files_def distinct_map inj_on_def distinct_product)
  show "with_files (hole_files p ids ks ms) w (ids ! x) (HoleRelayKey (int s) (int x)) = Some (hole_relay p ks ms s x)"
    by (rule with_files_mem [OF dist]) (use sx in \<open>auto simp: hole_files_def\<close>)
qed

definition demo_claim_codec :: claim_codec where
  "demo_claim_codec = \<lparr>
     encodeClaim = \<lambda>c. Some (claim_Seat c # flat [bytes_of_string (claim_Card1 c), bytes_of_string (claim_Card2 c), InvExp c]),
     decodeClaim = \<lambda>b. (case unflat [] (tl b) of [c1, c2, e] \<Rightarrow> Some \<lparr>claim_Seat = hd b, claim_Card1 = string_of_bytes c1,
       claim_Card2 = string_of_bytes c2, InvExp = e\<rparr> | _ \<Rightarrow> None)\<rparr>"

lemma demo_claim_codec_ok: "claim_codec_ok demo_claim_codec"
  by (simp add: claim_codec_ok_def demo_claim_codec_def unflat_flat del: flat.simps)

definition demo_show_node :: "nat \<Rightarrow> Node" where
  "demo_show_node i = (dealt_node [''a'', ''b''] demo_keys PRIME card_nums i)\<lparr>card1 := card_text (card_nums ! (2 * i)),
     card2 := card_text (card_nums ! (2 * i + 1)), community := board_of card_nums 2\<rparr>"

theorem showdown_agrees_witness:
  "\<exists>n s r. (net_step ^^ n) (show_net demo_claim_codec [''a'', ''b''] demo_show_node [False, False]
      (with_files (hole_files PRIME [''a'', ''b''] demo_keys card_nums) (\<lambda>_. New))) s \<and> n \<le> 14 \<and>
    map snd (snd s) = [Return r, Return r] \<and> set (Winners r) \<subseteq> {0, 1}"
proof -
  let ?ids = "[''a'', ''b'']"
  let ?w = "with_files (hole_files PRIME ?ids demo_keys card_nums) (\<lambda>_. New)"
  let ?net = "show_net demo_claim_codec ?ids demo_show_node [False, False] ?w"
  have nds: "\<forall>i < length ?ids. show_node PRIME ?ids demo_keys card_nums i (demo_show_node i)"
    by (simp add: show_node_def board_node_def demo_show_node_def HoleCards_def numeral_2_eq_2)
  have fresh: "\<forall>j < length ?ids. ?w (?ids ! j) (ShowdownClaimKey (int j)) = None"
    by (auto simp: with_files_def New_def hole_files_def map_of_eq_None_iff split: option.splits dest!: map_of_SomeD)
  have n: "length ?ids * 2 + 5 \<le> 52" and len: "length [False, False] = length ?ids" by simp_all
  note agree = showdown_agrees [OF demo_dealt n demo_claim_codec_ok nds len hole_files_relays fresh]
  have "(net_step ^^ 0) ?net ?net" by simp
  from agree [OF this] obtain m s where s: "(net_step ^^ m) ?net s" "net_done s" by blast
  have m: "m \<le> 14" using agree [OF s(1)] by simp
  obtain r where r: "map snd (snd s) = replicate (length ?ids) (Return r)" "set (Winners r) \<subseteq> int ` {0, 1}"
    using agree [OF s(1)] s(2) by auto
  then show ?thesis using s(1) m by (intro exI [of _ m] exI [of _ s] exI [of _ r]) simp
qed

text \<open>
  The tally does not depend on the order in which claims arrive, and picks exactly the unbeaten
  hands: for claims of different seats, every arrangement of them gives the same result, the claims
  come out in seat order, and a seat wins iff no claimed hand beats its own.
\<close>

theorem tally_exact:
  assumes "distinct (map vc_Seat claims)" "\<forall>c \<in> set claims. length (Tiebreakers (Hand c)) = 5" "mset claims' = mset claims"
  shows "tally claims' = tally claims \<and> sorted (map vc_Seat (Claims (tally claims))) \<and>
    mset (Claims (tally claims)) = mset claims \<and> sorted (Winners (tally claims)) \<and>
    set (Winners (tally claims)) = {vc_Seat c | c. c \<in> set claims \<and> (\<forall>d \<in> set claims. Compare (Hand d) (Hand c) \<noteq> 1)}"
proof -
  have ok: "\<forall>c \<in> set claims. hand_ok (Hand c)" using assms(2) by (simp add: hand_ok_def)
  note w = tally_winners [OF ok]
  have sorted: "sorted (map vc_Seat (go_sort seat_before claims))"
    using sb.sorted_go_sort [of claims] by (simp add: sorted_wrt_map seat_before_def not_less)
  then have "sorted (map vc_Seat (filter P (go_sort seat_before claims)))" for P
    by (simp add: sorted_map sorted_wrt_filter)
  moreover have "Compare (Hand d) (Hand c) \<le> 0 \<longleftrightarrow> Compare (Hand d) (Hand c) \<noteq> 1" if "c \<in> set claims" "d \<in> set claims" for c d
    using ok that by (auto simp: hr.cmp_key)
  ultimately show ?thesis using tally_perm [OF assms(1, 3)] w sorted by auto
qed

theorem tally_exact_witness:
  "let c = \<lparr>vc_Seat = 1, Hand = zero_HandRank\<rparr>; d = \<lparr>vc_Seat = 0, Hand = zero_HandRank\<lparr>Category := OnePair\<rparr>\<rparr> in
   tally [c, d] = tally [d, c] \<and> set (Winners (tally [d, c])) = {0}"
proof -
  let ?c = "\<lparr>vc_Seat = 1, Hand = zero_HandRank\<rparr>" and ?d = "\<lparr>vc_Seat = 0, Hand = zero_HandRank\<lparr>Category := OnePair\<rparr>\<rparr>"
  have "distinct (map vc_Seat [?d, ?c])" by simp
  moreover have "\<forall>c \<in> set [?d, ?c]. length (Tiebreakers (Hand c)) = 5" by (simp add: zero_HandRank_def)
  moreover have "mset [?c, ?d] = mset [?d, ?c]" by simp
  ultimately have "tally [?c, ?d] = tally [?d, ?c] \<and> set (Winners (tally [?d, ?c])) =
      {vc_Seat c | c. c \<in> set [?d, ?c] \<and> (\<forall>d \<in> set [?d, ?c]. Compare (Hand d) (Hand c) \<noteq> 1)}"
    using tally_exact [of "[?d, ?c]" "[?c, ?d]"] by blast
  moreover have "Compare (Hand ?d) (Hand ?c) = 1" "Compare (Hand ?c) (Hand ?d) = -1" "Compare (Hand ?d) (Hand ?d) = 0"
    by code_simp+
  then have "{vc_Seat c | c. c \<in> set [?d, ?c] \<and> (\<forall>d \<in> set [?d, ?c]. Compare (Hand d) (Hand c) \<noteq> 1)} = {0}" by force
  ultimately show ?thesis by (simp add: Let_def)
qed

section \<open>Forged claims\<close>

lemma forged_powers: "13618 ^ 11611 mod PRIME = 13618" "49 ^ 11611 mod PRIME = 13113"
  "card_text 13618 = ''52''" "card_text 49 = ''1''" "card_text 13113 = ''39''"
proof -
  show "13618 ^ 11611 mod PRIME = 13618" "49 ^ 11611 mod PRIME = 13113"
    unfolding big_Exp_power [symmetric] PRIME_def by (simp_all add: big_Exp.simps)
  show "card_text 13618 = ''52''" "card_text 49 = ''1''" "card_text 13113 = ''39''"
    by (simp_all add: card_text_def big_bytes.simps string_of_bytes_def char_of_def bit_0)
qed

definition forged_claim :: "Key list \<Rightarrow> nat \<Rightarrow> ShowdownClaim" where
  "forged_claim ks j = \<lparr>claim_Seat = of_nat j, claim_Card1 = ''52'', claim_Card2 = ''39'',
     InvExp = big_bytes (InverseExponent (ks ! j) * 11611)\<rparr>"

lemma forged_hand:
  assumes t: "dealt_table PRIME ids ks ms" and n: "length ids * 2 + 5 \<le> 52" and j: "j < length ids"
    and ace: "card_text (ms ! (2 * j)) = ''52''" and board: "''39'' \<notin> set (board_of ms (length ids))"
  shows "\<exists>h. claim_hand (forged_claim ks j) (board_of ms (length ids)) = Inr h"
proof -
  let ?b = "[length ids * 2..<length ids * 2 + 5]"
  have "''39'' = itoa (38 + 1)" by (simp add: itoa.simps digit_char_def char_of_def bit_0)
  then have "''39'' \<in> set (map (\<lambda>i. itoa (i + 1)) [0..<52])" by force
  also have "\<dots> = set (map card_text ms)" using card_texts(1) [OF t] by (metis set_mset_mset)
  finally obtain c where c: "c < 52" "card_text (ms ! c) = ''39''" using dealt_length [OF t] by (auto simp: in_set_conv_nth)
  have jl: "2 * j < 52" using j n by auto
  have "card_text (ms ! x) \<in> set (board_of ms (length ids))" if "x \<in> set ?b" for x
    unfolding board_of_def set_map by (rule imageI [OF that])
  then have "c \<notin> set ?b" using board c(2) by metis
  moreover have "c \<noteq> 2 * j"
  proof
    assume "c = 2 * j"
    then show False using ace c(2) by simp
  qed
  ultimately have ss: "distinct ([2 * j, c] @ ?b)" using j by simp
  have lt: "\<forall>x \<in> set ([2 * j, c] @ ?b). x < 52" using n c(1) jl by simp
  have "inj_on (card_at ms) (set ([2 * j, c] @ ?b))" 
    by (rule inj_onI) (rule card_at(3) [OF t bspec [OF lt] bspec [OF lt]])
  then have "distinct (map (card_at ms) ([2 * j, c] @ ?b))" using ss by (simp only: distinct_map simp_thms)
  moreover have "length (map (card_at ms) ([2 * j, c] @ ?b)) = 7" by simp
  ultimately obtain h where h: "Best (map (card_at ms) ([2 * j, c] @ ?b)) = Inr h"
    using Best_max [of "map (card_at ms) ([2 * j, c] @ ?b)"] by fastforce
  have "parse_hole [''52'', ''39''] = Inr [card_at ms (2 * j), card_at ms c]"
    using card_at(1) [OF t jl] card_at(1) [OF t c(1)] ace c(2) by simp
  moreover have "parse_community (board_of ms (length ids)) = Inr (map (card_at ms) ?b)"
    unfolding board_of_def by (rule parse_board [OF t]) (use n in auto)
  ultimately show ?thesis using h by (simp add: claim_hand_def forged_claim_def)
qed

text \<open>
  C37. A showdown claim does not prove the cards.  The claim's inverse exponent is never checked, and
  any power of the true one shifts both cards by that power.  In the program's group the ace of
  spades is fixed by every odd power, so a seat dealt the ace of spades and the two of clubs can
  claim two aces: every other node that verifies the claim accepts it and rates the forged hand,
  provided the ace of hearts is not on the board.
\<close>

theorem forged_claim_accepted:
  assumes "dealt_table PRIME ids ks ms" "length ids * 2 + 5 \<le> 52" "i < length ids" "j < length ids" "i \<noteq> j"
    "ms ! (2 * j) = 13618" "ms ! (2 * j + 1) = 49" "''39'' \<notin> set (board_of ms (length ids))"
    "show_node PRIME ids ks ms i nd" "relays_in PRIME ids ks ms w"
    "w (ids ! j) (ShowdownClaimKey (int j)) = Some b" "decodeClaim K b = Some (forged_claim ks j)"
  shows "card_text (ms ! (2 * j)) = ''52'' \<and> card_text (ms ! (2 * j + 1)) = ''1'' \<and>
    (\<exists>h. claim_hand (forged_claim ks j) (board_of ms (length ids)) = Inr h \<and>
      (net_step ^^ 3) (w, [(ids ! i, pollAndVerifyClaim K nd (int j) (ids ! j))])
        (w, [(ids ! i, Return \<lparr>vc_Seat = int j, Hand = h\<rparr>)]))"
proof -
  note t = assms(1)
  have ids: "ids ! j \<noteq> ids ! i" using t assms(3-5) by (simp add: dealt_table_def nth_eq_iff_index_eq)
  have texts: "card_text (ms ! (2 * j)) = ''52''" "card_text (ms ! (2 * j + 1)) = ''1''" unfolding assms(6, 7) by (rule forged_powers)+
  obtain h where h: "claim_hand (forged_claim ks j) (board_of ms (length ids)) = Inr h"
    using forged_hand [OF t assms(2, 4) texts(1) assms(8)] by blast
  have "\<exists>es. trace w (ids ! i) (pollAndVerifyClaim K nd (int j) (ids ! j)) (dom (w (ids ! i))) =
      Some (es, Inr \<lparr>vc_Seat = int j, Hand = h\<rparr>) \<and> quiet es (show_polls ids (replicate (length ids) False)) \<and> length es = 3"
  proof (rule claim_trace [where e = 11611, OF t assms(2, 9, 4) _ assms(10-12) _ _ _ _ h])
    show "uint (claim_Seat (forged_claim ks j)) = int j"
      using assms(2, 4) by (simp add: forged_claim_def unsigned_of_nat take_bit_nat_eq_self)
    show "be_nat (InvExp (forged_claim ks j)) = InverseExponent (ks ! j) * 11611"
      by (simp add: forged_claim_def be_nat_big_bytes)
    show "claim_Card1 (forged_claim ks j) = card_text (ms ! (2 * j) ^ 11611 mod PRIME)"
      "claim_Card2 (forged_claim ks j) = card_text (ms ! (2 * j + 1) ^ 11611 mod PRIME)"
      unfolding assms(6, 7) forged_powers by (simp_all add: forged_claim_def)
    show "HoleRelayKey (int s) (int x) \<in> dom (w (ids ! i))"
      if "s < length ids * 2" "x < length ids" "x \<noteq> s div 2" "ids ! x = ids ! i" for s x
      using assms(10) that unfolding relays_in_def by (metis domI)
  qed (use ids assms(4) in auto)
  then obtain es where "trace w (ids ! i) (pollAndVerifyClaim K nd (int j) (ids ! j)) (dom (w (ids ! i))) =
      Some (es, Inr \<lparr>vc_Seat = int j, Hand = h\<rparr>)" "length es = 3" by blast
  from trace_runs [OF this(1) subset_refl] this(2) texts h show ?thesis by auto
qed

definition cheat_deck :: "nat list" where
  "cheat_deck = last card_nums # butlast card_nums"

lemma cheat_deck: "dealt_table PRIME [''a'', ''b''] demo_keys cheat_deck" "cheat_deck ! 0 = 13618" "cheat_deck ! 1 = 49"
  "board_of cheat_deck 2 = [''4'', ''5'', ''6'', ''7'', ''8'']"
proof -
  have ne: "card_nums \<noteq> []" using deck_cards(4) by auto
  then have "mset card_nums = mset (butlast card_nums @ [last card_nums])" by simp
  then have "mset cheat_deck = mset card_nums" unfolding cheat_deck_def by simp
  then show "dealt_table PRIME [''a'', ''b''] demo_keys cheat_deck" using demo_dealt by (simp add: dealt_table_def)
  have nth: "card_nums ! k = be_nat (bytes_of_string (itoa (k + 1)))" if "k < 52" for k
    using that by (simp add: card_nums_def buildOrderedDeck_def)
  have "last card_nums = card_nums ! 51" using ne deck_cards(4) by (simp add: last_conv_nth)
  then show "cheat_deck ! 0 = 13618" using nth [of 51] by (simp add: cheat_deck_def two_digits)
  have late: "cheat_deck ! (k + 1) = be_nat (bytes_of_string (itoa (k + 1)))" if "k < 51" for k
    using that nth [of k] deck_cards(4) by (simp add: cheat_deck_def nth_butlast)
  show "cheat_deck ! 1 = 49" using late [of 0] by (simp add: one_digit)
  have face: "card_text (cheat_deck ! (k + 1)) = itoa (k + 1)" if "k < 51" for k
    unfolding late [OF that] card_text_def itoa_bytes_canonical by simp
  have "[2 * 2..<2 * 2 + 5] = map (\<lambda>k. k + 1) [3, 4, 5, 6, 7 :: nat]" by (simp add: upt_rec)
  then have "board_of cheat_deck 2 = map (\<lambda>k. card_text (cheat_deck ! (k + 1))) [3, 4, 5, 6, 7]"
    unfolding board_of_def by (simp only: map_map o_def)
  also have "\<dots> = map (\<lambda>k. itoa (k + 1)) [3, 4, 5, 6, 7]" by (intro map_cong face) auto
  also have "\<dots> = [''4'', ''5'', ''6'', ''7'', ''8'']"
    by (simp add: itoa.simps digit_char_def char_of_def bit_0)
  finally show "board_of cheat_deck 2 = [''4'', ''5'', ''6'', ''7'', ''8'']" .
qed

definition cheat_world :: world where
  "cheat_world = (with_files (hole_files PRIME [''a'', ''b''] demo_keys cheat_deck) (\<lambda>_. New))
     (''a'' := Put (ShowdownClaimKey 0) (the (encodeClaim demo_claim_codec (forged_claim demo_keys 0)))
       (with_files (hole_files PRIME [''a'', ''b''] demo_keys cheat_deck) (\<lambda>_. New) ''a''))"

theorem forged_claim_accepted_witness:
  "\<exists>h. claim_hand (forged_claim demo_keys 0) [''4'', ''5'', ''6'', ''7'', ''8''] = Inr h \<and>
     (net_step ^^ 3) (cheat_world, [(''b'', pollAndVerifyClaim demo_claim_codec
        ((dealt_node [''a'', ''b''] demo_keys PRIME cheat_deck 1)\<lparr>card1 := card_text (cheat_deck ! 2),
          card2 := card_text (cheat_deck ! 3), community := [''4'', ''5'', ''6'', ''7'', ''8'']\<rparr>) 0 ''a'')])
       (cheat_world, [(''b'', Return \<lparr>vc_Seat = 0, Hand = h\<rparr>)])"
proof -
  let ?ids = "[''a'', ''b'']" and ?w = "with_files (hole_files PRIME [''a'', ''b''] demo_keys cheat_deck) (\<lambda>_. New)"
  let ?nd = "(dealt_node ?ids demo_keys PRIME cheat_deck 1)\<lparr>card1 := card_text (cheat_deck ! 2),
      card2 := card_text (cheat_deck ! 3), community := [''4'', ''5'', ''6'', ''7'', ''8'']\<rparr>"
  obtain b where b: "encodeClaim demo_claim_codec (forged_claim demo_keys 0) = Some b"
    "decodeClaim demo_claim_codec b = Some (forged_claim demo_keys 0)"
    using demo_claim_codec_ok by (auto simp: claim_codec_ok_def)
  have nd: "show_node PRIME ?ids demo_keys cheat_deck 1 ?nd"
    using cheat_deck(4) by (simp add: show_node_def board_node_def HoleCards_def numeral_2_eq_2 numeral_3_eq_3)
  have "cheat_world t (HoleRelayKey s x) = ?w t (HoleRelayKey s x)" for t s x by (simp add: cheat_world_def Put_def)
  then have rel: "relays_in PRIME ?ids demo_keys cheat_deck cheat_world"
    using hole_files_relays [of PRIME ?ids demo_keys cheat_deck "\<lambda>_. New"] by (simp only: relays_in_def)
  have claim: "cheat_world (?ids ! 0) (ShowdownClaimKey (int 0)) = Some b" using b(1) by (simp add: cheat_world_def Put_def)
  have "length ?ids = 2" by simp
  then have board: "''39'' \<notin> set (board_of cheat_deck (length ?ids))" using cheat_deck(4) by (simp only:) simp
  have sizes: "length ?ids * 2 + 5 \<le> 52" "1 < length ?ids" "0 < length ?ids" "(1 :: nat) \<noteq> 0" by simp_all
  have cards: "cheat_deck ! (2 * 0) = 13618" "cheat_deck ! (2 * 0 + 1) = 49" using cheat_deck(2, 3) by simp_all
  from forged_claim_accepted [OF cheat_deck(1) sizes cards board nd rel claim b(2)] cheat_deck(4)
  show ?thesis by (simp add: numeral_2_eq_2)
qed

end
