(* ===== verification/Runner.thy ===== *)
theory Runner
  imports Showdown Game_Log
begin

text \<open>
  The round runner (\<^verbatim>\<open>internal/round/runner.go\<close>): the lifecycle of a hand after the deal.  Each round has
  one proposer; the others verify.  An attempt publishes a signed proposal, every node appends it and
  publishes a receipt, and commits once the receipts of the unfolded seats are there; an attempt that
  times out is rolled back and retried, and after \<^verbatim>\<open>MaxAttempts\<close> the table auto-folds the proposer.
  The runner is a program over the stores (\<open>Poll_Network\<close>); deadlines and cancelled contexts are the
  failing reads of that theory.  The last two sections bound what any run of such a program can
  return, whatever the other nodes do.
\<close>

section \<open>State\<close>

datatype Role = RoleProposer | RoleVerifier

datatype reason =
    NoReason
  | NoLegalAction
  | EncodeProposal
  | EncodeReceipt
  | PollVerify string
  | PollProposal string
  | DecodeProposal
  | Refused log_error
  | PollAutoFold string
  | NoAttestors

datatype attemptOutcome = attemptCommitted | attemptTimeout reason

record AttemptEvent =
  ev_RoundID :: u64
  ev_Attempt :: u32
  ev_Outcome :: string
  ev_Reason :: reason

record Config =
  TimeoutInterval :: int
  MaxAttempts :: u32

text \<open>\<open>peerPKs\<close> is \<^verbatim>\<open>node.PeerPK\<close>, with the empty key for an unknown peer; the store is in the world.\<close>

record Runner =
  node :: Node
  log :: Log
  sk :: bytes
  pk :: bytes
  cfg :: Config
  peerPKs :: "string \<Rightarrow> bytes"
  actionCh :: "Action option"
  events :: "AttemptEvent list"

datatype submit_error = ErrNotYourTurn | ErrActionAlreadyPending | ErrIllegalAction illegal

datatype runner_error =
    RunnerPanic
  | ShuffleError deal_error
  | RevealError deal_error
  | ShowdownError showdown_error
  | AutoFoldError reason

text \<open>Gob encoding of proposals and receipts.\<close>

record round_codec =
  encodeEntry :: "Entry \<Rightarrow> bytes option"
  decodeEntry :: "bytes \<Rightarrow> Entry option"
  encodeReceipt :: "VerifyReceipt \<Rightarrow> bytes option"

definition round_codec_ok :: "round_codec \<Rightarrow> bool" where
  "round_codec_ok K \<longleftrightarrow> (\<forall>e. \<exists>b. encodeEntry K e = Some b \<and> decodeEntry K b = Some e) \<and>
     (\<forall>r. encodeReceipt K r \<noteq> None)"

definition Runner_New :: "Node \<Rightarrow> int \<Rightarrow> bytes \<Rightarrow> bytes \<Rightarrow> Config \<Rightarrow> (string \<Rightarrow> bytes) \<Rightarrow> Runner" where
  "Runner_New n money sk' pk' c pks =
     (let c = (if TimeoutInterval c \<le> 0 then c\<lparr>TimeoutInterval := 30000000000\<rparr> else c);
          c = (if MaxAttempts c = 0 then c\<lparr>MaxAttempts := 3\<rparr> else c)
      in \<lparr>node = n, log = NewLog (of_nat (length (Order n))) (of_int money), sk = sk', pk = pk', cfg = c,
          peerPKs = pks, actionCh = None, events = []\<rparr>)"

section \<open>Whose turn\<close>

definition mySeat :: "Runner \<Rightarrow> u8" where
  "mySeat r = of_int (SeatIdx (node r))"

definition currentRole :: "Runner \<Rightarrow> Role option" where
  "currentRole r = map_option (\<lambda>p. if uint p = SeatIdx (node r) then RoleProposer else RoleVerifier)
     (ExpectedNextPlayer (log r))"

definition currentProposer :: "Runner \<Rightarrow> string option" where
  "currentProposer r = (case ExpectedNextPlayer (log r) of None \<Rightarrow> None | Some p \<Rightarrow> at (Order (node r)) (uint p))"

definition SubmitAction :: "Action \<Rightarrow> Runner \<Rightarrow> (submit_error + Runner) option" where
  "SubmitAction a r =
     (case currentRole r of None \<Rightarrow> None
      | Some role \<Rightarrow>
          if role \<noteq> RoleProposer then Some (Inl ErrNotYourTurn)
          else case Log_state (log r) of None \<Rightarrow> None
          | Some state \<Rightarrow>
              (case ValidateAction state (mySeat r) a of
                 Inl err \<Rightarrow> Some (Inl (ErrIllegalAction err))
               | Inr _ \<Rightarrow>
                   if actionCh r = None then Some (Inr (r\<lparr>actionCh := Some a\<rparr>))
                   else Some (Inl ErrActionAlreadyPending)))"

section \<open>Events\<close>

text \<open>The events channel holds sixteen; a full channel drops.\<close>

definition emit :: "AttemptEvent \<Rightarrow> Runner \<Rightarrow> Runner" where
  "emit ev r = (if length (events r) < 16 then r\<lparr>events := events r @ [ev]\<rparr> else r)"

definition attempt_event :: "u64 \<Rightarrow> u32 \<Rightarrow> string \<Rightarrow> reason \<Rightarrow> AttemptEvent" where
  "attempt_event rid att out why = \<lparr>ev_RoundID = rid, ev_Attempt = att, ev_Outcome = out, ev_Reason = why\<rparr>"

definition actionKindName :: "ActionKind \<Rightarrow> string" where
  "actionKindName k =
     (if k = ActionFold then ''fold'' else if k = ActionCheck then ''check''
      else if k = ActionCall then ''call'' else if k = ActionRaise then ''raise'' else ''unknown'')"

text \<open>The structured fields of the event on the node's bus; \<open>why\<close> renders the reason.\<close>

definition attempt_fields :: "(reason \<Rightarrow> string) \<Rightarrow> AttemptEvent \<Rightarrow> Log \<Rightarrow> (string \<times> string) list" where
  "attempt_fields why ev l =
     [(''round_id'', itoa (unat (ev_RoundID ev))), (''attempt'', itoa (unat (ev_Attempt ev))),
      (''outcome'', ev_Outcome ev), (''reason'', why (ev_Reason ev))] @
     (if ev_Outcome ev = ''committed'' \<and> 0 < length (entries l) then
        let last = entries l ! (length (entries l) - 1) in
        [(''seat'', itoa (unat (PlayerID last))), (''action_kind'', actionKindName (Kind (EAction last))),
         (''action_amount'', itoa (unat (Amount (EAction last))))]
      else [])"

section \<open>Receipts\<close>

definition hostVerifyReceipt ::
  "crypto \<Rightarrow> round_codec \<Rightarrow> Runner \<Rightarrow> u64 \<Rightarrow> u32 \<Rightarrow> (bool \<Rightarrow> (runner_error, 'a) prog) \<Rightarrow> (runner_error, 'a) prog" where
  "hostVerifyReceipt C K r roundID attempt cont =
     (case encodeReceipt K (BuildVerifyReceipt C (log r) (mySeat r) (sk r)) of
        None \<Rightarrow> cont False
      | Some data \<Rightarrow> Host (VerifyKey roundID attempt (nid (node r))) data (cont True))"

text \<open>
  The goroutines of \<^verbatim>\<open>collectVerifyReceipts\<close>, one per other unfolded seat; \<open>first\<close> is \<^verbatim>\<open>firstErr\<close>.
  What a receipt says is not looked at.
\<close>

fun collect_receipts ::
  "string \<Rightarrow> bool list \<Rightarrow> u64 \<Rightarrow> u32 \<Rightarrow> (int \<times> string) list \<Rightarrow> string option \<Rightarrow> (runner_error, string option) prog" where
  "collect_receipts me folded roundID attempt [] first = Return first"
| "collect_receipts me folded roundID attempt ((seatIdx, nodeID) # rest) first =
     (if nodeID = me then collect_receipts me folded roundID attempt rest first
      else case at folded seatIdx of None \<Rightarrow> Fail RunnerPanic
      | Some True \<Rightarrow> collect_receipts me folded roundID attempt rest first
      | Some False \<Rightarrow>
          Read nodeID (VerifyKey roundID attempt nodeID) (\<lambda>v.
            collect_receipts me folded roundID attempt rest
              (case v of Some _ \<Rightarrow> first | None \<Rightarrow> (case first of None \<Rightarrow> Some nodeID | Some e \<Rightarrow> Some e))))"

definition seats_of :: "Node \<Rightarrow> (int \<times> string) list" where
  "seats_of n = zip (map int [0..<length (Order n)]) (Order n)"

definition collectVerifyReceipts :: "Runner \<Rightarrow> u64 \<Rightarrow> u32 \<Rightarrow> (runner_error, string option) prog" where
  "collectVerifyReceipts r roundID attempt =
     (case Log_state (log r) of None \<Rightarrow> Fail RunnerPanic
      | Some state \<Rightarrow> collect_receipts (nid (node r)) (Folded state) roundID attempt (seats_of (node r)) None)"

section \<open>Attempts\<close>

text \<open>From \<^verbatim>\<open>r.log.Append(entry)\<close> on, the proposer and the verifiers do the same.\<close>

definition finish_attempt ::
  "crypto \<Rightarrow> round_codec \<Rightarrow> Runner \<Rightarrow> Entry \<Rightarrow> u64 \<Rightarrow> u32 \<Rightarrow> (runner_error, Runner \<times> attemptOutcome) prog" where
  "finish_attempt C K r entry roundID attempt =
     (let r = r\<lparr>log := Append entry (log r)\<rparr>; back = r\<lparr>log := RollbackLast (log r)\<rparr> in
      hostVerifyReceipt C K r roundID attempt (\<lambda>ok.
        if \<not> ok then Return (back, attemptTimeout EncodeReceipt)
        else bindp (collectVerifyReceipts r roundID attempt) (\<lambda>err.
          case err of Some nodeID \<Rightarrow> Return (back, attemptTimeout (PollVerify nodeID))
          | None \<Rightarrow> Return (r, attemptCommitted))))"

text \<open>\<open>acts\<close> are the actions that arrive before the deadline; the loop ends when they are used up.\<close>

fun runProposerAttempt ::
  "crypto \<Rightarrow> round_codec \<Rightarrow> u64 \<Rightarrow> u32 \<Rightarrow> Action list \<Rightarrow> Runner \<Rightarrow> (runner_error, Runner \<times> attemptOutcome) prog" where
  "runProposerAttempt C K roundID attempt [] r = Return (r, attemptTimeout NoLegalAction)"
| "runProposerAttempt C K roundID attempt (action # acts) r =
     (let entry = BuildProposal C (log r) (mySeat r) action (sk r) in
      case VerifyProposal C (log r) entry (pk r) of
        None \<Rightarrow> Fail RunnerPanic
      | Some (Inl err) \<Rightarrow>
          runProposerAttempt C K roundID attempt acts (emit (attempt_event roundID attempt ''rejected'' (Refused err)) r)
      | Some (Inr _) \<Rightarrow>
          (case encodeEntry K entry of
             None \<Rightarrow> Return (r, attemptTimeout EncodeProposal)
           | Some data \<Rightarrow> Host (ProposalKey roundID attempt) data (finish_attempt C K r entry roundID attempt)))"

text \<open>On an invalid proposal the verifier waits for the deadline and reports a timeout.\<close>

definition runVerifierAttempt ::
  "crypto \<Rightarrow> round_codec \<Rightarrow> u64 \<Rightarrow> u32 \<Rightarrow> Runner \<Rightarrow> (runner_error, Runner \<times> attemptOutcome) prog" where
  "runVerifierAttempt C K roundID attempt r =
     (case currentProposer r of None \<Rightarrow> Fail RunnerPanic
      | Some proposerID \<Rightarrow>
          Read proposerID (ProposalKey roundID attempt) (\<lambda>v.
            case v of None \<Rightarrow> Return (r, attemptTimeout (PollProposal proposerID))
            | Some data \<Rightarrow>
                (case decodeEntry K data of None \<Rightarrow> Return (r, attemptTimeout DecodeProposal)
                 | Some entry \<Rightarrow>
                     (case VerifyProposal C (log r) entry (peerPKs r proposerID) of
                        None \<Rightarrow> Fail RunnerPanic
                      | Some (Inl err) \<Rightarrow> Return (r, attemptTimeout (Refused err))
                      | Some (Inr _) \<Rightarrow> finish_attempt C K r entry roundID attempt))))"

definition runAttempt ::
  "crypto \<Rightarrow> round_codec \<Rightarrow> u64 \<Rightarrow> u32 \<Rightarrow> Action list \<Rightarrow> Runner \<Rightarrow> (runner_error, Runner \<times> attemptOutcome) prog" where
  "runAttempt C K roundID attempt acts r =
     (case currentRole r of None \<Rightarrow> Fail RunnerPanic
      | Some RoleProposer \<Rightarrow> runProposerAttempt C K roundID attempt acts r
      | Some RoleVerifier \<Rightarrow> runVerifierAttempt C K roundID attempt r)"

text \<open>\<^verbatim>\<open>cleanupAttempt\<close> deletes the proposal and the other nodes' receipts from this node's store.\<close>

definition attempt_garbage :: "Node \<Rightarrow> u64 \<Rightarrow> u32 \<Rightarrow> string \<Rightarrow> bool" where
  "attempt_garbage n roundID attempt k \<longleftrightarrow> k = ProposalKey roundID attempt \<or>
     list_ex (\<lambda>nodeID. nodeID \<noteq> nid n \<and> k = VerifyKey roundID attempt nodeID) (Order n)"

definition cleanupAttempt :: "Runner \<Rightarrow> u64 \<Rightarrow> u32 \<Rightarrow> (runner_error, 'a) prog \<Rightarrow> (runner_error, 'a) prog" where
  "cleanupAttempt r roundID attempt cont = Erase (attempt_garbage (node r) roundID attempt) cont"

section \<open>Auto-folds\<close>

fun collect_cosigs ::
  "Runner \<Rightarrow> u64 \<Rightarrow> bytes \<Rightarrow> u8 list \<Rightarrow> bytes list \<Rightarrow> string option \<Rightarrow> (runner_error, string option \<times> bytes list) prog" where
  "collect_cosigs r roundID mySig [] cosigs first = Return (first, cosigs)"
| "collect_cosigs r roundID mySig (seat # seats) cosigs first =
     (if seat = mySeat r then collect_cosigs r roundID mySig seats (cosigs @ [mySig]) first
      else case at (Order (node r)) (uint seat) of None \<Rightarrow> Fail RunnerPanic
      | Some attestorID \<Rightarrow>
          Read attestorID (AutoFoldKey roundID attestorID) (\<lambda>v.
            case v of
              Some data \<Rightarrow> collect_cosigs r roundID mySig seats (cosigs @ [data]) first
            | None \<Rightarrow> collect_cosigs r roundID mySig seats (cosigs @ [[]])
                (case first of None \<Rightarrow> Some attestorID | Some e \<Rightarrow> Some e)))"

text \<open>The keys registered for the expected seats; \<^verbatim>\<open>nil\<close> keys are left out.\<close>

definition attestor_keys :: "Runner \<Rightarrow> u8 list \<Rightarrow> u8 \<rightharpoonup> bytes" where
  "attestor_keys r expected seat =
     (if seat \<in> set expected \<and> peerPKs r (Order (node r) ! unat seat) \<noteq> [] then Some (peerPKs r (Order (node r) ! unat seat))
      else None)"

definition auto_fold_entry :: "u64 \<Rightarrow> u8 \<Rightarrow> u8 list \<Rightarrow> bytes list \<Rightarrow> Entry" where
  "auto_fold_entry roundID targetSeat expected cosigs =
     \<lparr>RoundID = roundID, PlayerID = targetSeat, EAction = \<lparr>Kind = ActionFold, Amount = 0\<rparr>, Signature = [],
      CoSigners = expected, CoSignatures = cosigs, Data = []\<rparr>"

definition driveAutoFold ::
  "crypto \<Rightarrow> u64 \<Rightarrow> u8 \<Rightarrow> Runner \<Rightarrow> (runner_error, reason + Runner) prog" where
  "driveAutoFold C roundID targetSeat r =
     (let mySig = (if mySeat r \<noteq> targetSeat then BuildAutoFoldAttestation C (log r) roundID targetSeat (sk r) else []);
          body = (case ExpectedAutoFoldAttestors (log r) targetSeat of None \<Rightarrow> Fail RunnerPanic
            | Some expected \<Rightarrow>
                if length expected = 0 then Return (Inl NoAttestors)
                else bindp (collect_cosigs r roundID mySig expected [] None) (\<lambda>(first, cosigs).
                  case first of Some e \<Rightarrow> Return (Inl (PollAutoFold e))
                  | None \<Rightarrow>
                      (case AppendAutoFold C (auto_fold_entry roundID targetSeat expected cosigs) (attestor_keys r expected) (log r) of
                         (None, _) \<Rightarrow> Fail RunnerPanic
                       | (Some (Inl err), _) \<Rightarrow> Return (Inl (Refused err))
                       | (Some (Inr _), l) \<Rightarrow> Return (Inr (r\<lparr>log := l\<rparr>)))))
      in if mySeat r \<noteq> targetSeat then Host (AutoFoldKey roundID (nid (node r))) mySig body else body)"

section \<open>Rounds\<close>

text \<open>
  The loop of \<^verbatim>\<open>runRound\<close>: \<open>left\<close> attempts remain, \<open>acts a\<close> arrive during attempt \<open>a\<close>.  A commit
  deletes the previous round's receipts and attestations; running out of attempts auto-folds.
\<close>

fun round_attempts ::
  "crypto \<Rightarrow> round_codec \<Rightarrow> u64 \<Rightarrow> u8 \<Rightarrow> (u32 \<Rightarrow> Action list) \<Rightarrow> nat \<Rightarrow> u32 \<Rightarrow> Runner \<Rightarrow> (runner_error, Runner) prog" where
  "round_attempts C K roundID proposerSeat acts 0 attempt r =
     bindp (driveAutoFold C roundID proposerSeat r) (\<lambda>res.
       case res of Inl why \<Rightarrow> Fail (AutoFoldError why)
       | Inr r \<Rightarrow> Return (emit (attempt_event roundID 0 ''auto_fold'' NoReason) r))"
| "round_attempts C K roundID proposerSeat acts (Suc left) attempt r =
     bindp (runAttempt C K roundID attempt (acts attempt) r) (\<lambda>(r, outcome).
       cleanupAttempt r roundID attempt
         (case outcome of
            attemptCommitted \<Rightarrow>
              let r = emit (attempt_event roundID attempt ''committed'' NoReason) r in
              if 0 < roundID then
                Erase (\<lambda>k. prefix (RoundPrefix (roundID - 1)) k) (Erase (\<lambda>k. prefix (AutoFoldPrefix (roundID - 1)) k) (Return r))
              else Return r
          | attemptTimeout why \<Rightarrow>
              round_attempts C K roundID proposerSeat acts left (attempt + 1)
                (emit (attempt_event roundID attempt ''timeout'' why) r)))"

definition runRound :: "crypto \<Rightarrow> round_codec \<Rightarrow> (u32 \<Rightarrow> Action list) \<Rightarrow> Runner \<Rightarrow> (runner_error, Runner) prog" where
  "runRound C K acts r =
     (case ExpectedNextPlayer (log r) of None \<Rightarrow> Fail RunnerPanic
      | Some proposerSeat \<Rightarrow>
          round_attempts C K (Log_RoundID (log r)) proposerSeat acts (unat (MaxAttempts (cfg r))) 0 r)"

section \<open>The hand\<close>

definition revealStreet :: "Street \<Rightarrow> Runner \<Rightarrow> (runner_error, Runner) prog" where
  "revealStreet street r =
     (let reveal = (\<lambda>p. map_prog RevealError (\<lambda>n. r\<lparr>node := n\<rparr>) p) in
      if street = StreetFlop then reveal (RevealFlop (node r))
      else if street = StreetTurn then reveal (RevealTurn (node r))
      else if street = StreetRiver then reveal (RevealRiver (node r))
      else Return r)"

datatype hand_result = Uncontested int | Shown ShowdownResult | StillPlaying

definition finishHand :: "claim_codec \<Rightarrow> Runner \<Rightarrow> State \<Rightarrow> (runner_error, hand_result) prog" where
  "finishHand J r state =
     (if NumNonFolded state \<le> 1 then
        Return (Uncontested (case find (\<lambda>i. \<not> Folded state ! i) [0..<length (Folded state)] of
          None \<Rightarrow> -1 | Some i \<Rightarrow> int i))
      else map_prog ShowdownError Shown (RunShowdown J (node r) (Folded state)))"

text \<open>
  The loop of \<^verbatim>\<open>Run\<close> after the deal.  \<open>plays\<close> holds the actions of each round in turn; where it runs
  out the result is \<open>StillPlaying\<close>.
\<close>

fun play_hand ::
  "crypto \<Rightarrow> round_codec \<Rightarrow> claim_codec \<Rightarrow> (u32 \<Rightarrow> Action list) list \<Rightarrow> Runner \<Rightarrow> (runner_error, Runner \<times> hand_result) prog" where
  "play_hand C K J [] r =
     (case Log_state (log r) of None \<Rightarrow> Fail RunnerPanic
      | Some preState \<Rightarrow>
          if HandOver preState then bindp (finishHand J r preState) (\<lambda>res. Return (r, res))
          else Return (r, StillPlaying))"
| "play_hand C K J (acts # plays) r =
     (case Log_state (log r) of None \<Rightarrow> Fail RunnerPanic
      | Some preState \<Rightarrow>
          if HandOver preState then bindp (finishHand J r preState) (\<lambda>res. Return (r, res))
          else bindp (runRound C K acts r) (\<lambda>r.
            case Log_state (log r) of None \<Rightarrow> Fail RunnerPanic
            | Some postState \<Rightarrow>
                bindp (if Street postState \<noteq> Street preState then revealStreet (Street postState) r else Return r)
                  (play_hand C K J plays)))"

section \<open>Everything a program can return\<close>

primrec outs :: "('e, 'r) prog \<Rightarrow> ('e + 'r) set" where
  "outs (Return r) = {Inr r}"
| "outs (Fail e) = {Inl e}"
| "outs (Read t k f) = (\<Union>v. outs (f v))"
| "outs (Host k v p) = outs p"
| "outs (Local k f) = (\<Union>v. outs (f v))"
| "outs (Erase d p) = outs p"

lemma outs_bindp: "outs (bindp p g) = {x. (\<exists>e. x = Inl e \<and> Inl e \<in> outs p) \<or> (\<exists>a. Inr a \<in> outs p \<and> x \<in> outs (g a))}"
  by (induction p) auto

lemma outs_bindpE:
  assumes "x \<in> outs (bindp p g)"
  obtains e where "x = Inl e" "Inl e \<in> outs p" | a where "Inr a \<in> outs p" "x \<in> outs (g a)"
  using assms by (auto simp: outs_bindp)

lemma outs_map_prog: "outs (map_prog f g p) = map_sum f g ` outs p"
  by (induction p) auto

text \<open>Whatever the interleaving, and whichever reads fail, a process only narrows what it can return.\<close>

lemma net_any_outs:
  assumes "net_any s s'" "i < length (snd s)"
  shows "length (snd s') = length (snd s) \<and> outs (snd (snd s' ! i)) \<subseteq> outs (snd (snd s ! i))"
  using assms
proof (induction rule: net_any.induct)
  case (any_step s s')
  then show ?case by (induction rule: net_step.induct) (auto simp: nth_list_update split: if_splits)
qed (auto simp: nth_list_update)

lemma net_run_outs:
  assumes "net_any\<^sup>*\<^sup>* s s'" "i < length (snd s)"
  shows "length (snd s') = length (snd s) \<and> outs (snd (snd s' ! i)) \<subseteq> outs (snd (snd s ! i))"
  using assms(1)
proof (induction rule: rtranclp_induct)
  case (step s' s'')
  then show ?case using net_any_outs [of s' s'' i] assms(2) by auto
qed simp

section \<open>Attempts are all or nothing\<close>

text \<open>A runner at a table of its log's size.\<close>

definition seated :: "crypto \<Rightarrow> u8 \<Rightarrow> u64 \<Rightarrow> Runner \<Rightarrow> bool" where
  "seated C n st r \<longleftrightarrow> accepted C n st (log r) \<and> length (Order (node r)) = unat n \<and> 0 < unat n"

lemma Log_state_folded:
  assumes "accepted C n st l" "Log_state l = Some s"
  shows "length (Folded s) = unat n"
  using assms Replay_shape accepted_log_ok [OF assms(1)] by (auto simp: Log_state_def log_ok_def shape_def)

lemma ExpectedNextPlayer_lt:
  assumes "accepted C n st l" "0 < unat n" "ExpectedNextPlayer l = Some q"
  shows "unat q < unat n"
proof -
  have n: "numPlayers l = n" using accepted_log_ok [OF assms(1)] by (simp add: log_ok_def)
  have small: "unat (of_nat x :: u8) < unat n" if "x < unat n" for x
  proof -
    have "unat n < 256" using unsigned_less [of n, where 'a = nat] by simp
    then show ?thesis using that by (simp add: unat_of_nat)
  qed
  obtain s where "Log_state l = Some s" using log_ok_total(1) [OF accepted_log_ok [OF assms(1)]] by blast
  then show ?thesis using assms(2, 3) small n
    by (auto simp: ExpectedNextPlayer_def Let_def find_Some_iff split: if_splits option.splits)
qed

lemma collect_receipts_outs:
  assumes "\<forall>(i, x) \<in> set seats. 0 \<le> i \<and> i < int (length folded)"
  shows "x \<in> outs (collect_receipts me folded rid att seats first) \<Longrightarrow> \<exists>r. x = Inr r"
  using assms
proof (induction me folded rid att seats first rule: collect_receipts.induct)
  case (2 me folded rid att i nodeID rest first)
  then have "at folded i = Some (folded ! nat i)" by (simp add: at_def)
  then show ?case using 2 by (auto split: if_splits bool.splits)
qed simp

lemma seats_of_bounds: "\<forall>(i, x) \<in> set (seats_of n). 0 \<le> i \<and> i < int (length (Order n))"
  by (auto simp: seats_of_def set_zip)

lemma finish_attempt_outs:
  assumes r: "seated C n st r" and e: "VerifyProposal C (log r) e key = Some (Inr ())"
    and x: "x \<in> outs (finish_attempt C K r e rid att)"
  shows "x = Inr (r\<lparr>log := Append e (log r)\<rparr>, attemptCommitted) \<or> (\<exists>why. x = Inr (r, attemptTimeout why))"
proof -
  let ?l = "Append e (log r)" and ?r = "r\<lparr>log := Append e (log r)\<rparr>"
  have acc: "accepted C n st ?l" using r e by (auto simp: seated_def intro: accepted_proposal)
  obtain s where s: "Log_state ?l = Some s" using log_ok_total(1) [OF accepted_log_ok [OF acc]] by blast
  have undo: "r\<lparr>log := RollbackLast ?l\<rparr> = r" by (simp add: RollbackLast_def Append_def)
  have "length (Folded s) = length (Order (node r))" using Log_state_folded [OF acc s] r by (simp add: seated_def)
  then have seats: "\<forall>(i, x) \<in> set (seats_of (node r)). 0 \<le> i \<and> i < int (length (Folded s))"
    using seats_of_bounds [of "node r"] by simp
  have "\<exists>v. y = Inr v" if "y \<in> outs (collectVerifyReceipts ?r rid att)" for y
    using collect_receipts_outs [OF seats] that s by (simp add: collectVerifyReceipts_def)
  then show ?thesis using x undo
    by (auto simp: finish_attempt_def hostVerifyReceipt_def outs_bindp Let_def split: option.splits if_splits)
qed

lemma node_emit [simp]: "node (emit ev r) = node r" "log (emit ev r) = log r" "cfg (emit ev r) = cfg r"
  by (simp_all add: emit_def)

lemma seated_emit [simp]: "seated C n st (emit ev r) \<longleftrightarrow> seated C n st r"
  by (simp add: seated_def)

text \<open>What an attempt may come back with: the log with one verified proposal more, or the log as it was.\<close>

definition attempt_result :: "crypto \<Rightarrow> Runner \<Rightarrow> Runner \<Rightarrow> attemptOutcome \<Rightarrow> bool" where
  "attempt_result C r r' out \<longleftrightarrow> node r' = node r \<and> cfg r' = cfg r \<and>
     (case out of attemptTimeout why \<Rightarrow> log r' = log r
      | attemptCommitted \<Rightarrow> \<exists>e key. VerifyProposal C (log r) e key = Some (Inr ()) \<and> log r' = Append e (log r))"

lemma attempt_result_emit [simp]: "attempt_result C (emit ev r) r' out \<longleftrightarrow> attempt_result C r r' out"
  by (cases out) (simp_all add: attempt_result_def)

lemma finish_attempt_result:
  assumes "seated C n st r" "VerifyProposal C (log r) e key = Some (Inr ())" "x \<in> outs (finish_attempt C K r e rid att)"
  shows "\<exists>r' out. x = Inr (r', out) \<and> attempt_result C r r' out"
  using finish_attempt_outs [OF assms]
proof (elim disjE exE)
  assume "x = Inr (r\<lparr>log := Append e (log r)\<rparr>, attemptCommitted)"
  moreover have "attempt_result C r (r\<lparr>log := Append e (log r)\<rparr>) attemptCommitted"
    unfolding attempt_result_def using assms(2) by simp blast
  ultimately show ?thesis by blast
qed (simp add: attempt_result_def)

lemma proposer_result:
  assumes "seated C n st r" "x \<in> outs (runProposerAttempt C K rid att acts r)"
  shows "\<exists>r' out. x = Inr (r', out) \<and> attempt_result C r r' out"
  using assms
proof (induction acts arbitrary: r)
  case (Cons a acts)
  let ?e = "BuildProposal C (log r) (mySeat r) a (sk r)"
  have "accepted C n st (log r)" using Cons.prems(1) by (simp add: seated_def)
  then have "VerifyProposal C (log r) ?e (pk r) \<noteq> None" by (rule log_ok_total(3) [OF accepted_log_ok])
  then obtain z where z: "VerifyProposal C (log r) ?e (pk r) = Some z" by blast
  show ?case
  proof (cases z)
    case (Inl err)
    let ?r = "emit (attempt_event rid att ''rejected'' (Refused err)) r"
    have "x \<in> outs (runProposerAttempt C K rid att acts ?r)" using Cons.prems(2) z Inl by simp
    then show ?thesis using Cons.IH [of ?r] Cons.prems(1) by simp
  next
    case (Inr u)
    then have v: "VerifyProposal C (log r) ?e (pk r) = Some (Inr ())" using z by simp
    show ?thesis
    proof (cases "encodeEntry K ?e")
      case None
      then show ?thesis using Cons.prems(2) v by (simp add: attempt_result_def)
    next
      case (Some data)
      then have "x \<in> outs (finish_attempt C K r ?e rid att)" using Cons.prems(2) v by simp
      then show ?thesis by (rule finish_attempt_result [OF Cons.prems(1) v])
    qed
  qed
qed (simp add: attempt_result_def)

lemma verifier_result:
  assumes r: "seated C n st r" and x: "x \<in> outs (runVerifierAttempt C K rid att r)"
  shows "\<exists>r' out. x = Inr (r', out) \<and> attempt_result C r r' out"
proof -
  have acc: "accepted C n st (log r)" using r by (simp add: seated_def)
  obtain q where q: "ExpectedNextPlayer (log r) = Some q" using log_ok_total(2) [OF accepted_log_ok [OF acc]] by blast
  have "unat q < length (Order (node r))" using ExpectedNextPlayer_lt [OF acc _ q] r by (simp add: seated_def)
  then have "int (unat q) < int (length (Order (node r)))" by (simp only: of_nat_less_iff)
  then have "uint q < int (length (Order (node r)))" by simp
  then obtain pid where pid: "currentProposer r = Some pid" using q by (auto simp: currentProposer_def at_def)
  note tot = log_ok_total(3) [OF accepted_log_ok [OF acc], of C]
  have same: "attempt_result C r r (attemptTimeout why)" for why by (simp add: attempt_result_def)
  obtain v where v: "x \<in> outs (case v of None \<Rightarrow> Return (r, attemptTimeout (PollProposal pid))
      | Some data \<Rightarrow> (case decodeEntry K data of None \<Rightarrow> Return (r, attemptTimeout DecodeProposal)
        | Some entry \<Rightarrow> (case VerifyProposal C (log r) entry (peerPKs r pid) of None \<Rightarrow> Fail RunnerPanic
          | Some (Inl err) \<Rightarrow> Return (r, attemptTimeout (Refused err))
          | Some (Inr _) \<Rightarrow> finish_attempt C K r entry rid att)))"
    using x pid by (auto simp: runVerifierAttempt_def)
  show ?thesis
  proof (cases "v = None \<or> decodeEntry K (the v) = None")
    case True
    then show ?thesis using v same by (auto split: option.splits)
  next
    case False
    then obtain data entry where d: "v = Some data" "decodeEntry K data = Some entry" by auto
    then show ?thesis
      using v same tot [of entry "peerPKs r pid"] finish_attempt_result [OF r, of entry "peerPKs r pid" x]
      by (cases "VerifyProposal C (log r) entry (peerPKs r pid)") (auto split: sum.splits)
  qed
qed

lemma runAttempt_result:
  assumes "seated C n st r" "x \<in> outs (runAttempt C K rid att acts r)"
  shows "\<exists>r' out. x = Inr (r', out) \<and> attempt_result C r r' out"
proof -
  have "accepted C n st (log r)" using assms(1) by (simp add: seated_def)
  then obtain q where "ExpectedNextPlayer (log r) = Some q" using log_ok_total(2) [OF accepted_log_ok] by blast
  then show ?thesis
    using assms(2) proposer_result [OF assms(1)] verifier_result [OF assms(1)]
    by (auto simp: runAttempt_def currentRole_def split: if_splits)
qed

lemma attempt_result_seated:
  assumes "seated C n st r" "attempt_result C r r' out"
  shows "seated C n st r'"
  using assms by (cases out) (auto simp: attempt_result_def seated_def intro: accepted_proposal)

section \<open>A round adds one entry\<close>

lemma seat_at: "unat seat < length xs \<Longrightarrow> at xs (uint seat) = Some (xs ! unat seat)" for seat :: u8
  using at_nth [of "unat seat" xs] by simp

lemma collect_cosigs_outs:
  assumes "\<forall>seat \<in> set seats. unat seat < length (Order (node r))"
  shows "x \<in> outs (collect_cosigs r rid mySig seats cosigs first) \<Longrightarrow> \<exists>v. x = Inr v"
  using assms
proof (induction seats arbitrary: cosigs first)
  case (Cons seat seats)
  then show ?case by (auto simp: seat_at split: if_splits option.splits)
qed simp

lemma expected_seats:
  assumes "accepted C n st l" "ExpectedAutoFoldAttestors l t = Some expected" "seat \<in> set expected"
  shows "unat seat < unat n"
proof -
  have "numPlayers l = n" using accepted_log_ok [OF assms(1)] by (simp add: log_ok_def)
  then obtain x where x: "x < unat n" "seat = of_nat x"
    using assms(2, 3) by (auto simp: ExpectedAutoFoldAttestors_def split: option.splits)
  moreover have "unat n < 256" using unsigned_less [of n, where 'a = nat] by simp
  ultimately show ?thesis by (simp add: unat_of_nat)
qed

lemma driveAutoFold_result:
  assumes r: "seated C n st r" and x: "x \<in> outs (driveAutoFold C rid t r)"
  shows "(\<exists>why. x = Inr (Inl why)) \<or> (\<exists>e l. x = Inr (Inr (r\<lparr>log := l\<rparr>)) \<and> accepted C n st l \<and> l = Append e (log r))"
proof -
  have acc: "accepted C n st (log r)" using r by (simp add: seated_def)
  obtain s where "Log_state (log r) = Some s" using log_ok_total(1) [OF accepted_log_ok [OF acc]] by blast
  then obtain expected where ex: "ExpectedAutoFoldAttestors (log r) t = Some expected"
    by (simp add: ExpectedAutoFoldAttestors_def)
  have seats: "\<forall>seat \<in> set expected. unat seat < length (Order (node r))"
    using expected_seats [OF acc ex] r by (simp add: seated_def)
  define sig where "sig = (if mySeat r \<noteq> t then BuildAutoFoldAttestation C (log r) rid t (sk r) else [])"
  have "x = Inr (Inl NoAttestors) \<or> (\<exists>first cosigs. x \<in> outs (case first of Some e \<Rightarrow> Return (Inl (PollAutoFold e))
      | None \<Rightarrow> (case AppendAutoFold C (auto_fold_entry rid t expected cosigs) (attestor_keys r expected) (log r) of
           (None, _) \<Rightarrow> Fail RunnerPanic | (Some (Inl err), _) \<Rightarrow> Return (Inl (Refused err))
         | (Some (Inr _), l) \<Rightarrow> Return (Inr (r\<lparr>log := l\<rparr>)))))"
    using x ex collect_cosigs_outs [OF seats, of _ rid sig "[]" None]
    by (auto simp: driveAutoFold_def Let_def outs_bindp sig_def split: if_splits)
  then show ?thesis
  proof (elim disjE exE)
    fix first cosigs
    let ?A = "AppendAutoFold C (auto_fold_entry rid t expected cosigs) (attestor_keys r expected) (log r)"
    assume y: "x \<in> outs (case first of Some e \<Rightarrow> Return (Inl (PollAutoFold e))
      | None \<Rightarrow> (case ?A of (None, _) \<Rightarrow> Fail RunnerPanic | (Some (Inl err), _) \<Rightarrow> Return (Inl (Refused err))
         | (Some (Inr _), l) \<Rightarrow> Return (Inr (r\<lparr>log := l\<rparr>))))"
    obtain res l where A: "?A = (res, l)" by (cases ?A)
    obtain v where v: "VerifyAutoFoldEntry C (log r) (auto_fold_entry rid t expected cosigs) (attestor_keys r expected) = Some v"
      using log_ok_total(4) [OF accepted_log_ok [OF acc]] by blast
    have "res \<noteq> None" using A by (cases v) (auto simp: AppendAutoFold_def v)
    then obtain z where z: "res = Some z" by blast
    show ?thesis
    proof (cases "\<exists>u. z = Inr u")
      case True
      then have ok: "?A = (Some (Inr ()), l)" using A z by simp
      have "accepted C n st l" by (rule accepted_auto_fold [OF acc ok])
      moreover have "l = Append (auto_fold_entry rid t expected cosigs) (log r)" by (rule AppendAutoFold_OK(2) [OF ok])
      ultimately show ?thesis using y ok by (cases first) auto
    next
      case False
      then obtain err where "z = Inl err" by (cases z) auto
      then show ?thesis using y A z by (cases first) auto
    qed
  qed simp
qed

text \<open>One round: an error from the auto-fold, or exactly one more entry.\<close>

lemma round_attempts_result:
  assumes "seated C n st r" "x \<in> outs (round_attempts C K rid p acts left att r)"
  shows "(\<exists>why. x = Inl (AutoFoldError why)) \<or>
    (\<exists>r' e. x = Inr r' \<and> seated C n st r' \<and> node r' = node r \<and> log r' = Append e (log r))"
  using assms
proof (induction left arbitrary: r att)
  case 0
  from 0(2) [unfolded round_attempts.simps] show ?case
  proof (rule outs_bindpE)
    fix a assume a: "Inr a \<in> outs (driveAutoFold C rid p r)"
      and x: "x \<in> outs (case a of Inl why \<Rightarrow> Fail (AutoFoldError why)
        | Inr r \<Rightarrow> Return (emit (attempt_event rid 0 ''auto_fold'' NoReason) r))"
    show ?thesis using driveAutoFold_result [OF 0(1) a] x 0(1) by (cases a) (auto simp: seated_def)
  qed (use driveAutoFold_result [OF 0(1)] in blast)
next
  case (Suc left)
  obtain r' out where res: "attempt_result C r r' out"
    and "x \<in> outs (cleanupAttempt r' rid att (case out of
            attemptCommitted \<Rightarrow>
              let r = emit (attempt_event rid att ''committed'' NoReason) r' in
              if 0 < rid then
                Erase (\<lambda>k. prefix (RoundPrefix (rid - 1)) k) (Erase (\<lambda>k. prefix (AutoFoldPrefix (rid - 1)) k) (Return r))
              else Return r
          | attemptTimeout why \<Rightarrow> round_attempts C K rid p acts left (att + 1)
                (emit (attempt_event rid att ''timeout'' why) r')))"
    by (rule outs_bindpE [OF Suc.prems(2) [unfolded round_attempts.simps]])
      (use runAttempt_result [OF Suc.prems(1)] in fastforce)+
  then have x: "x \<in> outs (case out of attemptCommitted \<Rightarrow> Return (emit (attempt_event rid att ''committed'' NoReason) r')
      | attemptTimeout why \<Rightarrow> round_attempts C K rid p acts left (att + 1) (emit (attempt_event rid att ''timeout'' why) r'))"
    by (cases out) (auto simp: cleanupAttempt_def Let_def split: if_splits)
  have r': "seated C n st r'" by (rule attempt_result_seated [OF Suc.prems(1) res])
  show ?case
  proof (cases out)
    case attemptCommitted
    then show ?thesis using x res r' by (auto simp: attempt_result_def)
  next
    case (attemptTimeout why)
    let ?r = "emit (attempt_event rid att ''timeout'' why) r'"
    have "x \<in> outs (round_attempts C K rid p acts left (att + 1) ?r)" using x attemptTimeout by simp
    from Suc.IH [OF _ this] r' res attemptTimeout show ?thesis by (simp add: attempt_result_def)
  qed
qed

lemma runRound_result:
  assumes "seated C n st r" "x \<in> outs (runRound C K acts r)"
  shows "(\<exists>why. x = Inl (AutoFoldError why)) \<or>
    (\<exists>r' e. x = Inr r' \<and> seated C n st r' \<and> node r' = node r \<and> log r' = Append e (log r))"
proof -
  have "accepted C n st (log r)" using assms(1) by (simp add: seated_def)
  then obtain q where "ExpectedNextPlayer (log r) = Some q" using log_ok_total(2) [OF accepted_log_ok] by blast
  then show ?thesis using assms(2) round_attempts_result [OF assms(1)] by (simp add: runRound_def)
qed

text \<open>Revealing a street changes the board and nothing else.\<close>

lemma index_or_panic_outs: "x \<in> outs (index_or_panic xs i g) \<Longrightarrow> x = Inl GoPanic \<or> (\<exists>y. x \<in> outs (g y))"
  by (auto simp: index_or_panic_def split: option.splits)

lemma Poll_outs: "x \<in> outs (Poll e t k f) \<Longrightarrow> x = Inl e \<or> (\<exists>v. x \<in> outs (f v))"
  by (auto simp: Poll_def split: option.splits)

lemma set_community_outs: "Inr m \<in> outs (set_community i c n) \<Longrightarrow> \<exists>cs. m = n\<lparr>community := cs\<rparr>"
  by (auto simp: set_community_def setCommunity_def Let_def split: if_splits)

lemma RevealCommunityCard_outs:
  assumes "Inr m \<in> outs (RevealCommunityCard i n)"
  shows "\<exists>cs. m = n\<lparr>community := cs\<rparr>"
  using assms
  by (auto simp: RevealCommunityCard_def Let_def split: if_splits
      dest!: index_or_panic_outs Poll_outs dest: set_community_outs)

lemma reveal_all_outs: "Inr m \<in> outs (reveal_all is n) \<Longrightarrow> \<exists>cs. m = n\<lparr>community := cs\<rparr>"
proof (induction "is" arbitrary: n)
  case Nil
  then show ?case by (auto intro!: exI [of _ "community n"])
next
  case (Cons i "is")
  then show ?case by (fastforce simp: outs_bindp dest!: RevealCommunityCard_outs)
qed

lemma revealStreet_outs:
  assumes "x \<in> outs (revealStreet street r)" "seated C n st r"
  shows "(\<exists>e. x = Inl (RevealError e)) \<or> (\<exists>r'. x = Inr r' \<and> seated C n st r' \<and> log r' = log r)"
proof -
  have one: "RevealCommunityCard i m = reveal_all [i] m" for i m
  proof -
    have "reveal_all [] = Return" by (rule ext) simp
    then show ?thesis by (simp add: bindp_Return)
  qed
  have "x = Inr r \<or> (\<exists>y is. x = map_sum RevealError (\<lambda>m. r\<lparr>node := m\<rparr>) y \<and> y \<in> outs (reveal_all is (node r)))"
    using assms(1) unfolding revealStreet_def RevealFlop_def RevealTurn_def RevealRiver_def Let_def one outs_map_prog
      if_distrib [of outs] by (auto simp: outs_map_prog image_iff simp del: reveal_all.simps split: if_splits)
  then show ?thesis
  proof (elim disjE exE conjE)
    fix y "is" assume y: "x = map_sum RevealError (\<lambda>m. r\<lparr>node := m\<rparr>) y" "y \<in> outs (reveal_all is (node r))"
    then show ?thesis using assms(2) by (cases y) (auto simp: seated_def dest!: reveal_all_outs)
  qed (use assms(2) in simp)
qed

lemma open_log_short:
  assumes "accepted C n st l" "2 \<le> unat n" "unat n * unat st < 2 ^ 64" "Log_state l = Some s" "\<not> HandOver s"
  shows "length (entries l) < 4 * unat n + unat n * (unat n * unat st)"
  using legal_length [OF _ assms(2, 3) _ assms(5)] accepted_log_ok [OF assms(1)] assms(4)
  by (auto simp: log_ok_def Log_state_def)

lemma finishHand_outs: "Inr res \<in> outs (finishHand J r s) \<Longrightarrow> res \<noteq> StillPlaying"
  by (auto simp: finishHand_def outs_map_prog image_iff split: if_splits) (metis map_sum.simps sum.distinct(1) sum.inject(2) hand_result.distinct sum.exhaust)

lemma seated_state:
  assumes "seated C n st r"
  shows "\<exists>s. Log_state (log r) = Some s"
proof -
  have "accepted C n st (log r)" using assms by (simp add: seated_def)
  then show ?thesis by (rule log_ok_total(1) [OF accepted_log_ok])
qed

lemma play_hand_result:
  assumes "seated C n st r" "Inr (r', res) \<in> outs (play_hand C K J plays r)"
  shows "seated C n st r' \<and> length (entries (log r)) \<le> length (entries (log r')) \<and>
    (if res = StillPlaying then length (entries (log r')) = length (entries (log r)) + length plays \<and>
       (\<exists>s. Log_state (log r') = Some s \<and> \<not> HandOver s)
     else \<exists>s. Log_state (log r') = Some s \<and> HandOver s)"
  using assms
proof (induction plays arbitrary: r)
  case Nil
  obtain s where "Log_state (log r) = Some s"
    using seated_state [OF Nil(1)] by blast
  then show ?case using Nil by (auto simp: outs_bindp split: if_splits dest: finishHand_outs)
next
  case (Cons acts plays)
  obtain s where s: "Log_state (log r) = Some s"
    using seated_state [OF Cons.prems(1)] by blast
  show ?case
  proof (cases "HandOver s")
    case True
    then show ?thesis using Cons.prems s by (auto simp: outs_bindp dest: finishHand_outs)
  next
    case False
    then obtain r1 where r1: "Inr r1 \<in> outs (runRound C K acts r)"
      "Inr (r', res) \<in> outs (case Log_state (log r1) of None \<Rightarrow> Fail RunnerPanic
        | Some postState \<Rightarrow> bindp (if Street postState \<noteq> Street s then revealStreet (Street postState) r1 else Return r1)
            (play_hand C K J plays))"
      using Cons.prems(2) s by (auto simp: outs_bindp)
    obtain e where e: "seated C n st r1" "log r1 = Append e (log r)"
      using runRound_result [OF Cons.prems(1) r1(1)] by auto
    obtain s1 where s1: "Log_state (log r1) = Some s1"
      using seated_state [OF e(1)] by blast
    obtain r2 where r2: "Inr r2 \<in> outs (if Street s1 \<noteq> Street s then revealStreet (Street s1) r1 else Return r1)"
      "Inr (r', res) \<in> outs (play_hand C K J plays r2)"
      using r1(2) s1 by (auto simp: outs_bindp)
    then have r2': "seated C n st r2" "log r2 = log r1"
      using revealStreet_outs [OF _ e(1)] e(1) by (auto split: if_splits)
    have "length (entries (log r2)) = Suc (length (entries (log r)))" using r2'(2) e(2) by (simp add: Append_def)
    then show ?thesis using Cons.IH [OF r2'(1) r2(2)] by (auto split: if_splits)
  qed
qed

lemma finishHand_no_panic: "Inl RunnerPanic \<notin> outs (finishHand J r s)"
proof -
  have "Inl RunnerPanic \<noteq> map_sum ShowdownError f y" for y :: "showdown_error + ShowdownResult" and f :: "_ \<Rightarrow> hand_result"
    by (cases y) auto
  then show ?thesis by (simp add: finishHand_def outs_map_prog image_iff)
qed

lemma play_hand_no_panic: "seated C n st r \<Longrightarrow> Inl RunnerPanic \<notin> outs (play_hand C K J plays r)"
proof (induction plays arbitrary: r)
  case Nil
  obtain s where "Log_state (log r) = Some s" using seated_state [OF Nil] by blast
  then show ?case using finishHand_no_panic by (auto simp: outs_bindp)
next
  case (Cons acts plays)
  obtain s where s: "Log_state (log r) = Some s" using seated_state [OF Cons.prems] by blast
  have later: "Inl RunnerPanic \<notin> outs (case Log_state (log r1) of None \<Rightarrow> Fail RunnerPanic
      | Some postState \<Rightarrow> bindp (if Street postState \<noteq> Street s then revealStreet (Street postState) r1 else Return r1)
          (play_hand C K J plays))"
    if r1: "seated C n st r1" for r1
  proof -
    obtain s1 where "Log_state (log r1) = Some s1" using seated_state [OF r1] by blast
    then show ?thesis using revealStreet_outs [OF _ r1] Cons.IH r1 by (fastforce simp: outs_bindp split: if_splits)
  qed
  have "Inl RunnerPanic \<notin> outs (runRound C K acts r)" using runRound_result [OF Cons.prems] by auto
  moreover have "seated C n st r1" if "Inr r1 \<in> outs (runRound C K acts r)" for r1
    using runRound_result [OF Cons.prems that] by auto
  ultimately show ?case using later s finishHand_no_panic by (auto simp: outs_bindp)
qed

end
