(* ===== verification/Round_Live.thy ===== *)
theory Round_Live
  imports Runner
begin

text \<open>
  Runs of a table of runners.  Where nobody gives up, an attempt with a legal first action commits the
  same entry at every node, and an auto-fold appends the same entry at every node; both are instances
  of the network lemmas of \<open>Poll_Network\<close>.  The concrete runs at the end show where that stops: a node
  that gives up late splits the table, and a folded seat can be left behind.
\<close>

section \<open>A table of runners\<close>

text \<open>One runner per seat, with the same log and the public keys of all of them.\<close>

definition round_table :: "(bytes \<Rightarrow> bytes) \<Rightarrow> string list \<Rightarrow> Log \<Rightarrow> (nat \<Rightarrow> Runner) \<Rightarrow> bool" where
  "round_table pub ids l rs \<longleftrightarrow> distinct ids \<and> 0 < length ids \<and> length ids < 256 \<and>
     (\<forall>i < length ids. nid (node (rs i)) = ids ! i \<and> Order (node (rs i)) = ids \<and> SeatIdx (node (rs i)) = int i \<and>
        log (rs i) = l \<and> pk (rs i) = pub (sk (rs i)) \<and>
        (\<forall>j < length ids. peerPKs (rs i) (ids ! j) = pub (sk (rs j))))"

lemma round_tableD:
  assumes "round_table pub ids l rs"
  shows "distinct ids" "0 < length ids" "length ids < 256" "i < length ids \<Longrightarrow> nid (node (rs i)) = ids ! i"
    "i < length ids \<Longrightarrow> Order (node (rs i)) = ids" "i < length ids \<Longrightarrow> SeatIdx (node (rs i)) = int i"
    "i < length ids \<Longrightarrow> log (rs i) = l" "i < length ids \<Longrightarrow> pk (rs i) = pub (sk (rs i))"
    "i < length ids \<Longrightarrow> j < length ids \<Longrightarrow> peerPKs (rs i) (ids ! j) = pub (sk (rs j))"
  using assms by (auto simp: round_table_def)

definition attempt_net ::
  "crypto \<Rightarrow> round_codec \<Rightarrow> string list \<Rightarrow> u64 \<Rightarrow> u32 \<Rightarrow> (nat \<Rightarrow> Action list) \<Rightarrow> (nat \<Rightarrow> Runner) \<Rightarrow> world \<Rightarrow>
    (runner_error, Runner \<times> attemptOutcome) net" where
  "attempt_net C K ids rid att acts rs w =
     (w, map (\<lambda>i. (ids ! i, runAttempt C K rid att (acts i) (rs i))) [0..<length ids])"

definition receipt_polls :: "string list \<Rightarrow> u64 \<Rightarrow> u32 \<Rightarrow> bool list \<Rightarrow> nat \<Rightarrow> event list" where
  "receipt_polls ids rid att folded i =
     map (\<lambda>j. Polled (ids ! j) (VerifyKey rid att (ids ! j))) (filter (\<lambda>j. j \<noteq> i \<and> \<not> folded ! j) [0..<length ids])"

lemma collect_receipts_trace:
  assumes "distinct ids" "i < length ids" "length folded = length ids"
    "\<forall>j \<in> set js. j < length ids \<and> E (ids ! j) (VerifyKey rid att (ids ! j)) \<noteq> None"
  shows "trace E me (collect_receipts (ids ! i) folded rid att (map (\<lambda>j. (int j, ids ! j)) js) None) H =
    Some (map (\<lambda>j. Polled (ids ! j) (VerifyKey rid att (ids ! j))) (filter (\<lambda>j. j \<noteq> i \<and> \<not> folded ! j) js), Inr None)"
  using assms(4)
proof (induction js)
  case (Cons j js)
  have j: "j < length ids" "at folded (int j) = Some (folded ! j)" using Cons.prems assms(3) at_nth by auto
  obtain v where v: "E (ids ! j) (VerifyKey rid att (ids ! j)) = Some v" using Cons.prems by auto
  show ?case
    using Cons j v assms(1, 2) by (auto simp: nth_eq_iff_index_eq split: bool.split)
qed simp

lemma seats_of_map: "seats_of n = map (\<lambda>j. (int j, Order n ! j)) [0..<length (Order n)]"
  by (rule nth_equalityI) (simp_all add: seats_of_def)

lemma finish_attempt_trace:
  assumes tab: "round_table pub ids l rs" and i: "i < length ids" and K: "round_codec_ok K"
    and st: "Log_state (Append e l) = Some s'" "length (Folded s') = length ids"
    and E: "E (ids ! i) (VerifyKey rid att (ids ! i)) = encodeReceipt K (BuildVerifyReceipt C (Append e l) (mySeat (rs i)) (sk (rs i)))"
      "\<forall>j < length ids. E (ids ! j) (VerifyKey rid att (ids ! j)) \<noteq> None"
  shows "trace E (ids ! i) (finish_attempt C K (rs i) e rid att) H =
    Some (Hosted (VerifyKey rid att (ids ! i)) # receipt_polls ids rid att (Folded s') i,
      Inr ((rs i)\<lparr>log := Append e l\<rparr>, attemptCommitted))"
proof -
  note D = round_tableD [OF tab]
  obtain b where b: "encodeReceipt K (BuildVerifyReceipt C (Append e l) (mySeat (rs i)) (sk (rs i))) = Some b"
    using K by (auto simp: round_codec_ok_def)
  have "trace E (ids ! i) (collectVerifyReceipts ((rs i)\<lparr>log := Append e l\<rparr>) rid att) H' =
      Some (receipt_polls ids rid att (Folded s') i, Inr None)" for H'
    using collect_receipts_trace [OF D(1) i st(2), of "[0..<length ids]" E rid att "ids ! i" H'] E(2)
    by (simp add: collectVerifyReceipts_def st(1) seats_of_map D(4,5) [OF i] receipt_polls_def)
  then have "trace E (ids ! i) (bindp (collectVerifyReceipts ((rs i)\<lparr>log := Append e l\<rparr>) rid att) (\<lambda>err.
        case err of Some nodeID \<Rightarrow> Return ((rs i)\<lparr>log := RollbackLast (Append e l)\<rparr>, attemptTimeout (PollVerify nodeID))
          | None \<Rightarrow> Return ((rs i)\<lparr>log := Append e l\<rparr>, attemptCommitted))) H' =
      Some (receipt_polls ids rid att (Folded s') i @ [], Inr ((rs i)\<lparr>log := Append e l\<rparr>, attemptCommitted))" for H'
    by (rule trace_bindp) simp
  then show ?thesis
    using E(1) b by (simp add: finish_attempt_def hostVerifyReceipt_def Let_def D(4,7) [OF i] mySeat_def)
qed

section \<open>An honest attempt\<close>

text \<open>What the attempt publishes: the proposal, then everybody's receipt.\<close>

definition attempt_files ::
  "crypto \<Rightarrow> round_codec \<Rightarrow> string list \<Rightarrow> u64 \<Rightarrow> u32 \<Rightarrow> (nat \<Rightarrow> Runner) \<Rightarrow> Log \<Rightarrow> nat \<Rightarrow> Entry \<Rightarrow> file_list" where
  "attempt_files C K ids rid att rs l p e =
     ((ids ! p, ProposalKey rid att), the (encodeEntry K e)) #
     map (\<lambda>j. ((ids ! j, VerifyKey rid att (ids ! j)),
       the (encodeReceipt K (BuildVerifyReceipt C (Append e l) (mySeat (rs j)) (sk (rs j)))))) [0..<length ids]"

definition attempt_fresh :: "string list \<Rightarrow> u64 \<Rightarrow> u32 \<Rightarrow> nat \<Rightarrow> world \<Rightarrow> bool" where
  "attempt_fresh ids rid att p w \<longleftrightarrow> w (ids ! p) (ProposalKey rid att) = None \<and>
     (\<forall>j < length ids. w (ids ! j) (VerifyKey rid att (ids ! j)) = None)"

lemma attempt_files_distinct:
  assumes "distinct ids"
  shows "distinct (map fst (attempt_files C K ids rid att rs l p e))"
  using assms by (auto simp: attempt_files_def o_def distinct_map inj_on_def nth_eq_iff_index_eq)

definition attempt_trace ::
  "string list \<Rightarrow> u64 \<Rightarrow> u32 \<Rightarrow> nat \<Rightarrow> bool list \<Rightarrow> (nat \<Rightarrow> Runner) \<Rightarrow> Log \<Rightarrow> nat \<Rightarrow>
    event list \<times> (runner_error + Runner \<times> attemptOutcome)" where
  "attempt_trace ids rid att p folded rs l' i =
     ((if i = p then Hosted (ProposalKey rid att) else Polled (ids ! p) (ProposalKey rid att)) #
      Hosted (VerifyKey rid att (ids ! i)) # receipt_polls ids rid att folded i,
      Inr ((rs i)\<lparr>log := l'\<rparr>, attemptCommitted))"

lemma runAttempt_trace:
  assumes tab: "round_table pub ids l rs" and i: "i < length ids" and K: "round_codec_ok K" and C: "crypto_ok C pub"
    and next_p: "ExpectedNextPlayer l = Some p" "unat p < length ids" and s: "Log_state l = Some s"
    and legal: "ValidateAction s p a = Inr ()" and acts: "acts (unat p) = a # rest"
    and e: "e = BuildProposal C l p a (sk (rs (unat p)))"
    and st: "Log_state (Append e l) = Some s'" "length (Folded s') = length ids"
    and E: "E = with_files (attempt_files C K ids rid att rs l (unat p) e) w"
  shows "trace E (ids ! i) (runAttempt C K rid att (acts i) (rs i)) H =
    Some (attempt_trace ids rid att (unat p) (Folded s') rs (Append e l) i)"
proof -
  note D = round_tableD [OF tab]
  let ?fs = "attempt_files C K ids rid att rs l (unat p) e"
  note mem = with_files_mem [OF attempt_files_distinct [OF D(1)], of _ _ _ C K rid att rs l "unat p" e w, folded E]
  obtain data where data: "encodeEntry K e = Some data" "decodeEntry K data = Some e"
    using K unfolding round_codec_ok_def by blast
  have proposal: "E (ids ! unat p) (ProposalKey rid att) = Some data"
    by (rule mem) (simp add: attempt_files_def data)
  have rcpt: "E (ids ! j) (VerifyKey rid att (ids ! j)) = encodeReceipt K (BuildVerifyReceipt C (Append e l) (mySeat (rs j)) (sk (rs j)))"
    if "j < length ids" for j
  proof -
    obtain b where b: "encodeReceipt K (BuildVerifyReceipt C (Append e l) (mySeat (rs j)) (sk (rs j))) = Some b"
      using K by (auto simp: round_codec_ok_def)
    have "E (ids ! j) (VerifyKey rid att (ids ! j)) = Some b"
      by (rule mem) (use that b in \<open>force simp: attempt_files_def\<close>)
    then show ?thesis using b by simp
  qed
  then have all: "\<forall>j < length ids. E (ids ! j) (VerifyKey rid att (ids ! j)) \<noteq> None"
    using K by (auto simp: round_codec_ok_def)
  note fin = finish_attempt_trace [where E = E and C = C and rid = rid and att = att, OF tab i K st rcpt [OF i] all]
  have ver: "VerifyProposal C l e (pub (sk (rs (unat p)))) = Some (Inr ())"
    using VerifyProposal_built [OF C next_p(1) s] legal by (simp add: e)
  have seat: "mySeat (rs (unat p)) = p" using D(6) [OF next_p(2)] by (simp add: mySeat_def)
  show ?thesis
  proof (cases "i = unat p")
    case True
    have "currentRole (rs i) = Some RoleProposer"
      using True next_p(1) D(6, 7) [OF i] by (simp add: currentRole_def)
    then have "runAttempt C K rid att (acts i) (rs i) = Host (ProposalKey rid att) data (finish_attempt C K (rs i) e rid att)"
      using True acts ver data D(7, 8) [OF i] seat by (simp add: runAttempt_def e [symmetric] Let_def)
    then show ?thesis using fin proposal True by (simp add: attempt_trace_def)
  next
    case False
    then have "nat (uint p) \<noteq> i" by simp
    then have "uint p \<noteq> int i" using nat_int [of i] by metis
    then have "currentRole (rs i) = Some RoleVerifier"
      using next_p(1) D(6, 7) [OF i] by (simp add: currentRole_def)
    moreover have "currentProposer (rs i) = Some (ids ! unat p)"
      using next_p seat_at [of p ids] D(5, 7) [OF i] by (simp add: currentProposer_def)
    ultimately show ?thesis
      using fin proposal False data ver D(7) [OF i] D(9) [OF i next_p(2)]
      by (simp add: runAttempt_def runVerifierAttempt_def attempt_trace_def)
  qed
qed

lemma receipt_polls_length:
  assumes "i < length ids"
  shows "length (receipt_polls ids rid att folded i) < length ids"
proof -
  have "length (filter (\<lambda>j. j \<noteq> i \<and> \<not> folded ! j) [0..<length ids]) < length [0..<length ids]"
    by (rule length_filter_less [of i]) (use assms in simp_all)
  then show ?thesis by (simp add: receipt_polls_def)
qed

lemma attempt_network:
  assumes tab: "round_table pub ids l rs" and K: "round_codec_ok K" and C: "crypto_ok C pub"
    and next_p: "ExpectedNextPlayer l = Some p" "unat p < length ids" and s: "Log_state l = Some s"
    and legal: "ValidateAction s p a = Inr ()" and acts: "acts (unat p) = a # rest"
    and e: "e = BuildProposal C l p a (sk (rs (unat p)))"
    and st: "Log_state (Append e l) = Some s'" "length (Folded s') = length ids"
    and fresh: "attempt_fresh ids rid att (unat p) w"
  defines "E \<equiv> with_files (attempt_files C K ids rid att rs l (unat p) e) w"
    and "ts \<equiv> map (attempt_trace ids rid att (unat p) (Folded s') rs (Append e l)) [0..<length ids]"
  shows "consistent E (attempt_net C K ids rid att acts rs w) ts"
    "productive (\<lambda>t k. if k = ProposalKey rid att then 0 else 1) (attempt_net C K ids rid att acts rs w) ts"
    "ahead ts \<le> (length ids + 1) * length ids"
proof -
  note D = round_tableD [OF tab]
  let ?fs = "attempt_files C K ids rid att rs l (unat p) e"
  let ?rank = "\<lambda>t k. if k = ProposalKey rid att then 0 else (1 :: nat)"
  let ?tr = "attempt_trace ids rid att (unat p) (Folded s') rs (Append e l)"
  have fr: "fresh_for ?fs w" using fresh by (auto simp: fresh_for_def attempt_files_def attempt_fresh_def)
  have tr: "\<exists>H \<subseteq> dom (w (ids ! i)). trace (with_files ?fs w) (ids ! i) (runAttempt C K rid att (acts i) (rs i)) H = Some (?tr i)"
    if "i \<in> set [0..<length ids]" for i
    using runAttempt_trace [where acts = acts and rid = rid and att = att and w = w and rs = rs, OF tab _ K C next_p s legal acts e st refl] that by (intro exI [of _ "{}"]) simp
  have polls: "w t k \<noteq> None \<or> (t, k) \<in> fst ` set ?fs" if "i \<in> set [0..<length ids]" "Polled t k \<in> set (fst (?tr i))" for i t k
    using that by (auto simp: attempt_trace_def receipt_polls_def attempt_files_def image_iff split: if_splits)
  have hosts: "\<exists>i \<in> set [0..<length ids]. ids ! i = t \<and> (\<exists>ys zs. fst (?tr i) = ys @ Hosted k # zs \<and>
      (\<forall>t' k'. Polled t' k' \<in> set ys \<longrightarrow> ?rank t' k' < ?rank t k))" if f: "((t, k), v) \<in> set ?fs" for t k v
  proof (cases "k = ProposalKey rid att")
    case True
    then have "t = ids ! unat p" using f by (auto simp: attempt_files_def)
    moreover have "fst (?tr (unat p)) = [] @ Hosted k # tl (fst (?tr (unat p)))" using True by (simp add: attempt_trace_def)
    moreover have "\<forall>t' k'. Polled t' k' \<in> set [] \<longrightarrow> ?rank t' k' < ?rank t k" by simp
    ultimately show ?thesis using next_p(2) by (intro bexI [of _ "unat p"] conjI) (blast | simp)+
  next
    case False
    then obtain j where j: "j < length ids" "t = ids ! j" "k = VerifyKey rid att (ids ! j)"
      using f by (auto simp: attempt_files_def)
    then have "fst (?tr j) = [hd (fst (?tr j))] @ Hosted k # tl (tl (fst (?tr j)))"
      "\<forall>t' k'. Polled t' k' \<in> set [hd (fst (?tr j))] \<longrightarrow> ?rank t' k' < ?rank t k"
      by (simp_all add: attempt_trace_def)
    then show ?thesis using j by (intro bexI [of _ j] conjI) (blast | simp)+
  qed
  show "consistent E (attempt_net C K ids rid att acts rs w) ts" unfolding attempt_net_def E_def ts_def
    by (rule network_of_files(1) [where rank = ?rank, OF fr tr polls hosts])
  show "productive ?rank (attempt_net C K ids rid att acts rs w) ts" unfolding attempt_net_def ts_def
    by (rule network_of_files(2) [OF fr tr polls hosts])
  have "length (fst (?tr i)) \<le> length ids + 1" if "i < length ids" for i
    using receipt_polls_length [OF that, of rid att "Folded s'"] by (simp add: attempt_trace_def)
  then have "sum_list (map (\<lambda>t. length (fst t)) ts) \<le> sum_list (map (\<lambda>_. length ids + 1) ts)"
    by (intro sum_list_mono) (auto simp: ts_def)
  then show "ahead ts \<le> (length ids + 1) * length ids"
    by (simp add: ahead_def ts_def sum_list_replicate map_replicate_const mult.commute)
qed


section \<open>An honest auto-fold\<close>

definition fold_net ::
  "crypto \<Rightarrow> string list \<Rightarrow> u64 \<Rightarrow> u8 \<Rightarrow> (nat \<Rightarrow> Runner) \<Rightarrow> world \<Rightarrow> (runner_error, reason + Runner) net" where
  "fold_net C ids rid t rs w = (w, map (\<lambda>i. (ids ! i, driveAutoFold C rid t (rs i))) [0..<length ids])"

definition attestation :: "crypto \<Rightarrow> u64 \<Rightarrow> u8 \<Rightarrow> (nat \<Rightarrow> Runner) \<Rightarrow> Log \<Rightarrow> u8 \<Rightarrow> bytes" where
  "attestation C rid t rs l seat = BuildAutoFoldAttestation C l rid t (sk (rs (unat seat)))"

definition fold_files :: "crypto \<Rightarrow> string list \<Rightarrow> u64 \<Rightarrow> u8 \<Rightarrow> (nat \<Rightarrow> Runner) \<Rightarrow> Log \<Rightarrow> file_list" where
  "fold_files C ids rid t rs l =
     map (\<lambda>j. ((ids ! j, AutoFoldKey rid (ids ! j)), BuildAutoFoldAttestation C l rid t (sk (rs j))))
       (filter (\<lambda>j. j \<noteq> unat t) [0..<length ids])"

definition fold_entry :: "crypto \<Rightarrow> u64 \<Rightarrow> u8 \<Rightarrow> u8 list \<Rightarrow> (nat \<Rightarrow> Runner) \<Rightarrow> Log \<Rightarrow> Entry" where
  "fold_entry C rid t seats rs l = auto_fold_entry rid t seats (map (attestation C rid t rs l) seats)"

definition fold_trace ::
  "string list \<Rightarrow> u64 \<Rightarrow> u8 \<Rightarrow> u8 list \<Rightarrow> (nat \<Rightarrow> Runner) \<Rightarrow> Log \<Rightarrow> nat \<Rightarrow> event list \<times> (runner_error + (reason + Runner))" where
  "fold_trace ids rid t seats rs l' i =
     ((if i = unat t then [] else [Hosted (AutoFoldKey rid (ids ! i))]) @
      map (\<lambda>j. Polled (ids ! unat j) (AutoFoldKey rid (ids ! unat j))) (filter (\<lambda>j. unat j \<noteq> i) seats),
      Inr (Inr ((rs i)\<lparr>log := l'\<rparr>)))"

lemma collect_cosigs_trace:
  assumes "Order (node r) = ids" "mySeat r = of_nat i" "i < length ids" "length ids < 256"
    "\<forall>j \<in> set seats. unat j < length ids \<and> (unat j \<noteq> i \<longrightarrow> E (ids ! unat j) (AutoFoldKey rid (ids ! unat j)) = Some (f j)) \<and>
       (unat j = i \<longrightarrow> f j = mySig)"
  shows "trace E me (collect_cosigs r rid mySig seats cosigs None) H =
    Some (map (\<lambda>j. Polled (ids ! unat j) (AutoFoldKey rid (ids ! unat j))) (filter (\<lambda>j. unat j \<noteq> i) seats),
      Inr (None, cosigs @ map f seats))"
  using assms(5)
proof (induction seats arbitrary: cosigs)
  case (Cons j seats)
  have "j = mySeat r \<longleftrightarrow> unat j = i" using assms(2-4) by (auto simp: unat_of_nat word_unat_eq_iff)
  then show ?case using Cons seat_at [of j ids] assms(1) by auto
qed simp

lemma other_live_seats_mem:
  assumes "j \<in> set (other_live_seats n s t)"
  shows "unat j < unat n" "j \<noteq> t"
proof -
  obtain k where k: "k < unat n" "j = of_nat k" "j \<noteq> t" using assms unfolding other_live_seats_def by auto
  moreover have "unat n < 256" using unsigned_less [of n, where 'a = nat] by simp
  ultimately show "unat j < unat n" "j \<noteq> t" by (auto simp: unat_of_nat)
qed

text \<open>The entry everybody builds passes \<^verbatim>\<open>AppendAutoFold\<close> everywhere.\<close>

lemma fold_entry_appends:
  assumes tab: "round_table pub ids l rs" and i: "i < length ids" and C: "crypto_ok C pub"
    and acc: "accepted C n st l" "unat n = length ids" and s: "Log_state l = Some s"
    and t: "unat t < length ids" "\<not> Folded s ! unat t" and seats: "seats = other_live_seats n s t" "seats \<noteq> []"
  defines "e \<equiv> fold_entry C (Log_RoundID l) t seats rs l"
  shows "AppendAutoFold C e (attestor_keys (rs i) seats) l = (Some (Inr ()), Append e l)"
proof -
  note D = round_tableD [OF tab]
  let ?rid = "Log_RoundID l"
  have pub: "pub x \<noteq> []" for x using C unfolding crypto_ok_def by (metis list.size(3) zero_neq_numeral)
  have key: "attestor_keys (rs i) seats j = Some (pub (sk (rs (unat j))))" if "j \<in> set seats" for j
  proof -
    have "unat j < length ids" using other_live_seats_mem(1) [of j n s t] that seats(1) acc(2) by simp
    then show ?thesis using that D(5) [OF i] D(9) [OF i] pub by (simp add: attestor_keys_def)
  qed
  have tn: "t < n" using t(1) acc(2) by (simp add: word_less_nat_alt)
  have fields: "RoundID e = ?rid" "IsAutoFold e" "PlayerID e = t" "CoSigners e = seats"
    "CoSignatures e = map (attestation C ?rid t rs l) seats"
    by (simp_all add: e_def fold_entry_def auto_fold_entry_def IsAutoFold_def)
  have sigs: "\<exists>pk. attestor_keys (rs i) seats (seats ! k) = Some pk \<and> length pk = PublicKeySize \<and>
      Verify C pk (autoFoldPayload l ?rid t) (map (attestation C ?rid t rs l) seats ! k)" if "k < length seats" for k
    using that key [OF nth_mem [OF that]] C
    by (simp add: attestation_def BuildAutoFoldAttestation_def Verify_def Sign_def crypto_ok_def)
  note app = AppendAutoFold_iff [OF accepted_log_ok [OF acc(1)] s, of C e "attestor_keys (rs i) seats", unfolded fields, folded seats(1)]
  have "fst (AppendAutoFold C e (attestor_keys (rs i) seats) l) = Some (Inr ())"
    using app tn t(2) seats(2) fields(2) sigs by simp
  then show ?thesis using app by (simp add: prod_eq_iff)
qed

lemma driveAutoFold_trace:
  assumes tab: "round_table pub ids l rs" and i: "i < length ids" and C: "crypto_ok C pub"
    and acc: "accepted C n st l" "unat n = length ids" and s: "Log_state l = Some s"
    and t: "unat t < length ids" "\<not> Folded s ! unat t" and seats: "seats = other_live_seats n s t" "seats \<noteq> []"
    and E: "E = with_files (fold_files C ids (Log_RoundID l) t rs l) w"
  shows "trace E (ids ! i) (driveAutoFold C (Log_RoundID l) t (rs i)) H =
    Some (fold_trace ids (Log_RoundID l) t seats rs (Append (fold_entry C (Log_RoundID l) t seats rs l) l) i)"
proof -
  note D = round_tableD [OF tab]
  let ?rid = "Log_RoundID l"
  let ?e = "fold_entry C ?rid t seats rs l"
  have numl: "numPlayers l = n" using accepted_log_ok [OF acc(1)] by (simp add: log_ok_def)
  have exp: "ExpectedAutoFoldAttestors (log (rs i)) t = Some seats"
    by (simp add: ExpectedAutoFoldAttestors_def D(7) [OF i] s seats(1) other_live_seats_def numl)
  have dist: "distinct (map fst (fold_files C ids ?rid t rs l))"
    using D(1) by (auto simp: fold_files_def o_def distinct_map inj_on_def nth_eq_iff_index_eq)
  have att: "E (ids ! j) (AutoFoldKey ?rid (ids ! j)) = Some (BuildAutoFoldAttestation C l ?rid t (sk (rs j)))"
    if "j < length ids" "j \<noteq> unat t" for j
    unfolding E by (rule with_files_mem [OF dist]) (use that in \<open>force simp: fold_files_def\<close>)
  have me: "mySeat (rs i) = of_nat i" "mySeat (rs i) \<noteq> t \<longleftrightarrow> i \<noteq> unat t"
    using D(6) [OF i] D(3) i by (auto simp: mySeat_def unat_of_nat word_unat_eq_iff)
  define sig where "sig = (if i \<noteq> unat t then BuildAutoFoldAttestation C l ?rid t (sk (rs i)) else [])"
  have "\<forall>j \<in> set seats. unat j < length ids \<and>
      (unat j \<noteq> i \<longrightarrow> E (ids ! unat j) (AutoFoldKey ?rid (ids ! unat j)) = Some (attestation C ?rid t rs l j)) \<and>
      (unat j = i \<longrightarrow> attestation C ?rid t rs l j = sig)"
    using other_live_seats_mem [of _ n s t] att acc(2) seats(1) by (auto simp: attestation_def sig_def word_unat_eq_iff)
  note coll = collect_cosigs_trace [where E = E and rid = ?rid and f = "attestation C ?rid t rs l", OF D(5) [OF i] me(1) i D(3) this]
  note app = fold_entry_appends [OF tab i C acc s t seats]
  have rest: "trace E (ids ! i) (bindp (collect_cosigs (rs i) ?rid sig seats [] None) (\<lambda>(first, cosigs).
      case first of Some e \<Rightarrow> Return (Inl (PollAutoFold e))
      | None \<Rightarrow> (case AppendAutoFold C (auto_fold_entry ?rid t seats cosigs) (attestor_keys (rs i) seats) l of
           (None, _) \<Rightarrow> Fail RunnerPanic | (Some (Inl err), _) \<Rightarrow> Return (Inl (Refused err))
         | (Some (Inr _), l) \<Rightarrow> Return (Inr ((rs i)\<lparr>log := l\<rparr>))))) H' =
      Some (map (\<lambda>j. Polled (ids ! unat j) (AutoFoldKey ?rid (ids ! unat j))) (filter (\<lambda>j. unat j \<noteq> i) seats) @ [],
        Inr (Inr ((rs i)\<lparr>log := Append ?e l\<rparr>)))" for H'
    by (intro trace_bindp [OF coll]) (use app in \<open>simp add: fold_entry_def\<close>)
  show ?thesis
    unfolding driveAutoFold_def Let_def D(4, 7) [OF i] exp [unfolded D(7) [OF i]] option.case
    using rest att [OF i] seats(2) me(2) by (cases "i = unat t") (simp_all add: fold_trace_def sig_def)
qed

text \<open>
  C17. An honest auto-fold succeeds everywhere.  At a table whose runners hold the same accepted log, with
  a live target seat and at least one other live seat, under any interleaving in which nobody gives
  up every node, the target and the folded seats included, finishes \<^verbatim>\<open>driveAutoFold\<close> within \<open>n (n + 1)\<close>
  steps without an error, and all of them append the same entry, signed by all other live seats.
\<close>

theorem auto_fold_completes:
  assumes "round_table pub ids l rs" "crypto_ok C pub" "accepted C n st l" "unat n = length ids"
    "Log_state l = Some s" "unat t < length ids" "\<not> Folded s ! unat t" "other_live_seats n s t \<noteq> []"
    "\<forall>j < length ids. w (ids ! j) (AutoFoldKey (Log_RoundID l) (ids ! j)) = None"
    "(net_step ^^ m) (fold_net C ids (Log_RoundID l) t rs w) net"
  shows "m \<le> (length ids + 1) * length ids \<and> (\<exists>k net'. (net_step ^^ k) net net' \<and> net_done net') \<and>
    (net_done net \<longrightarrow> (\<exists>e. IsAutoFold e \<and> PlayerID e = t \<and> CoSigners e = other_live_seats n s t \<and> accepted C n st (Append e l) \<and>
       map snd (snd net) = map (\<lambda>i. Return (Inr ((rs i)\<lparr>log := Append e l\<rparr>))) [0..<length ids]))"
proof -
  note D = round_tableD [OF assms(1)]
  let ?rid = "Log_RoundID l" and ?seats = "other_live_seats n s t"
  let ?e = "fold_entry C ?rid t ?seats rs l"
  let ?fs = "fold_files C ids ?rid t rs l"
  let ?tr = "fold_trace ids ?rid t ?seats rs (Append ?e l)"
  let ?ts = "map ?tr [0..<length ids]"
  have fr: "fresh_for ?fs w" using assms(9) by (auto simp: fresh_for_def fold_files_def)
  note one = driveAutoFold_trace [where rs = rs and w = w, OF assms(1) _ assms(2-7) refl assms(8) refl]
  have tr: "\<exists>H \<subseteq> dom (w (ids ! i)). trace (with_files ?fs w) (ids ! i) (driveAutoFold C ?rid t (rs i)) H = Some (?tr i)"
    if "i \<in> set [0..<length ids]" for i
    using one that by (intro exI [of _ "{}"]) simp
  have seats: "unat j < length ids \<and> unat j \<noteq> unat t" if "j \<in> set ?seats" for j
    using other_live_seats_mem [OF that] assms(4) by (simp add: word_unat_eq_iff)
  have polls: "w x k \<noteq> None \<or> (x, k) \<in> fst ` set ?fs" if "i \<in> set [0..<length ids]" "Polled x k \<in> set (fst (?tr i))" for i x k
    using that seats by (auto simp: fold_trace_def fold_files_def image_iff split: if_splits)
  have hosts: "\<exists>i \<in> set [0..<length ids]. ids ! i = x \<and> (\<exists>ys zs. fst (?tr i) = ys @ Hosted k # zs \<and>
      (\<forall>t' k'. Polled t' k' \<in> set ys \<longrightarrow> (0 :: nat) < 0))" if f: "((x, k), v) \<in> set ?fs" for x k v
  proof -
    obtain j where j: "j < length ids" "x = ids ! j" "k = AutoFoldKey ?rid (ids ! j)" "j \<noteq> unat t"
      using f by (auto simp: fold_files_def)
    then have "fst (?tr j) = [] @ Hosted k # tl (fst (?tr j))" by (simp add: fold_trace_def)
    moreover have "\<forall>t' k'. Polled t' k' \<in> set [] \<longrightarrow> (0 :: nat) < 0" by simp
    ultimately show ?thesis using j by (intro bexI [of _ j] conjI) (blast | simp)+
  qed
  have con: "consistent (with_files ?fs w) (fold_net C ids ?rid t rs w) ?ts" unfolding fold_net_def
    by (rule network_of_files(1) [where rank = "\<lambda>_ _. 0", OF fr tr polls hosts])
  have "productive (\<lambda>_ _. 0) (fold_net C ids ?rid t rs w) ?ts" unfolding fold_net_def
    by (rule network_of_files(2) [OF fr tr polls hosts])
  note net = con this
  show ?thesis
  proof (intro conjI impI)
    have "length ?seats \<le> length ids" using assms(4) length_filter_le [of _ "map of_nat [0..<unat n]"]
      by (simp add: other_live_seats_def)
    then have "length (filter (\<lambda>j. unat j \<noteq> i) ?seats) \<le> length ids" for i
      by (rule le_trans [OF length_filter_le])
    then have "length (fst (?tr i)) \<le> length ids + 1" for i
      by (cases "i = unat t") (simp_all add: fold_trace_def le_SucI)
    then have "sum_list (map (\<lambda>t. length (fst t)) ?ts) \<le> sum_list (map (\<lambda>_. length ids + 1) ?ts)"
      by (intro sum_list_mono) auto
    then have "ahead ?ts \<le> (length ids + 1) * length ids"
      by (simp add: ahead_def sum_list_replicate map_replicate_const mult.commute)
    then show "m \<le> (length ids + 1) * length ids" using net_completes(1) [OF net assms(10)] by simp
    show "\<exists>k net'. (net_step ^^ k) net net' \<and> net_done net'" by (rule net_run_finishes [OF net(1) assms(10)])
    assume "net_done net"
    from net_completes(3) [OF net assms(10) this]
    have "map snd (snd net) = map (\<lambda>i. Return (Inr ((rs i)\<lparr>log := Append ?e l\<rparr>))) [0..<length ids]"
      by (simp add: fold_trace_def o_def)
    moreover have "IsAutoFold ?e" "PlayerID ?e = t" "CoSigners ?e = ?seats"
      by (simp_all add: fold_entry_def auto_fold_entry_def IsAutoFold_def)
    moreover have "accepted C n st (Append ?e l)"
      by (rule accepted_auto_fold [OF assms(3) fold_entry_appends [OF assms(1) D(2) assms(2-7) refl assms(8)]])
    ultimately show "\<exists>e. IsAutoFold e \<and> PlayerID e = t \<and> CoSigners e = ?seats \<and> accepted C n st (Append e l) \<and>
       map snd (snd net) = map (\<lambda>i. Return (Inr ((rs i)\<lparr>log := Append e l\<rparr>))) [0..<length ids]" by blast
  qed
qed

section \<open>Concrete runs\<close>

text \<open>A process run alone until it returns or has to wait, as part of a network.\<close>

primrec solo :: "string \<Rightarrow> ('e, 'r) prog \<Rightarrow> world \<Rightarrow> world \<times> ('e, 'r) prog" where
  "solo me (Return r) w = (w, Return r)"
| "solo me (Fail e) w = (w, Fail e)"
| "solo me (Read t k f) w = (case w t k of None \<Rightarrow> (w, Read t k f) | Some v \<Rightarrow> solo me (f (Some v)) w)"
| "solo me (Host k v p) w = solo me p (w(me := Put k v (w me)))"
| "solo me (Local k f) w = solo me (f (w me k)) w"
| "solo me (Erase d p) w = solo me p (w(me := (\<lambda>k. if d k then None else w me k)))"

lemma solo_runs:
  assumes "i < length ps" "ps ! i = (me, p)"
  shows "net_step\<^sup>*\<^sup>* (w, ps) (fst (solo me p w), ps[i := (me, snd (solo me p w))])"
  using assms
proof (induction p arbitrary: w ps)
  case (Return r)
  then show ?case by (metis fst_conv list_update_id rtranclp.rtrancl_refl snd_conv solo.simps(1))
next
  case (Fail e)
  then show ?case by (metis fst_conv list_update_id rtranclp.rtrancl_refl snd_conv solo.simps(2))
next
  case (Read t k f)
  show ?case
  proof (cases "w t k")
    case None
    have "ps[i := (me, Read t k f)] = ps" using Read.prems by (metis list_update_id)
    then show ?thesis using None by simp
  next
    case (Some v)
    have "net_step (w, ps) (w, ps[i := (me, f (Some v))])"
      by (rule poll_step [OF Read.prems]) (use Some in \<open>simp add: Get_def\<close>)
    moreover have "net_step\<^sup>*\<^sup>* (w, ps[i := (me, f (Some v))])
        (fst (solo me (f (Some v)) w), ps[i := (me, f (Some v)), i := (me, snd (solo me (f (Some v)) w))])"
      by (rule Read.IH [OF rangeI]) (use Read.prems in simp_all)
    ultimately show ?thesis unfolding solo.simps Some option.case list_update_overwrite
      by (rule converse_rtranclp_into_rtranclp)
  qed
next
  case (Host k v p)
  let ?w = "w(me := Put k v (w me))"
  have "net_step\<^sup>*\<^sup>* (?w, ps[i := (me, p)]) (fst (solo me p ?w), ps[i := (me, p), i := (me, snd (solo me p ?w))])"
    by (rule Host.IH) (use Host.prems in simp_all)
  with host_step [OF Host.prems, of w] show ?case unfolding solo.simps list_update_overwrite
    by (rule converse_rtranclp_into_rtranclp)
next
  case (Local k f)
  have "net_step (w, ps) (w, ps[i := (me, f (w me k))])" using local_step [OF Local.prems, of w] by (simp add: Get_def)
  moreover have "net_step\<^sup>*\<^sup>* (w, ps[i := (me, f (w me k))])
      (fst (solo me (f (w me k)) w), ps[i := (me, f (w me k)), i := (me, snd (solo me (f (w me k)) w))])"
    by (rule Local.IH [OF rangeI]) (use Local.prems in simp_all)
  ultimately show ?case unfolding solo.simps list_update_overwrite by (rule converse_rtranclp_into_rtranclp)
next
  case (Erase d p)
  let ?w = "w(me := (\<lambda>k. if d k then None else w me k))"
  have "net_step\<^sup>*\<^sup>* (?w, ps[i := (me, p)]) (fst (solo me p ?w), ps[i := (me, p), i := (me, snd (solo me p ?w))])"
    by (rule Erase.IH) (use Erase.prems in simp_all)
  with erase_step [OF Erase.prems, of w] show ?case unfolding solo.simps list_update_overwrite
    by (rule converse_rtranclp_into_rtranclp)
qed

lemma net_any_steps: "net_step\<^sup>*\<^sup>* s s' \<Longrightarrow> net_any\<^sup>*\<^sup>* s s'"
  by (rule rtranclp_mono [THEN predicate2D]) (auto intro: any_step)

definition demo_round_codec :: round_codec where
  "demo_round_codec = \<lparr>
     encodeEntry = \<lambda>e. Some (flat [replicate (unat (RoundID e)) 0, [PlayerID e, Kind (EAction e)],
       replicate (unat (Amount (EAction e))) 0, Signature e, CoSigners e, flat (CoSignatures e), Data e]),
     decodeEntry = \<lambda>b. (case unflat [] b of [r, [p, k], m, s, cs, sigs, d] \<Rightarrow>
         Some \<lparr>RoundID = of_nat (length r), PlayerID = p, EAction = \<lparr>Kind = k, Amount = of_nat (length m)\<rparr>,
           Signature = s, CoSigners = cs, CoSignatures = unflat [] sigs, Data = d\<rparr>
       | _ \<Rightarrow> None),
     encodeReceipt = \<lambda>r. Some (PostLogHash r @ VRSignature r)\<rparr>"

lemma demo_round_codec_ok: "round_codec_ok demo_round_codec"
  by (simp add: round_codec_ok_def demo_round_codec_def unflat_flat del: flat.simps)

definition demo_sk :: "nat \<Rightarrow> bytes" where
  "demo_sk i = [of_nat (7 + i)]"

definition demo_runner :: "string list \<Rightarrow> Log \<Rightarrow> nat \<Rightarrow> Runner" where
  "demo_runner ids l i = (Runner_New (seat_node ids [] 23 i) 100 (demo_sk i) (pad32 (demo_sk i))
     \<lparr>TimeoutInterval = 0, MaxAttempts = 0\<rparr>
     (\<lambda>t. case find (\<lambda>j. ids ! j = t) [0..<length ids] of None \<Rightarrow> [] | Some j \<Rightarrow> pad32 (demo_sk j)))\<lparr>log := l\<rparr>"

lemma find_nth:
  assumes "distinct ids" "j < length ids"
  shows "find (\<lambda>k. ids ! k = ids ! j) [0..<length ids] = Some j"
  using assms unfolding find_Some_iff by (intro exI [of _ j]) (simp add: nth_eq_iff_index_eq)

lemma demo_round_table:
  assumes "distinct ids" "0 < length ids" "length ids < 256"
  shows "round_table pad32 ids l (demo_runner ids l)"
proof -
  have "peerPKs (demo_runner ids l i) (ids ! j) = pad32 (demo_sk j)" if "j < length ids" for i j
    unfolding demo_runner_def Runner_New_def Let_def by (simp add: find_nth [OF assms(1) that])
  moreover have "node (demo_runner ids l i) = seat_node ids [] 23 i" "log (demo_runner ids l i) = l"
    "sk (demo_runner ids l i) = demo_sk i" "pk (demo_runner ids l i) = pad32 (demo_sk i)" for i
    by (simp_all add: demo_runner_def Runner_New_def Let_def)
  ultimately show ?thesis using assms by (simp add: round_table_def seat_node_def)
qed

lemma demo_log_next: "ExpectedNextPlayer demo_log = Some 2"
  by code_simp

lemma seats_upto: "[0..<length [''a'', ''b'', ''c'']] = [0, 1, 2]"
  by (simp add: upt_rec numeral_2_eq_2)


theorem auto_fold_completes_witness:
  "\<exists>m net e. (net_step ^^ m) (fold_net demo_crypto [''a'', ''b'', ''c''] 2 2 (demo_runner [''a'', ''b'', ''c''] demo_log) (\<lambda>_. New)) net \<and>
    m \<le> 12 \<and> PlayerID e = 2 \<and> CoSigners e = [0] \<and>
    map snd (snd net) = map (\<lambda>i. Return (Inr ((demo_runner [''a'', ''b'', ''c''] demo_log i)\<lparr>log := Append e demo_log\<rparr>))) [0, 1, 2]"
proof -
  let ?ids = "[''a'', ''b'', ''c'']"
  let ?rs = "demo_runner ?ids demo_log"
  let ?net = "fold_net demo_crypto ?ids (Log_RoundID demo_log) 2 ?rs (\<lambda>_. New)"
  have tab: "round_table pad32 ?ids demo_log ?rs" by (rule demo_round_table) simp_all
  have n: "unat (3 :: u8) = length ?ids" by simp
  have t: "unat (2 :: u8) < length ?ids" "\<not> Folded demo_state ! unat (2 :: u8)" by (simp_all add: demo_state_def)
  have seats: "other_live_seats 3 demo_state 2 = [0]" by (simp add: other_live_seats_def demo_state_def upt_rec)
  then have some: "other_live_seats 3 demo_state 2 \<noteq> []" by simp
  have fresh: "\<forall>j < length ?ids. (\<lambda>_. New) (?ids ! j) (AutoFoldKey (Log_RoundID demo_log) (?ids ! j)) = None"
    by (simp add: New_def)
  note folds = auto_fold_completes [where rs = ?rs and w = "\<lambda>_. New", OF tab demo_crypto_ok demo_log_accepted n demo_log_state t some fresh]
  have rid: "Log_RoundID demo_log = 2" by (simp add: Log_RoundID_def demo_log_def NewLog_def Let_def Append_def)
  have "(net_step ^^ 0) ?net ?net" by simp
  from folds [OF this] obtain m net where net: "(net_step ^^ m) ?net net" "net_done net" by blast
  then obtain e where e: "PlayerID e = 2" "CoSigners e = [0]"
    "map snd (snd net) = map (\<lambda>i. Return (Inr ((?rs i)\<lparr>log := Append e demo_log\<rparr>))) [0..<length ?ids]"
    using folds [OF net(1)] seats by auto
  moreover have "m \<le> 12" using folds [OF net(1)] by simp
  ultimately show ?thesis using net(1) unfolding rid by (intro exI [of _ m] exI [of _ net] exI [of _ e]) (simp only: seats_upto simp_thms)
qed

section \<open>What a runner can return\<close>



text \<open>
  Two seats start a hand: \<open>a\<close> proposes a check, \<open>b\<close> verifies it, reads \<open>a\<close>'s receipt and commits; then the
  deadline hits \<open>a\<close> before it has read \<open>b\<close>'s receipt.
\<close>

definition duel :: "nat \<Rightarrow> (runner_error, Runner \<times> attemptOutcome) prog" where
  "duel i = runAttempt demo_crypto demo_round_codec 0 0 [\<lparr>Kind = ActionCheck, Amount = 0\<rparr>] (demo_runner [''a'', ''b''] (NewLog 2 100) i)"

definition duel_a :: "world \<times> (runner_error, Runner \<times> attemptOutcome) prog" where
  "duel_a = solo ''a'' (duel 0) (\<lambda>_. New)"

definition duel_b :: "world \<times> (runner_error, Runner \<times> attemptOutcome) prog" where
  "duel_b = solo ''b'' (duel 1) (fst duel_a)"

fun given_up :: "('e, 'r) prog \<Rightarrow> ('e, 'r) prog" where
  "given_up (Read t k f) = f None"
| "given_up p = p"

lemma given_up_step: "i < length ps \<Longrightarrow> ps ! i = (me, p) \<Longrightarrow> net_any\<^sup>*\<^sup>* (w, ps) (w, ps[i := (me, given_up p)])"
proof -
  assume i: "i < length ps" "ps ! i = (me, p)"
  then have "ps[i := (me, p)] = ps" by (metis list_update_id)
  then show ?thesis by (cases p) (use give_up [OF i(1)] i(2) in auto)
qed

text \<open>The first of two processes runs until it waits, then the second, then the first gives up.\<close>

lemma two_run:
  assumes "solo a p w = (w1, p1)" "solo b q w1 = (w2, q1)"
  shows "net_any\<^sup>*\<^sup>* (w, [(a, p), (b, q)]) (w2, [(a, given_up p1), (b, q1)])"
proof -
  have "net_any\<^sup>*\<^sup>* (w, [(a, p), (b, q)]) (w1, [(a, p1), (b, q)])"
    using net_any_steps [OF solo_runs [of 0 "[(a, p), (b, q)]" a p w]] assms(1) by simp
  moreover have "net_any\<^sup>*\<^sup>* (w1, [(a, p1), (b, q)]) (w2, [(a, p1), (b, q1)])"
    using net_any_steps [OF solo_runs [of 1 "[(a, p1), (b, q)]" b q w1]] assms(2) by simp
  moreover have "net_any\<^sup>*\<^sup>* (w2, [(a, p1), (b, q1)]) (w2, [(a, given_up p1), (b, q1)])"
    using given_up_step [of 0 "[(a, p1), (b, q1)]" a p1 w2] by simp
  ultimately show ?thesis by (meson rtranclp_trans)
qed

lemma duel_ends:
  "case given_up (snd duel_a) of Return (r, attemptTimeout _) \<Rightarrow> entries (log r) = [] | _ \<Rightarrow> False"
  "case snd duel_b of Return (r, attemptCommitted) \<Rightarrow> length (entries (log r)) = 1 | _ \<Rightarrow> False"
  by (code_simp, code_simp)

lemma duel_table: "round_table pad32 [''a'', ''b''] (NewLog 2 st) (demo_runner [''a'', ''b''] (NewLog 2 st))"
  by (rule demo_round_table) simp_all

lemma duel_seated: "seated demo_crypto 2 st (demo_runner [''a'', ''b''] (NewLog 2 st) i)"
  by (simp add: seated_def demo_runner_def Runner_New_def Let_def seat_node_def accepted_new)

lemma duel_runs: "net_any\<^sup>*\<^sup>* (\<lambda>_. New, [(''a'', duel 0), (''b'', duel 1)]) (fst duel_b, [(''a'', given_up (snd duel_a)), (''b'', snd duel_b)])"
  by (rule two_run) (simp_all only: duel_a_def duel_b_def prod.collapse)

lemma duel_outcome:
  obtains ra why rb where "given_up (snd duel_a) = Return (ra, attemptTimeout why)" "entries (log ra) = []"
    "snd duel_b = Return (rb, attemptCommitted)" "length (entries (log rb)) = 1"
proof -
  obtain ra why where "given_up (snd duel_a) = Return (ra, attemptTimeout why)" "entries (log ra) = []"
    using duel_ends(1) by (auto split: prog.splits prod.splits attemptOutcome.splits)
  moreover obtain rb where "snd duel_b = Return (rb, attemptCommitted)" "length (entries (log rb)) = 1"
    using duel_ends(2) by (auto split: prog.splits prod.splits attemptOutcome.splits)
  ultimately show thesis by (rule that)
qed


text \<open>
  C38. A commit is not all-or-nothing across the table.  At an honest table of two with equal logs and
  keys there is a run in which one node commits the round while the other's deadline hits before it
  reads the receipt it was waiting for, so it rolls back: the logs then differ, although both nodes
  followed the protocol.
\<close>

theorem commit_can_split:
  "round_table pad32 [''a'', ''b''] (NewLog 2 100) (demo_runner [''a'', ''b''] (NewLog 2 100)) \<and>
   (\<exists>w ra why rb. net_any\<^sup>*\<^sup>* (\<lambda>_. New, map (\<lambda>i. ([''a'', ''b''] ! i, runAttempt demo_crypto demo_round_codec 0 0
       [\<lparr>Kind = ActionCheck, Amount = 0\<rparr>] (demo_runner [''a'', ''b''] (NewLog 2 100) i))) [0, 1])
     (w, [(''a'', Return (ra, attemptTimeout why)), (''b'', Return (rb, attemptCommitted))]) \<and>
     entries (log ra) = [] \<and> length (entries (log rb)) = 1)"
proof -
  obtain ra why rb where r: "given_up (snd duel_a) = Return (ra, attemptTimeout why)" "entries (log ra) = []"
    "snd duel_b = Return (rb, attemptCommitted)" "length (entries (log rb)) = 1" by (rule duel_outcome)
  have "net_any\<^sup>*\<^sup>* (\<lambda>_. New, map (\<lambda>i. ([''a'', ''b''] ! i, duel i)) [0, 1])
      (fst duel_b, [(''a'', Return (ra, attemptTimeout why)), (''b'', Return (rb, attemptCommitted))])"
    using duel_runs unfolding r by simp
  then show ?thesis using r(2, 4) duel_table unfolding duel_def by blast
qed

text \<open>The same two seats play a whole hand without chips: \<open>a\<close> folds and \<open>b\<close> wins uncontested.\<close>

definition brief :: "nat \<Rightarrow> (runner_error, Runner \<times> hand_result) prog" where
  "brief i = play_hand demo_crypto demo_round_codec demo_claim_codec (replicate 8 (\<lambda>_. [\<lparr>Kind = ActionFold, Amount = 0\<rparr>]))
     (demo_runner [''a'', ''b''] (NewLog 2 0) i)"

definition brief_a :: "world \<times> (runner_error, Runner \<times> hand_result) prog" where
  "brief_a = solo ''a'' (brief 0) (\<lambda>_. New)"

definition brief_b :: "world \<times> (runner_error, Runner \<times> hand_result) prog" where
  "brief_b = solo ''b'' (brief 1) (fst brief_a)"

lemma brief_ends:
  "case snd brief_b of Return (r, Uncontested j) \<Rightarrow> j = 1 | _ \<Rightarrow> False"
  by code_simp


section \<open>Folded seats\<close>

text \<open>
  Three seats, seat 1 folded, seat 2 to act.  The attempt waits for no receipt of a folded seat, and the
  proposer deletes its proposal as soon as it has committed.
\<close>

definition trio :: "nat \<Rightarrow> (runner_error, Runner) prog" where
  "trio i = runRound demo_crypto demo_round_codec (\<lambda>_. [\<lparr>Kind = ActionCall, Amount = 0\<rparr>]) (demo_runner [''a'', ''b'', ''c''] demo_log i)"

definition trio_1 :: "world \<times> (runner_error, Runner) prog" where
  "trio_1 = solo ''c'' (trio 2) (\<lambda>_. New)"

definition trio_2 :: "world \<times> (runner_error, Runner) prog" where
  "trio_2 = solo ''a'' (trio 0) (fst trio_1)"

definition trio_3 :: "world \<times> (runner_error, Runner) prog" where
  "trio_3 = solo ''c'' (snd trio_1) (fst trio_2)"

lemma trio_ends:
  "case (snd trio_2, snd trio_3) of (Return r, Return r') \<Rightarrow> log r = log r' \<and> length (entries (log r)) = 3 | _ \<Rightarrow> False"
  "fst trio_3 ''c'' (ProposalKey 2 0) = None"
  "case trio 1 of Read t k f \<Rightarrow> t = ''c'' \<and> k = ProposalKey 2 0 | _ \<Rightarrow> False"
  by (code_simp, code_simp, code_simp)

lemma three_run:
  assumes "solo c r w = (w1, r1)" "solo a p w1 = (w2, p1)" "solo c r1 w2 = (w3, r2)"
  shows "net_step\<^sup>*\<^sup>* (w, [(a, p), (b, q), (c, r)]) (w3, [(a, p1), (b, q), (c, r2)])"
proof -
  have "net_step\<^sup>*\<^sup>* (w, [(a, p), (b, q), (c, r)]) (w1, [(a, p), (b, q), (c, r1)])"
    using solo_runs [of 2 "[(a, p), (b, q), (c, r)]" c r w] assms(1) by (simp add: numeral_2_eq_2)
  moreover have "net_step\<^sup>*\<^sup>* (w1, [(a, p), (b, q), (c, r1)]) (w2, [(a, p1), (b, q), (c, r1)])"
    using solo_runs [of 0 "[(a, p), (b, q), (c, r1)]" a p w1] assms(2) by simp
  moreover have "net_step\<^sup>*\<^sup>* (w2, [(a, p1), (b, q), (c, r1)]) (w3, [(a, p1), (b, q), (c, r2)])"
    using solo_runs [of 2 "[(a, p1), (b, q), (c, r1)]" c r1 w2] assms(3) by (simp add: numeral_2_eq_2)
  ultimately show ?thesis by (meson rtranclp_trans)
qed

text \<open>
  A folded seat can be left behind.  At an honest table of three with one folded seat there is a run,
  with nobody giving up, in which both live seats commit the round and finish it, the proposer deletes its
  proposal, and the folded seat still waits for it: no step is possible any more, and only the folded
  seat's own deadline ends its wait, with a log one entry short.
\<close>

theorem folded_seat_left_behind:
  "\<exists>w ra rc f. net_step\<^sup>*\<^sup>* (\<lambda>_. New, map (\<lambda>i. ([''a'', ''b'', ''c''] ! i, runRound demo_crypto demo_round_codec
        (\<lambda>_. [\<lparr>Kind = ActionCall, Amount = 0\<rparr>]) (demo_runner [''a'', ''b'', ''c''] demo_log i))) [0, 1, 2])
      (w, [(''a'', Return ra), (''b'', Read ''c'' (ProposalKey 2 0) f), (''c'', Return rc)]) \<and>
    net_done (w, [(''a'', Return ra), (''b'', Read ''c'' (ProposalKey 2 0) f), (''c'', Return rc)]) \<and>
    log ra = log rc \<and> length (entries (log rc)) = length (entries demo_log) + 1"
proof -
  obtain ra rc where r: "snd trio_2 = Return ra" "snd trio_3 = Return rc" "log ra = log rc" "length (entries (log rc)) = 3"
    using trio_ends(1) by (auto split: prog.splits)
  obtain f where f: "trio 1 = Read ''c'' (ProposalKey 2 0) f"
    using trio_ends(3) by (auto split: prog.splits)
  have "net_step\<^sup>*\<^sup>* (\<lambda>_. New, [(''a'', trio 0), (''b'', trio 1), (''c'', trio 2)])
      (fst trio_3, [(''a'', snd trio_2), (''b'', trio 1), (''c'', snd trio_3)])"
    by (rule three_run) (simp_all only: trio_1_def trio_2_def trio_3_def prod.collapse)
  moreover have "map (\<lambda>i. ([''a'', ''b'', ''c''] ! i, trio i)) [0, 1, 2] = [(''a'', trio 0), (''b'', trio 1), (''c'', trio 2)]"
    by simp
  moreover have "net_done (fst trio_3, [(''a'', Return ra), (''b'', Read ''c'' (ProposalKey 2 0) f), (''c'', Return rc)])"
    using trio_ends(2) by (auto simp: net_done_def Get_def nth_Cons' elim!: net_stepE split: if_splits)
  moreover have "length (entries demo_log) = 2" by (simp add: demo_log_def NewLog_def Let_def Append_def)
  ultimately show ?thesis using r f unfolding trio_def by fastforce
qed

end
