(* ===== verification/Dispatch.thy ===== *)
theory Dispatch
  imports Prelude "HOL-Library.Char_ord" "HOL-Library.List_Lexorder"
begin

text \<open>
  The dispatch server (\<^verbatim>\<open>internal/dispatch/server.go\<close>) with the frames of \<^verbatim>\<open>internal/protocol/frame.go\<close>:
  registration, leases, sessions and the game-start broadcast.  Nodes and sessions are shared through
  pointers in the code, so they live in heaps here and the maps hold references; that is where the two
  defects at the end come from.  Every handler is a function on the server state that also returns the
  frames it sends; a nil dereference, which ends the process, is \<open>None\<close>.  The clock and the iteration
  order of maps are arguments.  The main result relates the server to a table that says which
  session each connected node is in.
\<close>

section \<open>Frames\<close>

definition KindRegisterReq :: string where [simp]: "KindRegisterReq = ''register_req''"
definition KindRegisterResp :: string where [simp]: "KindRegisterResp = ''register_resp''"
definition KindCreateSessionReq :: string where [simp]: "KindCreateSessionReq = ''create_session_req''"
definition KindCreateSessionResp :: string where [simp]: "KindCreateSessionResp = ''create_session_resp''"
definition KindJoinSessionReq :: string where [simp]: "KindJoinSessionReq = ''join_session_req''"
definition KindJoinSessionResp :: string where [simp]: "KindJoinSessionResp = ''join_session_resp''"
definition KindListPeersReq :: string where [simp]: "KindListPeersReq = ''list_peers_req''"
definition KindListPeersResp :: string where [simp]: "KindListPeersResp = ''list_peers_resp''"
definition KindListSessionsReq :: string where [simp]: "KindListSessionsReq = ''list_sessions_req''"
definition KindListSessionsResp :: string where [simp]: "KindListSessionsResp = ''list_sessions_resp''"
definition KindHeartbeatReq :: string where [simp]: "KindHeartbeatReq = ''heartbeat_req''"
definition KindHeartbeatResp :: string where [simp]: "KindHeartbeatResp = ''heartbeat_resp''"
definition KindGameStart :: string where [simp]: "KindGameStart = ''game_start''"

record Frame =
  FKind :: string
  FRequestID :: string
  FNodeID :: string
  FSessionID :: string
  FPeerAddr :: string
  FMessageType :: string
  FPayload :: bytes
  FSuccess :: bool
  FError :: string
  FPeerIDs :: "string list"
  FPeerAddresses :: "string list"
  FSessionIDs :: "string list"
  FLeaseExpiresUnix :: int
  FPublicKey :: bytes
  FTimeoutIntervalMS :: u64
  FMaxAttempts :: u32

text \<open>A frame of a kind with every other field zero.\<close>

definition frame_of :: "string \<Rightarrow> Frame" where
  "frame_of k = \<lparr>FKind = k, FRequestID = [], FNodeID = [], FSessionID = [], FPeerAddr = [], FMessageType = [],
     FPayload = [], FSuccess = False, FError = [], FPeerIDs = [], FPeerAddresses = [], FSessionIDs = [],
     FLeaseExpiresUnix = 0, FPublicKey = [], FTimeoutIntervalMS = 0, FMaxAttempts = 0\<rparr>"

section \<open>State\<close>

text \<open>
  Sessions and connections are shared through pointers, so both live in a heap that only grows, and
  the maps hold references.  Times are nanoseconds.
\<close>

record DispatchConfig =
  Address :: string
  LeaseTTL :: int
  SessionTimeout :: int
  SessionAttempts :: u32

record session =
  sess_id :: string
  members :: "string set"
  timeoutInterval :: int
  maxAttempts :: u32

record nodeConn =
  nc_id :: string
  peerAddr :: string
  sessionID :: string
  leaseUntil :: int
  conn :: nat
  nc_closed :: bool

record Server =
  scfg :: DispatchConfig
  sessions :: "string \<rightharpoonup> nat"
  nodes :: "string \<rightharpoonup> nat"
  nodeCounter :: u64
  sessionCounter :: u64
  sess_heap :: "session list"
  conn_heap :: "nodeConn list"

type_synonym sends = "(nat \<times> Frame) list"

datatype config_error = AddressUnset | LeaseNotPositive

definition NewServer :: "DispatchConfig \<Rightarrow> config_error + Server" where
  "NewServer c =
     (if Address c = [] then Inl AddressUnset
      else if LeaseTTL c \<le> 0 then Inl LeaseNotPositive
      else Inr \<lparr>scfg = c, sessions = Map.empty, nodes = Map.empty, nodeCounter = 0, sessionCounter = 0,
        sess_heap = [], conn_heap = []\<rparr>)"

definition sess_at :: "Server \<Rightarrow> nat \<Rightarrow> session" where
  "sess_at s q = sess_heap s ! q"

definition conn_at :: "Server \<Rightarrow> nat \<Rightarrow> nodeConn" where
  "conn_at s r = conn_heap s ! r"

definition set_sess :: "nat \<Rightarrow> session \<Rightarrow> Server \<Rightarrow> Server" where
  "set_sess q x s = s\<lparr>sess_heap := (sess_heap s)[q := x]\<rparr>"

definition set_conn :: "nat \<Rightarrow> nodeConn \<Rightarrow> Server \<Rightarrow> Server" where
  "set_conn r x s = s\<lparr>conn_heap := (conn_heap s)[r := x]\<rparr>"

section \<open>Operations\<close>

definition nextNodeID :: "Server \<Rightarrow> string \<times> Server" where
  "nextNodeID s = (let v = nodeCounter s + 1 in (''node-'' @ itoa (unat v), s\<lparr>nodeCounter := v\<rparr>))"

definition nextSessionID :: "Server \<Rightarrow> string \<times> Server" where
  "nextSessionID s = (let v = sessionCounter s + 1 in (''session-'' @ itoa (unat v), s\<lparr>sessionCounter := v\<rparr>))"

text \<open>Unix seconds; the zero time is the year 1.\<close>

definition unix :: "int option \<Rightarrow> int" where
  "unix t = (case t of None \<Rightarrow> -62135596800 | Some ns \<Rightarrow> ns div 1000000000)"

text \<open>\<open>register\<close> gets the first frame of connection \<open>c\<close> and returns the reference of the new node, if any.\<close>

definition register :: "int \<Rightarrow> nat \<Rightarrow> Frame \<Rightarrow> Server \<Rightarrow> Server \<times> sends \<times> nat option" where
  "register now c frame s =
     (if FKind frame \<noteq> KindRegisterReq then
        (s, [(c, (frame_of KindRegisterResp)\<lparr>FError := ''first frame must be register_req''\<rparr>)], None)
      else let (nodeID, s) = (if FNodeID frame = [] then nextNodeID s else (FNodeID frame, s));
               nc = \<lparr>nc_id = nodeID, peerAddr = FPeerAddr frame, sessionID = [], leaseUntil = now + LeaseTTL (scfg s),
                     conn = c, nc_closed = False\<rparr> in
      if nodes s nodeID \<noteq> None then
        (s, [(c, (frame_of KindRegisterResp)\<lparr>FError := ''node id already connected''\<rparr>)], None)
      else let r = length (conn_heap s) in
        (s\<lparr>nodes := (nodes s)(nodeID \<mapsto> r), conn_heap := conn_heap s @ [nc]\<rparr>,
         [(c, (frame_of KindRegisterResp)\<lparr>FSuccess := True, FNodeID := nodeID, FLeaseExpiresUnix := unix (Some (leaseUntil nc))\<rparr>)],
         Some r))"

definition removeNodeFromSessionLocked :: "string \<Rightarrow> string \<Rightarrow> Server \<Rightarrow> Server" where
  "removeNodeFromSessionLocked nodeID sid s =
     (case sessions s sid of None \<Rightarrow> s
      | Some q \<Rightarrow>
          let s = set_sess q ((sess_at s q)\<lparr>members := members (sess_at s q) - {nodeID}\<rparr>) s in
          if members (sess_at s q) = {} then s\<lparr>sessions := (sessions s)(sid := None)\<rparr> else s)"

definition leave_session :: "nat \<Rightarrow> Server \<Rightarrow> Server" where
  "leave_session r s =
     (if sessionID (conn_at s r) \<noteq> [] then removeNodeFromSessionLocked (nc_id (conn_at s r)) (sessionID (conn_at s r)) s else s)"

definition handleCreateSession :: "nat \<Rightarrow> Frame \<Rightarrow> Server \<Rightarrow> Server \<times> sends" where
  "handleCreateSession r frame s =
     (let (sid, s) = (if FSessionID frame = [] then nextSessionID s else (FSessionID frame, s));
          resp = (frame_of KindCreateSessionResp)\<lparr>FRequestID := FRequestID frame\<rparr> in
      if sessions s sid \<noteq> None then (s, [(conn (conn_at s r), resp\<lparr>FError := ''session already exists''\<rparr>)])
      else let s = leave_session r s;
               q = length (sess_heap s);
               sess = \<lparr>sess_id = sid, members = {nc_id (conn_at s r)}, timeoutInterval = SessionTimeout (scfg s),
                       maxAttempts = SessionAttempts (scfg s)\<rparr>;
               s = s\<lparr>sessions := (sessions s)(sid \<mapsto> q), sess_heap := sess_heap s @ [sess]\<rparr>;
               s = set_conn r ((conn_at s r)\<lparr>sessionID := sid\<rparr>) s in
        (s, [(conn (conn_at s r), resp\<lparr>FSuccess := True, FSessionID := sid\<rparr>)]))"

text \<open>The session is looked up before the caller leaves its old one, and updated through the pointer after.\<close>

definition handleJoinSession :: "nat \<Rightarrow> Frame \<Rightarrow> Server \<Rightarrow> Server \<times> sends" where
  "handleJoinSession r frame s =
     (let resp = (frame_of KindJoinSessionResp)\<lparr>FRequestID := FRequestID frame\<rparr>; c = conn (conn_at s r) in
      if FSessionID frame = [] then (s, [(c, resp\<lparr>FError := ''session id required''\<rparr>)])
      else case sessions s (FSessionID frame) of
        None \<Rightarrow> (s, [(c, resp\<lparr>FError := ''session not found''\<rparr>)])
      | Some q \<Rightarrow>
          let s = leave_session r s;
              s = set_sess q ((sess_at s q)\<lparr>members := insert (nc_id (conn_at s r)) (members (sess_at s q))\<rparr>) s;
              s = set_conn r ((conn_at s r)\<lparr>sessionID := FSessionID frame\<rparr>) s in
          (s, [(c, resp\<lparr>FSuccess := True, FSessionID := FSessionID frame\<rparr>)]))"

text \<open>\<open>ord\<close> is the order in which a map is iterated; \<open>None\<close> is the panic on a nil session.\<close>

definition handleListPeers :: "(string set \<Rightarrow> string list) \<Rightarrow> nat \<Rightarrow> Frame \<Rightarrow> Server \<Rightarrow> (Server \<times> sends) option" where
  "handleListPeers ord r frame s =
     (let resp = (frame_of KindListPeersResp)\<lparr>FRequestID := FRequestID frame\<rparr>; c = conn (conn_at s r); sid = sessionID (conn_at s r) in
      if sid = [] then Some (s, [(c, resp\<lparr>FError := ''node is not in session''\<rparr>)])
      else case sessions s sid of None \<Rightarrow> None
      | Some q \<Rightarrow>
          let ids = filter (\<lambda>i. nodes s i \<noteq> None) (ord (members (sess_at s q))) in
          Some (s, [(c, resp\<lparr>FSuccess := True, FSessionID := sid, FPeerIDs := ids,
            FPeerAddresses := map (\<lambda>i. peerAddr (conn_at s (the (nodes s i)))) ids\<rparr>)]))"

definition handleListSessions :: "(string set \<Rightarrow> string list) \<Rightarrow> nat \<Rightarrow> Frame \<Rightarrow> Server \<Rightarrow> Server \<times> sends" where
  "handleListSessions ord r frame s =
     (s, [(conn (conn_at s r), (frame_of KindListSessionsResp)\<lparr>FRequestID := FRequestID frame, FSuccess := True,
        FSessionIDs := ord (dom (sessions s))\<rparr>)])"

definition renewLease :: "int \<Rightarrow> string \<Rightarrow> Server \<Rightarrow> int option \<times> Server" where
  "renewLease now nodeID s =
     (case nodes s nodeID of None \<Rightarrow> (None, s)
      | Some r \<Rightarrow> let lease = now + LeaseTTL (scfg s) in (Some lease, set_conn r ((conn_at s r)\<lparr>leaseUntil := lease\<rparr>) s))"

definition handleHeartbeat :: "int \<Rightarrow> nat \<Rightarrow> Frame \<Rightarrow> Server \<Rightarrow> Server \<times> sends" where
  "handleHeartbeat now r frame s =
     (let (lease, s) = renewLease now (nc_id (conn_at s r)) s in
      (s, [(conn (conn_at s r), (frame_of KindHeartbeatResp)\<lparr>FRequestID := FRequestID frame, FSuccess := True,
         FLeaseExpiresUnix := unix lease\<rparr>)]))"

text \<open>
  The broadcast.  \<^verbatim>\<open>sort.Strings\<close> is byte order; the division into milliseconds truncates and is
  converted to \<^verbatim>\<open>uint64\<close>.
\<close>

definition handleGameStart :: "nat \<Rightarrow> Frame \<Rightarrow> Server \<Rightarrow> Server \<times> sends" where
  "handleGameStart r frame s =
     (case sessions s (sessionID (conn_at s r)) of
        None \<Rightarrow> (s, [(conn (conn_at s r), (frame_of KindGameStart)\<lparr>FError := ''node is not in a session''\<rparr>)])
      | Some q \<Rightarrow>
          let memberIDs = sorted_list_of_set (members (sess_at s q));
              timeout = timeoutInterval (sess_at s q);
              start = (frame_of KindGameStart)\<lparr>FSessionID := sessionID (conn_at s r), FPeerIDs := memberIDs, FSuccess := True,
                FTimeoutIntervalMS := of_int (sgn timeout * (\<bar>timeout\<bar> div 1000000)), FMaxAttempts := maxAttempts (sess_at s q)\<rparr> in
          (s, map (\<lambda>i. (conn (conn_at s (the (nodes s i))), start)) (filter (\<lambda>i. nodes s i \<noteq> None) memberIDs)))"

definition handleFrame :: "(string set \<Rightarrow> string list) \<Rightarrow> int \<Rightarrow> nat \<Rightarrow> Frame \<Rightarrow> Server \<Rightarrow> (Server \<times> sends) option" where
  "handleFrame ord now r frame s =
     (let s = snd (renewLease now (nc_id (conn_at s r)) s) in
      if FKind frame = KindCreateSessionReq then Some (handleCreateSession r frame s)
      else if FKind frame = KindJoinSessionReq then Some (handleJoinSession r frame s)
      else if FKind frame = KindListPeersReq then handleListPeers ord r frame s
      else if FKind frame = KindListSessionsReq then Some (handleListSessions ord r frame s)
      else if FKind frame = KindHeartbeatReq then Some (handleHeartbeat now r frame s)
      else if FKind frame = KindGameStart then Some (handleGameStart r frame s)
      else Some (s, [(conn (conn_at s r), (frame_of (FKind frame))\<lparr>FRequestID := FRequestID frame,
        FError := ''unknown frame kind''\<rparr>)]))"

definition disconnect :: "string \<Rightarrow> Server \<Rightarrow> Server" where
  "disconnect nodeID s =
     (case nodes s nodeID of None \<Rightarrow> s
      | Some r \<Rightarrow>
          let s = s\<lparr>nodes := (nodes s)(nodeID := None)\<rparr>;
              s = (if sessionID (conn_at s r) \<noteq> [] then removeNodeFromSessionLocked nodeID (sessionID (conn_at s r)) s else s) in
          set_conn r ((conn_at s r)\<lparr>nc_closed := True\<rparr>) s)"

text \<open>The nodes the reaper finds expired at \<open>now\<close>; it disconnects them afterwards, one lock at a time.\<close>

definition lease_expired :: "(string set \<Rightarrow> string list) \<Rightarrow> int \<Rightarrow> Server \<Rightarrow> string list" where
  "lease_expired ord now s = filter (\<lambda>i. leaseUntil (conn_at s (the (nodes s i))) < now) (ord (dom (nodes s)))"

definition GetSessions :: "(string set \<Rightarrow> string list) \<Rightarrow> Server \<Rightarrow> string list" where
  "GetSessions ord s = map (\<lambda>i. sess_id (sess_at s (the (sessions s i)))) (ord (dom (sessions s)))"

text \<open>\<^verbatim>\<open>None\<close> is the panic on an unknown session.\<close>

definition GetUsersInSession :: "string \<Rightarrow> Server \<Rightarrow> string set option" where
  "GetUsersInSession sid s = map_option (\<lambda>q. members (sess_at s q)) (sessions s sid)"

section \<open>What the server promises\<close>

text \<open>
  The abstract state: which session each connected node is in, with the empty name for none.  The
  server implements it when its sessions are exactly the inhabited ones and hold exactly their
  inhabitants.
\<close>

type_synonym rooms = "string \<rightharpoonup> string"

definition where_is :: "Server \<Rightarrow> rooms" where
  "where_is s i = map_option (\<lambda>r. sessionID (conn_at s r)) (nodes s i)"

definition inhabitants :: "rooms \<Rightarrow> string \<Rightarrow> string set" where
  "inhabitants w sid = {i. w i = Some sid}"

definition holds :: "rooms \<Rightarrow> Server \<Rightarrow> bool" where
  "holds w s \<longleftrightarrow> (\<forall>sid. case sessions s sid of
       None \<Rightarrow> sid = [] \<or> inhabitants w sid = {}
     | Some q \<Rightarrow> sid \<noteq> [] \<and> q < length (sess_heap s) \<and> sess_id (sess_at s q) = sid \<and>
         members (sess_at s q) = inhabitants w sid \<and> inhabitants w sid \<noteq> {})"

definition conns_ok :: "Server \<Rightarrow> bool" where
  "conns_ok s \<longleftrightarrow> finite (dom (nodes s)) \<and> (\<forall>i r. nodes s i = Some r \<longrightarrow> r < length (conn_heap s) \<and> nc_id (conn_at s r) = i)"

definition exact :: "Server \<Rightarrow> bool" where
  "exact s \<longleftrightarrow> conns_ok s \<and> holds (where_is s) s"

definition current :: "nat \<Rightarrow> Server \<Rightarrow> bool" where
  "current r s \<longleftrightarrow> nodes s (nc_id (conn_at s r)) = Some r"

text \<open>The only member of a session asks to join it again.\<close>

definition lone_rejoin :: "nat \<Rightarrow> Frame \<Rightarrow> Server \<Rightarrow> bool" where
  "lone_rejoin r frame s \<longleftrightarrow> FKind frame = KindJoinSessionReq \<and> FSessionID frame = sessionID (conn_at s r) \<and>
     inhabitants (where_is s) (FSessionID frame) = {nc_id (conn_at s r)}"

lemma holdsD:
  assumes "holds w s" "sessions s sid = Some q"
  shows "sid \<noteq> []" "q < length (sess_heap s)" "sess_id (sess_at s q) = sid" "members (sess_at s q) = inhabitants w sid"
    "inhabitants w sid \<noteq> {}"
proof -
  have "case sessions s sid of None \<Rightarrow> sid = [] \<or> inhabitants w sid = {}
     | Some q \<Rightarrow> sid \<noteq> [] \<and> q < length (sess_heap s) \<and> sess_id (sess_at s q) = sid \<and>
         members (sess_at s q) = inhabitants w sid \<and> inhabitants w sid \<noteq> {}"
    using assms(1) unfolding holds_def by (rule spec)
  then show "sid \<noteq> []" "q < length (sess_heap s)" "sess_id (sess_at s q) = sid" "members (sess_at s q) = inhabitants w sid"
    "inhabitants w sid \<noteq> {}" unfolding assms(2) by simp_all
qed

lemma holds_None:
  assumes "holds w s" "sessions s sid = None"
  shows "sid = [] \<or> inhabitants w sid = {}"
proof -
  have "case sessions s sid of None \<Rightarrow> sid = [] \<or> inhabitants w sid = {}
     | Some q \<Rightarrow> sid \<noteq> [] \<and> q < length (sess_heap s) \<and> sess_id (sess_at s q) = sid \<and>
         members (sess_at s q) = inhabitants w sid \<and> inhabitants w sid \<noteq> {}"
    using assms(1) unfolding holds_def by (rule spec)
  then show ?thesis unfolding assms(2) by simp
qed

lemma holds_inj: "holds w s \<Longrightarrow> sessions s sid = Some q \<Longrightarrow> sessions s sid' = Some q \<Longrightarrow> sid = sid'"
  using holdsD(3) by metis

lemma holds_cong:
  assumes "holds w s" "sessions t = sessions s" "sess_heap t = sess_heap s" "\<forall>sid. sid \<noteq> [] \<longrightarrow> inhabitants w' sid = inhabitants w sid"
  shows "holds w' t"
  unfolding holds_def
proof
  fix sid
  show "case sessions t sid of None \<Rightarrow> sid = [] \<or> inhabitants w' sid = {}
    | Some q \<Rightarrow> sid \<noteq> [] \<and> q < length (sess_heap t) \<and> sess_id (sess_at t q) = sid \<and>
         members (sess_at t q) = inhabitants w' sid \<and> inhabitants w' sid \<noteq> {}"
    using assms holdsD [OF assms(1), of sid] holds_None [OF assms(1), of sid]
    by (cases "sessions s sid") (auto simp: sess_at_def)
qed

lemma holds_remove:
  assumes h: "holds w s" and i: "w i = Some sid" "sid \<noteq> []"
  shows "holds (w(i := None)) (removeNodeFromSessionLocked i sid s)"
    "sessions (removeNodeFromSessionLocked i sid s) sid' =
       (if sid' = sid \<and> inhabitants w sid = {i} then None else sessions s sid')"
proof -
  have "i \<in> inhabitants w sid" using i by (simp add: inhabitants_def)
  then obtain q where q: "sessions s sid = Some q" using holds_None [OF h, of sid] i(2) by (cases "sessions s sid") auto
  note D = holdsD [OF h q]
  have mem: "members (sess_at s q) - {i} = inhabitants (w(i := None)) sid"
    using D(4) by (auto simp: inhabitants_def)
  have other: "inhabitants (w(i := None)) x = inhabitants w x" if "x \<noteq> sid" for x
    using i that by (auto simp: inhabitants_def)
  have nq: "q' \<noteq> q" if "sessions s x = Some q'" "x \<noteq> sid" for x q' using holds_inj [OF h q] that by blast
  have empty: "inhabitants (w(i := None)) sid = {} \<longleftrightarrow> inhabitants w sid = {i}"
    using i(1) by (auto simp: inhabitants_def split: if_splits)
  show "holds (w(i := None)) (removeNodeFromSessionLocked i sid s)" unfolding holds_def
  proof
    fix x
    let ?t = "removeNodeFromSessionLocked i sid s"
    show "case sessions ?t x of None \<Rightarrow> x = [] \<or> inhabitants (w(i := None)) x = {}
      | Some q \<Rightarrow> x \<noteq> [] \<and> q < length (sess_heap ?t) \<and> sess_id (sess_at ?t q) = x \<and>
           members (sess_at ?t q) = inhabitants (w(i := None)) x \<and> inhabitants (w(i := None)) x \<noteq> {}"
    proof (cases "x = sid")
      case True
      then show ?thesis using q D(1-3) mem by (simp add: removeNodeFromSessionLocked_def set_sess_def sess_at_def Let_def)
    next
      case False
      have t: "sessions ?t x = sessions s x" "\<forall>q' \<noteq> q. sess_at ?t q' = sess_at s q'" "length (sess_heap ?t) = length (sess_heap s)"
        using q False by (simp_all add: removeNodeFromSessionLocked_def set_sess_def sess_at_def Let_def)
      show ?thesis
      proof (cases "sessions s x")
        case None
        then show ?thesis using t other [OF False] holds_None [OF h None] by simp
      next
        case (Some q')
        then show ?thesis using t other [OF False] holdsD [OF h Some] nq [OF Some False] by simp
      qed
    qed
  qed
  show "sessions (removeNodeFromSessionLocked i sid s) sid' =
       (if sid' = sid \<and> inhabitants w sid = {i} then None else sessions s sid')"
    using q D(2) mem empty by (simp add: removeNodeFromSessionLocked_def set_sess_def sess_at_def Let_def)
qed

lemma remove_conns [simp]:
  "nodes (removeNodeFromSessionLocked i sid s) = nodes s" "conn_heap (removeNodeFromSessionLocked i sid s) = conn_heap s"
  "conn_at (removeNodeFromSessionLocked i sid s) r = conn_at s r" "scfg (removeNodeFromSessionLocked i sid s) = scfg s"
  by (simp_all add: removeNodeFromSessionLocked_def set_sess_def conn_at_def Let_def split: option.splits)

lemma leave_conns [simp]:
  "nodes (leave_session r s) = nodes s" "conn_heap (leave_session r s) = conn_heap s"
  "conn_at (leave_session r s) x = conn_at s x" "scfg (leave_session r s) = scfg s"
  by (simp_all add: leave_session_def)

lemma holds_idle: "w i = None \<or> w i = Some [] \<Longrightarrow> holds (w(i := None)) s \<longleftrightarrow> holds w s"
  by (rule iffI; erule holds_cong) (auto simp: inhabitants_def split: if_splits)

lemma where_current: "current r s \<Longrightarrow> where_is s (nc_id (conn_at s r)) = Some (sessionID (conn_at s r))"
  by (simp add: current_def where_is_def)

lemma holds_leave:
  assumes h: "holds (where_is s) s" and r: "current r s"
  defines "i \<equiv> nc_id (conn_at s r)" and "sid \<equiv> sessionID (conn_at s r)"
  shows "holds ((where_is s)(i := None)) (leave_session r s)"
    "sessions (leave_session r s) x = (if x = sid \<and> sid \<noteq> [] \<and> inhabitants (where_is s) sid = {i} then None else sessions s x)"
proof -
  have w: "where_is s i = Some sid" using where_current [OF r] by (simp add: i_def sid_def)
  show "holds ((where_is s)(i := None)) (leave_session r s)"
    using holds_remove(1) [OF h w] holds_idle [of "where_is s" i] h w
    by (simp add: leave_session_def i_def sid_def)
  show "sessions (leave_session r s) x = (if x = sid \<and> sid \<noteq> [] \<and> inhabitants (where_is s) sid = {i} then None else sessions s x)"
    using holds_remove(2) [OF h w] by (simp add: leave_session_def i_def sid_def)
qed

text \<open>The promise: what each request does to the rooms.\<close>

definition spec_register :: "string \<Rightarrow> rooms \<Rightarrow> rooms" where
  "spec_register i w = (if w i = None then w(i \<mapsto> []) else w)"

definition spec_frame :: "string \<Rightarrow> string \<Rightarrow> Frame \<Rightarrow> rooms \<Rightarrow> rooms" where
  "spec_frame i generated frame w =
     (let sid = (if FSessionID frame = [] then generated else FSessionID frame) in
      if FKind frame = KindCreateSessionReq \<and> inhabitants w sid = {} then w(i \<mapsto> sid)
      else if FKind frame = KindJoinSessionReq \<and> FSessionID frame \<noteq> [] \<and> inhabitants w (FSessionID frame) \<noteq> {}
      then w(i \<mapsto> FSessionID frame) else w)"

lemma set_conn_simps [simp]:
  "nodes (set_conn r x s) = nodes s" "sessions (set_conn r x s) = sessions s" "sess_heap (set_conn r x s) = sess_heap s"
  "length (conn_heap (set_conn r x s)) = length (conn_heap s)" "scfg (set_conn r x s) = scfg s" "sess_at (set_conn r x s) q = sess_at s q"
  "conn_at (set_conn r x s) y = (if y = r \<and> r < length (conn_heap s) then x else conn_at s y)"
  "sessionCounter (set_conn r x s) = sessionCounter s"
  by (auto simp: set_conn_def conn_at_def sess_at_def nth_list_update list_update_beyond)

lemma exactD:
  assumes "exact s"
  shows "conns_ok s" "holds (where_is s) s" "finite (dom (nodes s))"
    "nodes s i = Some r \<Longrightarrow> r < length (conn_heap s)" "nodes s i = Some r \<Longrightarrow> nc_id (conn_at s r) = i"
  using assms by (auto simp: exact_def conns_ok_def)

lemma sessions_inhabited:
  assumes "exact s" "sid \<noteq> []"
  shows "sessions s sid = None \<longleftrightarrow> inhabitants (where_is s) sid = {}"
  using holds_None [OF exactD(2) [OF assms(1)], of sid] holdsD(5) [OF exactD(2) [OF assms(1)], of sid] assms(2)
  by (cases "sessions s sid") auto

text \<open>Changes to a connection that keep its name and session change nothing the promise sees.\<close>

lemma exact_set_conn:
  assumes "exact s" "nc_id x = nc_id (conn_at s r)" "sessionID x = sessionID (conn_at s r)"
  shows "exact (set_conn r x s)" "where_is (set_conn r x s) = where_is s"
proof -
  show w: "where_is (set_conn r x s) = where_is s"
  proof
    fix i
    show "where_is (set_conn r x s) i = where_is s i" using assms(3) by (cases "nodes s i") (auto simp: where_is_def)
  qed
  have "holds (where_is s) (set_conn r x s)" by (rule holds_cong [OF exactD(2) [OF assms(1)]]) simp_all
  moreover have "conns_ok (set_conn r x s)" using exactD(1) [OF assms(1)] assms(2) by (auto simp: conns_ok_def)
  ultimately show "exact (set_conn r x s)" using w by (simp add: exact_def)
qed

lemma renewLease_exact:
  assumes "exact s"
  shows "exact (snd (renewLease now i s))" "where_is (snd (renewLease now i s)) = where_is s"
    "nodes (snd (renewLease now i s)) = nodes s" "sessionCounter (snd (renewLease now i s)) = sessionCounter s"
    "nc_id (conn_at (snd (renewLease now i s)) r) = nc_id (conn_at s r)"
    "sessionID (conn_at (snd (renewLease now i s)) r) = sessionID (conn_at s r)"
    "sessions (snd (renewLease now i s)) = sessions s"
  using exact_set_conn [OF assms] assms
  by (cases "nodes s i"; simp add: renewLease_def Let_def)+

lemma exact_entered:
  assumes ex: "exact s" and r: "current r s"
    and h: "holds ((where_is s)(nc_id (conn_at s r) \<mapsto> sid)) t"
    and t: "nodes t = nodes s" "conn_heap t = conn_heap s"
  defines "x \<equiv> (conn_at s r)\<lparr>sessionID := sid\<rparr>"
  shows "exact (set_conn r x t)" "where_is (set_conn r x t) = (where_is s)(nc_id (conn_at s r) \<mapsto> sid)"
proof -
  have c: "conn_at t y = conn_at s y" for y using t(2) by (simp add: conn_at_def)
  have rl: "r < length (conn_heap s)" using exactD(4) [OF ex] r by (auto simp: current_def)
  show w: "where_is (set_conn r x t) = (where_is s)(nc_id (conn_at s r) \<mapsto> sid)"
  proof
    fix i
    show "where_is (set_conn r x t) i = ((where_is s)(nc_id (conn_at s r) \<mapsto> sid)) i"
      using exactD(5) [OF ex, of i] r rl t c
      by (cases "nodes s i") (auto simp: where_is_def x_def current_def)
  qed
  have "conns_ok (set_conn r x t)" using exactD(1) [OF ex] t c by (auto simp: conns_ok_def x_def)
  moreover have "holds (where_is (set_conn r x t)) (set_conn r x t)"
    unfolding w by (rule holds_cong [OF h]) simp_all
  ultimately show "exact (set_conn r x t)" by (simp add: exact_def)
qed

lemma holds_new_session:
  assumes h: "holds (w(i := None)) s" and sid: "sid \<noteq> []" "sessions s sid = None"
    and sess: "sess_id sess = sid" "members sess = {i}"
  shows "holds (w(i \<mapsto> sid)) (s\<lparr>sessions := (sessions s)(sid \<mapsto> length (sess_heap s)), sess_heap := sess_heap s @ [sess]\<rparr>)"
  unfolding holds_def
proof
  fix x
  let ?t = "s\<lparr>sessions := (sessions s)(sid \<mapsto> length (sess_heap s)), sess_heap := sess_heap s @ [sess]\<rparr>"
  have other: "inhabitants (w(i \<mapsto> sid)) x = inhabitants (w(i := None)) x" if "x \<noteq> sid"
    using that by (auto simp: inhabitants_def)
  have mine: "inhabitants (w(i \<mapsto> sid)) sid = {i}" using holds_None [OF h sid(2)] sid(1) by (auto simp: inhabitants_def split: if_splits)
  show "case sessions ?t x of None \<Rightarrow> x = [] \<or> inhabitants (w(i \<mapsto> sid)) x = {}
    | Some q \<Rightarrow> x \<noteq> [] \<and> q < length (sess_heap ?t) \<and> sess_id (sess_at ?t q) = x \<and>
         members (sess_at ?t q) = inhabitants (w(i \<mapsto> sid)) x \<and> inhabitants (w(i \<mapsto> sid)) x \<noteq> {}"
  proof (cases "x = sid")
    case True
    then show ?thesis using mine sess sid by (simp add: sess_at_def)
  next
    case False
    show ?thesis
    proof (cases "sessions s x")
      case None
      then show ?thesis using False other holds_None [OF h None] by simp
    next
      case (Some q)
      then show ?thesis using False other holdsD [OF h Some] by (simp add: sess_at_def nth_append)
    qed
  qed
qed

lemma holds_enter:
  assumes h: "holds (w(i := None)) s" and q: "sessions s sid = Some q"
  shows "holds (w(i \<mapsto> sid)) (set_sess q ((sess_at s q)\<lparr>members := insert i (members (sess_at s q))\<rparr>) s)"
  unfolding holds_def
proof
  fix x
  let ?t = "set_sess q ((sess_at s q)\<lparr>members := insert i (members (sess_at s q))\<rparr>) s"
  note D = holdsD [OF h q]
  have other: "inhabitants (w(i \<mapsto> sid)) x = inhabitants (w(i := None)) x" if "x \<noteq> sid"
    using that by (auto simp: inhabitants_def)
  have mine: "inhabitants (w(i \<mapsto> sid)) sid = insert i (inhabitants (w(i := None)) sid)" by (auto simp: inhabitants_def)
  have t: "sessions ?t = sessions s" "length (sess_heap ?t) = length (sess_heap s)"
    "sess_at ?t y = (if y = q then (sess_at s q)\<lparr>members := insert i (members (sess_at s q))\<rparr> else sess_at s y)" for y
    using D(2) by (auto simp: set_sess_def sess_at_def)
  show "case sessions ?t x of None \<Rightarrow> x = [] \<or> inhabitants (w(i \<mapsto> sid)) x = {}
    | Some q \<Rightarrow> x \<noteq> [] \<and> q < length (sess_heap ?t) \<and> sess_id (sess_at ?t q) = x \<and>
         members (sess_at ?t q) = inhabitants (w(i \<mapsto> sid)) x \<and> inhabitants (w(i \<mapsto> sid)) x \<noteq> {}"
  proof (cases "x = sid")
    case True
    then show ?thesis using mine D q t by simp
  next
    case False
    show ?thesis
    proof (cases "sessions s x")
      case None
      then show ?thesis using False other t holds_None [OF h None] by simp
    next
      case (Some y)
      then have "y \<noteq> q" using holds_inj [OF h q] False by blast
      then show ?thesis using False other t holdsD [OF h Some] Some by simp
    qed
  qed
qed

text \<open>Each operation does what is promised.\<close>

lemma exact_same_view:
  assumes "exact s" "sessions t = sessions s" "sess_heap t = sess_heap s" "nodes t = nodes s" "conn_heap t = conn_heap s"
  shows "exact t" "where_is t = where_is s"
proof -
  have c: "conn_at t y = conn_at s y" for y using assms(5) by (simp add: conn_at_def)
  show w: "where_is t = where_is s" by (rule ext) (simp add: where_is_def assms(4) c)
  have "holds (where_is s) t" by (rule holds_cong [OF exactD(2) [OF assms(1)] assms(2, 3)]) simp
  then show "exact t" using assms(1, 4, 5) c by (simp add: exact_def conns_ok_def w)
qed

lemma handleCreateSession_refines:
  assumes ex: "exact s" and r: "current r s" and k: "FKind frame = KindCreateSessionReq"
  defines "t \<equiv> fst (handleCreateSession r frame s)"
  shows "exact t \<and> where_is t = spec_frame (nc_id (conn_at s r)) (fst (nextSessionID s)) frame (where_is s)"
proof -
  define sid where "sid = (if FSessionID frame = [] then fst (nextSessionID s) else FSessionID frame)"
  define s1 where "s1 = (if FSessionID frame = [] then snd (nextSessionID s) else s)"
  have sid: "sid \<noteq> []" by (simp add: sid_def nextSessionID_def Let_def)
  have pair: "(if FSessionID frame = [] then nextSessionID s else (FSessionID frame, s)) = (sid, s1)"
    by (simp add: sid_def s1_def)
  have s1: "sessions s1 = sessions s" "sess_heap s1 = sess_heap s" "nodes s1 = nodes s" "conn_heap s1 = conn_heap s"
    by (simp_all add: s1_def nextSessionID_def Let_def)
  note ex1 = exact_same_view [OF ex s1]
  have c1: "conn_at s1 y = conn_at s y" for y using s1(4) by (simp add: conn_at_def)
  have r1: "current r s1" using r s1(3) c1 by (simp add: current_def)
  show ?thesis
  proof (cases "sessions s1 sid")
    case (Some q)
    then have "inhabitants (where_is s) sid \<noteq> {}" using sessions_inhabited [OF ex1(1) sid] ex1(2) by simp
    then show ?thesis
      using Some ex1 k by (simp add: t_def handleCreateSession_def pair Let_def spec_frame_def sid_def [symmetric])
  next
    case None
    let ?i = "nc_id (conn_at s1 r)"
    let ?s2 = "leave_session r s1"
    let ?sess = "\<lparr>sess_id = sid, members = {?i}, timeoutInterval = SessionTimeout (scfg s1), maxAttempts = SessionAttempts (scfg s1)\<rparr>"
    let ?s3 = "?s2\<lparr>sessions := (sessions ?s2)(sid \<mapsto> length (sess_heap ?s2)), sess_heap := sess_heap ?s2 @ [?sess]\<rparr>"
    have gone: "sessions ?s2 sid = None" using holds_leave(2) [OF exactD(2) [OF ex1(1)] r1] None by simp
    have "holds ((where_is s1)(?i \<mapsto> sid)) ?s3"
      by (rule holds_new_session [OF holds_leave(1) [OF exactD(2) [OF ex1(1)] r1] sid gone]) simp_all
    note ent = exact_entered [OF ex1(1) r1 this]
    have t: "t = set_conn r ((conn_at s1 r)\<lparr>sessionID := sid\<rparr>) ?s3"
      using None by (simp add: t_def handleCreateSession_def pair Let_def) (simp add: conn_at_def)
    have "inhabitants (where_is s) sid = {}" using sessions_inhabited [OF ex1(1) sid] ex1(2) None by simp
    then have "spec_frame (nc_id (conn_at s r)) (fst (nextSessionID s)) frame (where_is s) = (where_is s)(nc_id (conn_at s r) \<mapsto> sid)"
      using k by (simp add: spec_frame_def sid_def [symmetric] Let_def)
    then show ?thesis using ent ex1(2) c1 unfolding t by simp
  qed
qed

lemma handleJoinSession_refines:
  assumes ex: "exact s" and r: "current r s" and k: "FKind frame = KindJoinSessionReq" and lone: "\<not> lone_rejoin r frame s"
  defines "t \<equiv> fst (handleJoinSession r frame s)"
  shows "exact t \<and> where_is t = spec_frame (nc_id (conn_at s r)) g frame (where_is s)"
proof (cases "FSessionID frame = [] \<or> sessions s (FSessionID frame) = None")
  case True
  then have "t = s" by (auto simp: t_def handleJoinSession_def Let_def)
  moreover have "FSessionID frame = [] \<or> inhabitants (where_is s) (FSessionID frame) = {}"
    using True sessions_inhabited [OF ex] by blast
  ultimately show ?thesis using ex k by (auto simp: spec_frame_def Let_def)
next
  case False
  let ?sid = "FSessionID frame" and ?i = "nc_id (conn_at s r)" and ?s2 = "leave_session r s"
  obtain q where q: "?sid \<noteq> []" "sessions s ?sid = Some q" using False by blast
  have inh: "inhabitants (where_is s) ?sid \<noteq> {}" using sessions_inhabited [OF ex q(1)] q(2) by simp
  have "sessions ?s2 ?sid = Some q" using holds_leave(2) [OF exactD(2) [OF ex] r] q(2) lone k by (auto simp: lone_rejoin_def)
  note h = holds_enter [OF holds_leave(1) [OF exactD(2) [OF ex] r] this]
  let ?s3 = "set_sess q ((sess_at ?s2 q)\<lparr>members := insert ?i (members (sess_at ?s2 q))\<rparr>) ?s2"
  have same: "nodes ?s3 = nodes s" "conn_heap ?s3 = conn_heap s" by (simp_all add: set_sess_def)
  have "t = set_conn r ((conn_at s r)\<lparr>sessionID := ?sid\<rparr>) ?s3"
    using q same by (simp add: t_def handleJoinSession_def Let_def) (simp add: conn_at_def)
  then show ?thesis using exact_entered [OF ex r h same] inh k q(1) by (simp add: spec_frame_def Let_def)
qed

lemma handleFrame_refines:
  assumes ex: "exact s" and r: "current r s" and lone: "\<not> lone_rejoin r frame s"
  shows "\<exists>t out. handleFrame ord now r frame s = Some (t, out) \<and> exact t \<and>
    where_is t = spec_frame (nc_id (conn_at s r)) (fst (nextSessionID s)) frame (where_is s)"
proof -
  define u where "u = snd (renewLease now (nc_id (conn_at s r)) s)"
  note u = renewLease_exact [OF ex, of now "nc_id (conn_at s r)", folded u_def]
  have ru: "current r u" using r u(3, 5) by (simp add: current_def)
  have lu: "\<not> lone_rejoin r frame u" using lone u(2, 5, 6) by (simp add: lone_rejoin_def)
  have gu: "fst (nextSessionID u) = fst (nextSessionID s)" using u(4) by (simp add: nextSessionID_def Let_def)
  consider "FKind frame = KindCreateSessionReq" | "FKind frame = KindJoinSessionReq" | "FKind frame = KindListPeersReq"
    | "FKind frame \<notin> {KindCreateSessionReq, KindJoinSessionReq, KindListPeersReq}" by blast
  then show ?thesis
  proof cases
    case 1
    then show ?thesis using handleCreateSession_refines [OF u(1) ru 1] u(2, 5) gu
      by (cases "handleCreateSession r frame u") (simp add: handleFrame_def Let_def u_def [symmetric])
  next
    case 2
    then show ?thesis using handleJoinSession_refines [OF u(1) ru 2 lu] u(2, 5) gu
      by (cases "handleJoinSession r frame u") (simp add: handleFrame_def Let_def u_def [symmetric])
  next
    case 3
    have "sessionID (conn_at u r) = [] \<or> sessions u (sessionID (conn_at u r)) \<noteq> None"
      using sessions_inhabited [OF u(1), of "sessionID (conn_at u r)"] where_current [OF ru] by (auto simp: inhabitants_def)
    then show ?thesis using 3 u(1, 2)
      by (auto simp: handleFrame_def Let_def u_def [symmetric] handleListPeers_def spec_frame_def)
  next
    case 4
    then have "spec_frame (nc_id (conn_at s r)) (fst (nextSessionID s)) frame (where_is s) = where_is s"
      by (auto simp: spec_frame_def Let_def)
    then show ?thesis using 4 u(1, 2) renewLease_exact [OF u(1), of now "nc_id (conn_at u r)"]
      by (auto simp: handleFrame_def Let_def u_def [symmetric] handleListSessions_def handleHeartbeat_def handleGameStart_def
          split: option.splits prod.splits)
  qed
qed

lemma disconnect_refines:
  assumes ex: "exact s"
  shows "exact (disconnect i s) \<and> where_is (disconnect i s) = (where_is s)(i := None)"
proof (cases "nodes s i")
  case None
  then have "where_is s i = None" by (simp add: where_is_def)
  then show ?thesis using None ex by (auto simp: disconnect_def)
next
  case (Some r)
  note D = exactD [OF ex]
  have id: "nc_id (conn_at s r) = i" using D(5) [OF Some] .
  have r: "current r s" using Some id by (simp add: current_def)
  let ?s1 = "s\<lparr>nodes := (nodes s)(i := None)\<rparr>"
  let ?s2 = "leave_session r ?s1"
  have c1: "conn_at ?s1 y = conn_at s y" for y by (simp add: conn_at_def)
  have "leave_session r ?s1 = (leave_session r s)\<lparr>nodes := (nodes s)(i := None)\<rparr>"
    by (simp add: leave_session_def c1 removeNodeFromSessionLocked_def set_sess_def sess_at_def Let_def split: option.splits)
  then have h: "holds ((where_is s)(i := None)) ?s2"
    using holds_cong [OF holds_leave(1) [OF D(2) r], of ?s2 "(where_is s)(i := None)"] id by simp
  have w: "where_is ?s2 = (where_is s)(i := None)" by (rule ext) (simp add: where_is_def c1)
  have "conns_ok ?s2" using D(1) by (auto simp: conns_ok_def c1)
  then have "exact ?s2" using h w by (simp add: exact_def)
  moreover have "disconnect i s = set_conn r ((conn_at ?s2 r)\<lparr>nc_closed := True\<rparr>) ?s2"
    using Some id by (simp add: disconnect_def Let_def leave_session_def c1)
  ultimately show ?thesis using exact_set_conn [of ?s2 "(conn_at ?s2 r)\<lparr>nc_closed := True\<rparr>" r] w by simp
qed

lemma register_refines:
  assumes ex: "exact s" and reg: "register now c frame s = (t, out, ref)"
  shows "exact t \<and> (case ref of None \<Rightarrow> where_is t = where_is s
    | Some r \<Rightarrow> current r t \<and> where_is s (nc_id (conn_at t r)) = None \<and> where_is t = (where_is s)(nc_id (conn_at t r) \<mapsto> []))"
proof (cases "FKind frame = KindRegisterReq")
  case False
  then show ?thesis using reg ex by (auto simp: register_def)
next
  case True
  define i where "i = (if FNodeID frame = [] then fst (nextNodeID s) else FNodeID frame)"
  define s1 where "s1 = (if FNodeID frame = [] then snd (nextNodeID s) else s)"
  have pair: "(if FNodeID frame = [] then nextNodeID s else (FNodeID frame, s)) = (i, s1)" by (simp add: i_def s1_def)
  have s1: "sessions s1 = sessions s" "sess_heap s1 = sess_heap s" "nodes s1 = nodes s" "conn_heap s1 = conn_heap s"
    by (simp_all add: s1_def nextNodeID_def Let_def)
  note ex1 = exact_same_view [OF ex s1]
  show ?thesis
  proof (cases "nodes s1 i")
    case (Some r)
    then show ?thesis using reg ex1 True by (auto simp: register_def pair Let_def)
  next
    case None
    define nc where "nc = \<lparr>nc_id = i, peerAddr = FPeerAddr frame, sessionID = [], leaseUntil = now + LeaseTTL (scfg s1), conn = c, nc_closed = False\<rparr>"
    have t: "t = s1\<lparr>nodes := (nodes s1)(i \<mapsto> length (conn_heap s1)), conn_heap := conn_heap s1 @ [nc]\<rparr>" "ref = Some (length (conn_heap s1))"
      using reg True None by (auto simp: register_def pair Let_def nc_def)
    have c: "conn_at t y = conn_at s1 y" if "y < length (conn_heap s1)" for y using that by (simp add: t conn_at_def nth_append)
    have new: "conn_at t (length (conn_heap s1)) = nc" by (simp add: t conn_at_def)
    have wi: "where_is s1 i = None" using None by (simp add: where_is_def)
    have w: "where_is t = (where_is s1)(i \<mapsto> [])"
    proof
      fix x
      show "where_is t x = ((where_is s1)(i \<mapsto> [])) x"
        using exactD(4) [OF ex1(1), of x] c new by (cases "x = i"; cases "nodes s1 x") (auto simp: where_is_def t(1) nc_def)
    qed
    have "\<forall>sid. sid \<noteq> [] \<longrightarrow> inhabitants ((where_is s1)(i \<mapsto> [])) sid = inhabitants (where_is s1) sid"
      using wi by (auto simp: inhabitants_def)
    moreover have "sessions t = sessions s1" "sess_heap t = sess_heap s1" by (simp_all add: t(1))
    ultimately have "holds (where_is t) t" unfolding w using holds_cong [OF exactD(2) [OF ex1(1)]] by blast
    moreover have "conns_ok t" using exactD(1) [OF ex1(1)] c new by (auto simp: conns_ok_def t(1) nc_def less_SucI split: if_splits)
    ultimately show ?thesis using w new wi t ex1(2) by (simp add: exact_def current_def nc_def)
  qed
qed

section \<open>Runs\<close>

text \<open>
  The server's goroutines, one lock section at a time: \<open>running\<close> are the connections whose handler has not
  returned, \<open>expired\<close> what the reaper has found and not yet disconnected.  \<open>ok\<close> restricts the frames
  considered.
\<close>

type_synonym serving = "Server \<times> nat set \<times> string list"

inductive serve_step :: "(string set \<Rightarrow> string list) \<Rightarrow> (nat \<Rightarrow> Frame \<Rightarrow> Server \<Rightarrow> bool) \<Rightarrow> serving \<Rightarrow> serving \<Rightarrow> bool"
  for ord ok where
  refuse_step: "register now c frame s = (s', out, None) \<Longrightarrow> serve_step ord ok (s, running, expired) (s', running, expired)"
| register_step: "register now c frame s = (s', out, Some r) \<Longrightarrow>
    serve_step ord ok (s, running, expired) (s', insert r running, expired)"
| frame_step: "r \<in> running \<Longrightarrow> ok r frame s \<Longrightarrow> handleFrame ord now r frame s = Some (s', out) \<Longrightarrow>
    serve_step ord ok (s, running, expired) (s', running, expired)"
| leave_step: "r \<in> running \<Longrightarrow>
    serve_step ord ok (s, running, expired) (disconnect (nc_id (conn_at s r)) s, running - {r}, expired)"
| scan_step: "serve_step ord ok (s, running, []) (s, running, lease_expired ord now s)"
| reap_step: "serve_step ord ok (s, running, i # expired) (disconnect i s, running, expired)"

definition orderly :: "nat \<Rightarrow> Frame \<Rightarrow> Server \<Rightarrow> bool" where
  "orderly r frame s \<longleftrightarrow> current r s \<and> \<not> lone_rejoin r frame s"

lemma NewServer_exact: "NewServer c = Inr s \<Longrightarrow> exact s"
  by (auto simp: NewServer_def exact_def conns_ok_def holds_def where_is_def inhabitants_def split: if_splits)

lemma serve_step_exact: "serve_step ord orderly x y \<Longrightarrow> exact (fst x) \<Longrightarrow> exact (fst y)"
proof (induction rule: serve_step.induct)
  case (frame_step r running frame s now s' out expired)
  then show ?case using handleFrame_refines [of s r frame ord now] by (auto simp: orderly_def)
qed (auto dest: register_refines simp: disconnect_refines)

lemma served_exact: "(serve_step ord orderly)\<^sup>*\<^sup>* (s, {}, []) y \<Longrightarrow> NewServer c = Inr s \<Longrightarrow> exact (fst y)"
  by (induction rule: rtranclp_induct) (auto simp: NewServer_exact intro: serve_step_exact)

section \<open>Properties\<close>


text \<open>A server, one client that registers as \<open>a\<close> and creates the session \<open>x\<close>.\<close>

definition demo_config :: DispatchConfig where
  "demo_config = \<lparr>Address = ''addr'', LeaseTTL = 10000000000, SessionTimeout = 30000000000, SessionAttempts = 3\<rparr>"

definition demo_server :: Server where
  "demo_server = \<lparr>scfg = demo_config, sessions = Map.empty, nodes = Map.empty, nodeCounter = 0, sessionCounter = 0,
     sess_heap = [], conn_heap = []\<rparr>"

definition demo_nc :: "int \<Rightarrow> string \<Rightarrow> nodeConn" where
  "demo_nc lease sid = \<lparr>nc_id = ''a'', peerAddr = [], sessionID = sid, leaseUntil = lease, conn = 7, nc_closed = False\<rparr>"

definition demo_server1 :: Server where
  "demo_server1 = demo_server\<lparr>nodes := [''a'' \<mapsto> 0], conn_heap := [demo_nc 10000000000 []]\<rparr>"

definition demo_server2 :: Server where
  "demo_server2 = demo_server1\<lparr>sessions := [''x'' \<mapsto> 0], conn_heap := [demo_nc 10000000000 ''x''],
     sess_heap := [\<lparr>sess_id = ''x'', members = {''a''}, timeoutInterval = 30000000000, maxAttempts = 3\<rparr>]\<rparr>"

lemma demo_new: "NewServer demo_config = Inr demo_server"
  by (simp add: NewServer_def demo_config_def demo_server_def)

lemma demo_register: "fst (register 0 7 ((frame_of KindRegisterReq)\<lparr>FNodeID := ''a''\<rparr>) demo_server) = demo_server1"
  "snd (snd (register 0 7 ((frame_of KindRegisterReq)\<lparr>FNodeID := ''a''\<rparr>) demo_server)) = Some 0"
  by (simp_all add: register_def frame_of_def demo_server_def demo_server1_def demo_nc_def demo_config_def)

lemma demo_create:
  "\<exists>out. handleFrame ord 0 0 ((frame_of KindCreateSessionReq)\<lparr>FSessionID := ''x''\<rparr>) demo_server1 = Some (demo_server2, out)"
  by (simp add: handleFrame_def frame_of_def renewLease_def demo_server1_def demo_server_def demo_nc_def demo_config_def Let_def
      handleCreateSession_def leave_session_def conn_at_def set_conn_def demo_server2_def)

lemma demo_run: "(serve_step ord orderly)\<^sup>*\<^sup>* (demo_server, {}, []) (demo_server2, {0}, [])"
proof -
  have "register 0 7 ((frame_of KindRegisterReq)\<lparr>FNodeID := ''a''\<rparr>) demo_server =
      (demo_server1, fst (snd (register 0 7 ((frame_of KindRegisterReq)\<lparr>FNodeID := ''a''\<rparr>) demo_server)), Some 0)"
    using demo_register by (metis prod.collapse)
  then have "serve_step ord orderly (demo_server, {}, []) (demo_server1, {0}, [])" by (rule register_step)
  moreover have "orderly 0 ((frame_of KindCreateSessionReq)\<lparr>FSessionID := ''x''\<rparr>) demo_server1"
    by (simp add: orderly_def current_def lone_rejoin_def frame_of_def conn_at_def demo_server1_def demo_nc_def)
  then have "serve_step ord orderly (demo_server1, {0}, []) (demo_server2, {0}, [])"
    using demo_create frame_step [of 0 "{0}" orderly] by blast
  ultimately show ?thesis by (meson rtranclp.rtrancl_into_rtrancl rtranclp.rtrancl_refl)
qed


lemma set_sess_simps [simp]:
  "nodes (set_sess q x s) = nodes s" "conn_heap (set_sess q x s) = conn_heap s" "sessions (set_sess q x s) = sessions s"
  "conn_at (set_sess q x s) r = conn_at s r"
  by (simp_all add: set_sess_def conn_at_def)

lemma list_peers_nil:
  assumes "FKind frame = KindListPeersReq" "sessionID (conn_at s r) = sid" "sid \<noteq> []" "sessions s sid = None"
  shows "handleFrame ord now r frame s = None"
proof -
  define u where "u = snd (renewLease now (nc_id (conn_at s r)) s)"
  have "sessions u sid = None" "sessionID (conn_at u r) = sid"
    using assms(2, 4) by (simp_all add: u_def renewLease_def Let_def split: option.splits)
  then show ?thesis using assms(1, 3) by (simp add: handleFrame_def Let_def u_def [symmetric] handleListPeers_def)
qed

text \<open>
  C39. One client can crash the server.  A node that is alone in its session and joins it again is told
  that it succeeded, but its session is gone from the server and the node is left in it; the next
  \<^verbatim>\<open>list_peers_req\<close> of that node dereferences a nil session, which ends the process.
\<close>

theorem rejoin_crashes_server:
  assumes "NewServer c = Inr s0" "(serve_step ord orderly)\<^sup>*\<^sup>* (s0, {}, []) (s, running, expired)"
    "current r s" "sessionID (conn_at s r) \<noteq> []" "inhabitants (where_is s) (sessionID (conn_at s r)) = {nc_id (conn_at s r)}"
    "FKind join = KindJoinSessionReq" "FSessionID join = sessionID (conn_at s r)" "FKind list = KindListPeersReq"
  shows "\<exists>t resp. handleFrame ord now r join s = Some (t, [(conn (conn_at s r), resp)]) \<and> FSuccess resp \<and>
    sessions t (sessionID (conn_at s r)) = None \<and> handleFrame ord later r list t = None"
proof -
  have ex: "exact s" using served_exact [OF assms(2, 1)] by simp
  define u where "u = snd (renewLease now (nc_id (conn_at s r)) s)"
  note u = renewLease_exact [OF ex, of now "nc_id (conn_at s r)", folded u_def]
  let ?sid = "sessionID (conn_at s r)" and ?u2 = "leave_session r u"
  have ru: "current r u" using assms(3) u(3, 5) by (simp add: current_def)
  have rl: "r < length (conn_heap u)" using exactD(4) [OF u(1)] ru by (auto simp: current_def)
  have cn: "conn (conn_at u r) = conn (conn_at s r)"
    by (simp add: u_def renewLease_def Let_def split: option.splits)
  obtain q where q: "sessions u ?sid = Some q"
    using sessions_inhabited [OF u(1) assms(4)] u(2) assms(5) by auto
  have gone: "sessions ?u2 ?sid = None"
    using holds_leave(2) [OF exactD(2) [OF u(1)] ru] u(2, 5, 6) assms(4, 5) by simp
  let ?u3 = "set_sess q ((sess_at ?u2 q)\<lparr>members := insert (nc_id (conn_at u r)) (members (sess_at ?u2 q))\<rparr>) ?u2"
  let ?t = "set_conn r ((conn_at ?u3 r)\<lparr>sessionID := ?sid\<rparr>) ?u3"
  have join: "handleFrame ord now r join s = Some (?t, [(conn (conn_at s r),
      (frame_of KindJoinSessionResp)\<lparr>FRequestID := FRequestID join, FSuccess := True, FSessionID := ?sid\<rparr>)])"
    using assms(4, 6, 7) q cn by (simp add: handleFrame_def Let_def u_def [symmetric] handleJoinSession_def)
  have t: "sessions ?t ?sid = None" "sessionID (conn_at ?t r) = ?sid" using gone rl by simp_all
  have "handleFrame ord later r list ?t = None" by (rule list_peers_nil [OF assms(8) t(2) assms(4) t(1)])
  then show ?thesis using join t(1) by (intro exI conjI) (assumption | simp)+
qed

theorem rejoin_crashes_server_witness:
  "\<exists>t resp. handleFrame sorted_list_of_set 1 0 ((frame_of KindJoinSessionReq)\<lparr>FSessionID := ''x''\<rparr>) demo_server2 = Some (t, [(7, resp)]) \<and>
    FSuccess resp \<and> handleFrame sorted_list_of_set 2 0 (frame_of KindListPeersReq) t = None"
proof -
  have r: "current 0 demo_server2" "sessionID (conn_at demo_server2 0) \<noteq> []"
    "FKind ((frame_of KindJoinSessionReq)\<lparr>FSessionID := ''x''\<rparr>) = KindJoinSessionReq"
    "FSessionID ((frame_of KindJoinSessionReq)\<lparr>FSessionID := ''x''\<rparr>) = sessionID (conn_at demo_server2 0)"
    "FKind (frame_of KindListPeersReq) = KindListPeersReq" "conn (conn_at demo_server2 0) = 7"
    by (simp_all add: current_def conn_at_def demo_server2_def demo_server1_def demo_nc_def frame_of_def)
  have inh: "inhabitants (where_is demo_server2) (sessionID (conn_at demo_server2 0)) = {nc_id (conn_at demo_server2 0)}"
    by (auto simp: inhabitants_def where_is_def conn_at_def demo_server2_def demo_server1_def demo_nc_def split: if_splits)
  show ?thesis
    using rejoin_crashes_server [where now = 1 and later = 2, OF demo_new demo_run r(1, 2) inh r(3-5)] r(6) by metis
qed

text \<open>
  The handler of a connection that was replaced takes the replacement down: the reaper disconnects
  \<open>a\<close>, \<open>a\<close> registers again, and when the first handler returns its deferred \<^verbatim>\<open>disconnect(nc.id)\<close> removes the
  second registration, whose lease has not expired.
\<close>

lemma stale_handler_evicts:
  "\<exists>s. (serve_step sorted_list_of_set orderly)\<^sup>*\<^sup>* (demo_server, {}, []) (s, {1}, []) \<and> nodes s ''a'' = None \<and>
    nc_id (conn_at s 1) = ''a'' \<and> leaseUntil (conn_at s 1) = 22000000000"
proof -
  let ?step = "serve_step sorted_list_of_set orderly"
  let ?reg = "(frame_of KindRegisterReq)\<lparr>FNodeID := ''a''\<rparr>"
  let ?s1 = "demo_server1"
  let ?s2 = "disconnect ''a'' ?s1"
  let ?s3 = "fst (register 12000000000 7 ?reg ?s2)"
  let ?s4 = "disconnect ''a'' ?s3"
  have "register 0 7 ?reg demo_server = (?s1, fst (snd (register 0 7 ?reg demo_server)), Some 0)"
    using demo_register by (metis prod.collapse)
  then have "?step (demo_server, {}, []) (?s1, {0}, [])" by (rule register_step)
  moreover have "lease_expired sorted_list_of_set 11000000000 ?s1 = [''a'']"
    by (simp add: lease_expired_def demo_server1_def conn_at_def demo_nc_def)
  then have "?step (?s1, {0}, []) (?s1, {0}, [''a''])" using scan_step [where now = 11000000000] by metis
  moreover have "?step (?s1, {0}, [''a'']) (?s2, {0}, [])" by (rule reap_step)
  moreover have "register 12000000000 7 ?reg ?s2 = (?s3, fst (snd (register 12000000000 7 ?reg ?s2)), Some 1)"
    by (simp add: register_def frame_of_def disconnect_def demo_server1_def demo_server_def demo_nc_def conn_at_def set_conn_def Let_def)
  then have "?step (?s2, {0}, []) (?s3, insert 1 {0}, [])" by (rule register_step)
  moreover have "nc_id (conn_at ?s3 0) = ''a''"
    by (simp add: register_def frame_of_def disconnect_def demo_server1_def demo_server_def demo_nc_def conn_at_def set_conn_def Let_def)
  then have "?step (?s3, insert 1 {0}, []) (?s4, insert 1 {0} - {0}, [])"
    using leave_step [of 0 "insert 1 {0}" sorted_list_of_set orderly ?s3 "[]"] by simp
  ultimately have "?step\<^sup>*\<^sup>* (demo_server, {}, []) (?s4, insert 1 {0} - {0}, [])"
    by (meson rtranclp.rtrancl_into_rtrancl rtranclp.rtrancl_refl)
  moreover have "insert 1 {0} - {0} = {1 :: nat}" by auto
  moreover have "nodes ?s4 ''a'' = None" "nc_id (conn_at ?s4 1) = ''a''" "leaseUntil (conn_at ?s4 1) = 22000000000"
    by (simp_all add: register_def frame_of_def disconnect_def demo_server1_def demo_server_def demo_config_def demo_nc_def conn_at_def
        set_conn_def Let_def)
  ultimately show ?thesis by metis
qed

text \<open>The broadcast goes to the inhabitants of the caller's session, in byte order, with one and the same frame.\<close>

lemma handleGameStart_sends:
  assumes ex: "exact s" and r: "current r s" and sid: "sid = sessionID (conn_at s r)" "sid \<noteq> []"
  defines "ids \<equiv> sorted_list_of_set (inhabitants (where_is s) sid)"
  shows "\<exists>start. handleGameStart r frame s = (s, map (\<lambda>i. (conn (conn_at s (the (nodes s i))), start)) ids) \<and>
    FKind start = KindGameStart \<and> FRequestID start = [] \<and> FSuccess start \<and> FSessionID start = sid \<and> FPeerIDs start = ids"
    "set ids = inhabitants (where_is s) sid" "distinct ids" "nc_id (conn_at s r) \<in> set ids"
proof -
  have "inhabitants (where_is s) sid \<subseteq> dom (nodes s)" by (auto simp: inhabitants_def where_is_def)
  then have fin: "finite (inhabitants (where_is s) sid)" using exactD(3) [OF ex] finite_subset by blast
  then show ids: "set ids = inhabitants (where_is s) sid" "distinct ids" by (simp_all add: ids_def)
  show me: "nc_id (conn_at s r) \<in> set ids" using ids(1) where_current [OF r] sid by (simp add: inhabitants_def)
  then obtain q where q: "sessions s sid = Some q" using sessions_inhabited [OF ex sid(2)] ids(1) by auto
  have "filter (\<lambda>i. nodes s i \<noteq> None) ids = ids"
    using ids(1) by (auto simp: filter_id_conv inhabitants_def where_is_def)
  then show "\<exists>start. handleGameStart r frame s = (s, map (\<lambda>i. (conn (conn_at s (the (nodes s i))), start)) ids) \<and>
      FKind start = KindGameStart \<and> FRequestID start = [] \<and> FSuccess start \<and> FSessionID start = sid \<and> FPeerIDs start = ids"
    using q sid(1) holdsD(4) [OF exactD(2) [OF ex] q]
    by (intro exI) (auto simp: handleGameStart_def Let_def ids_def frame_of_def)
qed

section \<open>What a node relies on\<close>

text \<open>
  The contract of a game start, as the nodes see it: every member of the caller's session, and nobody else, is sent the same frame,
  which lists the members once each.  \<open>link\<close> is the connection of a node.
\<close>

definition caller :: "nat \<Rightarrow> Server \<Rightarrow> (string \<times> string) option" where
  "caller r s = (if current r s then Some (nc_id (conn_at s r), sessionID (conn_at s r)) else None)"

definition link :: "Server \<Rightarrow> string \<Rightarrow> nat" where
  "link s i = conn (conn_at s (the (nodes s i)))"

locale session_service =
  fixes inv :: "'s \<Rightarrow> bool" and members_of :: "'s \<Rightarrow> string \<Rightarrow> string set" and who :: "nat \<Rightarrow> 's \<Rightarrow> (string \<times> string) option"
    and start_game :: "nat \<Rightarrow> Frame \<Rightarrow> 's \<Rightarrow> 's \<times> sends" and link_of :: "'s \<Rightarrow> string \<Rightarrow> nat"
  assumes starts: "inv s \<Longrightarrow> who r s = Some (me, sid) \<Longrightarrow> sid \<noteq> [] \<Longrightarrow>
    \<exists>ids start. distinct ids \<and> set ids = members_of s sid \<and> me \<in> set ids \<and>
      start_game r frame s = (s, map (\<lambda>i. (link_of s i, start)) ids) \<and>
      FKind start = KindGameStart \<and> FRequestID start = [] \<and> FPeerIDs start = ids"

interpretation dispatcher: session_service exact "\<lambda>s. inhabitants (where_is s)" caller handleGameStart link
proof
  fix s r me sid frame assume s: "exact s" "caller r s = Some (me, sid)" "sid \<noteq> []"
  then have r: "current r s" "me = nc_id (conn_at s r)" "sid = sessionID (conn_at s r)" by (auto simp: caller_def split: if_splits)
  note gs = handleGameStart_sends [OF s(1) r(1) r(3) s(3)]
  show "\<exists>ids start. distinct ids \<and> set ids = inhabitants (where_is s) sid \<and> me \<in> set ids \<and>
      handleGameStart r frame s = (s, map (\<lambda>i. (link s i, start)) ids) \<and>
      FKind start = KindGameStart \<and> FRequestID start = [] \<and> FPeerIDs start = ids"
    using gs(1) [of frame] gs(2-4) r(2) unfolding link_def by blast
qed

end
