(* ===== verification/Peer_Node.thy ===== *)
theory Peer_Node
  imports Runner Dispatch
begin

text \<open>
  The node around the game (\<^verbatim>\<open>internal/peer/node.go\<close>, \<^verbatim>\<open>dispatch.go\<close>, \<^verbatim>\<open>mesh.go\<close>, \<^verbatim>\<open>message.go\<close>, \<^verbatim>\<open>ephemeral.go\<close>,
  \<^verbatim>\<open>game.go\<close>): attaching to dispatch and leaving it, requests and their answers, the peer handshakes,
  remote reads and polling, and the start of a game.  \<open>Peer\<close> extends the \<open>Node\<close> of the deal.  What the network
  delivers (a dialled connection, a reply, the outcome of a read) is an argument; a failed send counts
  as no reply.  The results tie dispatch to the deal, justify \<open>Read\<close> of \<open>Poll_Network\<close>, and
  show two gaps: handshakes are not authenticated, and a revealed key is used again.
\<close>

section \<open>State\<close>

record SessionConfig =
  sc_TimeoutInterval :: int
  sc_MaxAttempts :: u32

record EphemeralReadRequest =
  rq_RequestID :: string
  rq_Key :: string

record EphemeralReadResponse =
  rs_RequestID :: string
  rs_Key :: string
  rs_Value :: bytes
  rs_Found :: bool

text \<open>The fields of the deal, and the rest.  Channels of capacity one are lists of at most one value.\<close>

record Peer = Node +
  peer_addr :: string
  prefNodeID :: string
  dispatchConn :: "nat option"
  sess :: string
  peers :: "string \<rightharpoonup> nat"
  pending :: "string \<rightharpoonup> Frame list"
  requestCounter :: u64
  store :: Store
  peerPending :: "string \<rightharpoonup> EphemeralReadResponse list"
  own_pk :: bytes
  peer_keys :: "string \<rightharpoonup> bytes"
  Started :: bool
  money :: int
  sessionConfig :: SessionConfig

record PeerConfig =
  pc_PeerAddr :: string
  pc_NodeID :: string
  pc_PublicKey :: bytes

datatype node_error =
    PeerAddrUnset
  | PublicKeyUnset
  | ListenFailed
  | KeyFailed
  | DispatchAddrUnset
  | ErrAlreadyAttached
  | DialFailed
  | ReceiveFailed
  | UnexpectedKind
  | HandshakeNoKey
  | Failed string
  | NotAttached

definition KindPeerHandshake :: string where [simp]: "KindPeerHandshake = ''peer_handshake''"
definition KindPeerMessage :: string where [simp]: "KindPeerMessage = ''peer_message''"

text \<open>\<open>addr\<close> is the advertised address, once the listener is up; \<open>key\<close> is what \<^verbatim>\<open>GenerateKey\<close> returned.\<close>

definition New_Peer :: "PeerConfig \<Rightarrow> string option \<Rightarrow> Key option \<Rightarrow> node_error + Peer" where
  "New_Peer c addr key =
     (if pc_PeerAddr c = [] then Inl PeerAddrUnset
      else if length (pc_PublicKey c) \<noteq> 32 then Inl PublicKeyUnset
      else case addr of None \<Rightarrow> Inl ListenFailed
      | Some a \<Rightarrow> (case key of None \<Rightarrow> Inl KeyFailed
        | Some k \<Rightarrow> Inr \<lparr>nid = [], Order = [], SeatIdx = -1, modKey = k, prime = PRIME, FinalDeck = [], card1 = [], card2 = [],
            community = [], peer_addr = a, prefNodeID = pc_NodeID c, dispatchConn = None, sess = [], peers = Map.empty,
            pending = Map.empty, requestCounter = 0, store = New, peerPending = Map.empty, own_pk = pc_PublicKey c,
            peer_keys = Map.empty, Started = False, money = 0, sessionConfig = \<lparr>sc_TimeoutInterval = 0, sc_MaxAttempts = 0\<rparr>\<rparr>))"

section \<open>Attaching and detaching\<close>

definition SetPeerPK :: "string \<Rightarrow> bytes \<Rightarrow> Peer \<Rightarrow> Peer" where
  "SetPeerPK i key n = n\<lparr>peer_keys := (peer_keys n)(i \<mapsto> key)\<rparr>"

text \<open>An unknown peer has no key, which the runner sees as the empty one.\<close>

definition PeerPK :: "Peer \<Rightarrow> string \<Rightarrow> bytes" where
  "PeerPK n i = (case peer_keys n i of None \<Rightarrow> [] | Some key \<Rightarrow> key)"

definition attach_request :: "Peer \<Rightarrow> Frame" where
  "attach_request n = (frame_of KindRegisterReq)\<lparr>FNodeID := prefNodeID n, FPeerAddr := peer_addr n\<rparr>"

definition AttachDispatch :: "string \<Rightarrow> nat option \<Rightarrow> Frame option \<Rightarrow> Peer \<Rightarrow> node_error + Peer" where
  "AttachDispatch addr dialled reply n =
     (if addr = [] then Inl DispatchAddrUnset
      else if dispatchConn n \<noteq> None then Inl ErrAlreadyAttached
      else case dialled of None \<Rightarrow> Inl DialFailed
      | Some c \<Rightarrow> (case reply of None \<Rightarrow> Inl ReceiveFailed
        | Some resp \<Rightarrow>
            if FKind resp \<noteq> KindRegisterResp then Inl UnexpectedKind
            else if \<not> FSuccess resp then Inl (Failed (FError resp))
            else Inr (SetPeerPK (FNodeID resp) (own_pk n) (n\<lparr>nid := FNodeID resp, dispatchConn := Some c\<rparr>))))"

definition resetGameState :: "Peer \<Rightarrow> Peer" where
  "resetGameState n = n\<lparr>FinalDeck := [], Order := [], SeatIdx := -1, card1 := [], card2 := [], community := [],
     Started := False, money := 0, sessionConfig := \<lparr>sc_TimeoutInterval = 0, sc_MaxAttempts = 0\<rparr>, store := Clear (store n)\<rparr>"

text \<open>Waiting callers see their channel closed: their entries go.\<close>

definition closeAllPending :: "Peer \<Rightarrow> Peer" where
  "closeAllPending n = n\<lparr>pending := Map.empty\<rparr>"

definition DetachDispatch :: "Peer \<Rightarrow> Peer" where
  "DetachDispatch n =
     (let n' = n\<lparr>dispatchConn := None, nid := []\<rparr> in
      if dispatchConn n = None then n'
      else resetGameState ((closeAllPending n')\<lparr>peers := Map.empty, sess := []\<rparr>))"

definition IsAttached :: "Peer \<Rightarrow> bool" where
  "IsAttached n \<longleftrightarrow> dispatchConn n \<noteq> None"

section \<open>Requests to dispatch\<close>

definition nextRequestID :: "Peer \<Rightarrow> string \<times> Peer" where
  "nextRequestID n = (let v = requestCounter n + 1 in (nid n @ ''-'' @ itoa (unat v), n\<lparr>requestCounter := v\<rparr>))"

text \<open>The sending half of \<^verbatim>\<open>dispatchRequest\<close>: the frame on the wire, and the channel it will be answered on.\<close>

definition request_send :: "Frame \<Rightarrow> Peer \<Rightarrow> node_error + Frame \<times> Peer" where
  "request_send frame n =
     (if \<not> IsAttached n then Inl NotAttached
      else let (rid, n) = nextRequestID n in Inr (frame\<lparr>FRequestID := rid\<rparr>, n\<lparr>pending := (pending n)(rid \<mapsto> [])\<rparr>))"

text \<open>The receiving half: \<open>None\<close> while nothing has arrived.\<close>

definition request_receive :: "string \<Rightarrow> Peer \<Rightarrow> (Frame \<times> Peer) option" where
  "request_receive rid n =
     (case pending n rid of Some (resp # _) \<Rightarrow> Some (resp, n\<lparr>pending := (pending n)(rid := None)\<rparr>) | _ \<Rightarrow> None)"

definition GameStart :: "Frame \<Rightarrow> Peer \<Rightarrow> Peer" where
  "GameStart frame n =
     (let order = FPeerIDs frame;
          seatIdx = (case find (\<lambda>i. order ! i = nid n) [0..<length order] of None \<Rightarrow> -1 | Some i \<Rightarrow> int i)
      in n\<lparr>Order := order, SeatIdx := seatIdx,
           sessionConfig := \<lparr>sc_TimeoutInterval = sint (FTimeoutIntervalMS frame * 1000000), sc_MaxAttempts = FMaxAttempts frame\<rparr>,
           Started := True, money := 2000\<rparr>)"

text \<open>One turn of \<^verbatim>\<open>dispatchReadLoop\<close>; \<open>None\<close> where the loop blocks on a full channel.\<close>

definition dispatch_deliver :: "Frame \<Rightarrow> Peer \<Rightarrow> Peer option" where
  "dispatch_deliver frame n =
     (case (if FRequestID frame \<noteq> [] then pending n (FRequestID frame) else None) of
        Some ch \<Rightarrow> if ch = [] then Some (n\<lparr>pending := (pending n)(FRequestID frame \<mapsto> [frame])\<rparr>) else None
      | None \<Rightarrow> Some (if FKind frame = KindGameStart then GameStart frame n else n))"

definition CreateSession :: "Frame \<Rightarrow> Peer \<Rightarrow> node_error + string \<times> Peer" where
  "CreateSession resp n = (if \<not> FSuccess resp then Inl (Failed (FError resp)) else Inr (FSessionID resp, n\<lparr>sess := FSessionID resp\<rparr>))"

definition JoinSession :: "Frame \<Rightarrow> Peer \<Rightarrow> node_error + Peer" where
  "JoinSession resp n = (if \<not> FSuccess resp then Inl (Failed (FError resp)) else Inr (n\<lparr>sess := FSessionID resp\<rparr>))"

definition ListSessions :: "Frame \<Rightarrow> node_error + string list" where
  "ListSessions resp = (if \<not> FSuccess resp then Inl (Failed (FError resp)) else Inr (FSessionIDs resp))"

text \<open>\<^verbatim>\<open>None\<close> is the panic when fewer addresses than peers arrive.\<close>

definition ListPeers :: "Frame \<Rightarrow> (node_error + (string \<times> string) list) option" where
  "ListPeers resp =
     (if \<not> FSuccess resp then Some (Inl (Failed (FError resp)))
      else if length (FPeerAddresses resp) < length (FPeerIDs resp) then None
      else Some (Inr (zip (FPeerIDs resp) (FPeerAddresses resp))))"

section \<open>The mesh\<close>

definition handshake_frame :: "Peer \<Rightarrow> Frame" where
  "handshake_frame n = (frame_of KindPeerHandshake)\<lparr>FNodeID := nid n, FPublicKey := own_pk n\<rparr>"

text \<open>An inbound connection \<open>c\<close> and its first frame; the answer is sent before the peer is entered.\<close>

definition handleIncomingPeer :: "nat \<Rightarrow> Frame \<Rightarrow> bool \<Rightarrow> Peer \<Rightarrow> Frame option \<times> Peer" where
  "handleIncomingPeer c frame sent n =
     (if FKind frame \<noteq> KindPeerHandshake \<or> FNodeID frame = [] \<or> length (FPublicKey frame) \<noteq> 32 then (None, n)
      else let n = SetPeerPK (FNodeID frame) (FPublicKey frame) n in
        if \<not> sent then (None, n)
        else (Some (handshake_frame n), n\<lparr>peers := (peers n)(FNodeID frame \<mapsto> c)\<rparr>))"

definition dialPeer :: "string \<Rightarrow> nat option \<Rightarrow> Frame option \<Rightarrow> Peer \<Rightarrow> node_error + Peer" where
  "dialPeer peerID dialled reply n =
     (case dialled of None \<Rightarrow> Inl DialFailed
      | Some c \<Rightarrow> (case reply of None \<Rightarrow> Inl ReceiveFailed
        | Some resp \<Rightarrow>
            if FKind resp \<noteq> KindPeerHandshake then Inl UnexpectedKind
            else if length (FPublicKey resp) \<noteq> 32 then Inl HandshakeNoKey
            else Inr ((SetPeerPK peerID (FPublicKey resp) n)\<lparr>peers := (peers n)(peerID \<mapsto> c)\<rparr>)))"

text \<open>\<open>net\<close> gives the outcome of dialling a peer.\<close>

fun ConnectToPeers :: "(string \<Rightarrow> string \<Rightarrow> nat option \<times> Frame option) \<Rightarrow> (string \<times> string) list \<Rightarrow> Peer \<Rightarrow> node_error + Peer" where
  "ConnectToPeers net [] n = Inr n"
| "ConnectToPeers net ((i, addr) # ps) n =
     (if i = nid n \<or> peers n i \<noteq> None then ConnectToPeers net ps n
      else case net i addr of (dialled, reply) \<Rightarrow>
        (case dialPeer i dialled reply n of Inl e \<Rightarrow> Inl e | Inr n \<Rightarrow> ConnectToPeers net ps n))"

definition peer_gone :: "string \<Rightarrow> Peer \<Rightarrow> Peer" where
  "peer_gone i n = n\<lparr>peers := (peers n)(i := None)\<rparr>"

section \<open>Remote reads\<close>

definition answer_read :: "EphemeralReadRequest \<Rightarrow> Peer \<Rightarrow> EphemeralReadResponse" where
  "answer_read req n = \<lparr>rs_RequestID = rq_RequestID req, rs_Key = rq_Key req,
     rs_Value = (case Get (rq_Key req) (store n) of None \<Rightarrow> [] | Some v \<Rightarrow> v), rs_Found = Get (rq_Key req) (store n) \<noteq> None\<rparr>"

text \<open>A response is matched by its request identifier only; a full channel drops it.\<close>

definition take_response :: "EphemeralReadResponse \<Rightarrow> Peer \<Rightarrow> Peer" where
  "take_response resp n =
     (case peerPending n (rs_RequestID resp) of
        Some [] \<Rightarrow> n\<lparr>peerPending := (peerPending n)(rs_RequestID resp \<mapsto> [resp])\<rparr>
      | _ \<Rightarrow> n)"

definition read_send :: "string \<Rightarrow> Peer \<Rightarrow> EphemeralReadRequest \<times> Peer" where
  "read_send key n = (let (rid, n) = nextRequestID n in
     (\<lparr>rq_RequestID = rid, rq_Key = key\<rparr>, n\<lparr>peerPending := (peerPending n)(rid \<mapsto> [])\<rparr>))"

definition read_receive :: "string \<Rightarrow> Peer \<Rightarrow> (bytes option \<times> Peer) option" where
  "read_receive rid n =
     (case peerPending n rid of
        Some (resp # _) \<Rightarrow> Some (if rs_Found resp then Some (rs_Value resp) else None, n\<lparr>peerPending := (peerPending n)(rid := None)\<rparr>)
      | _ \<Rightarrow> None)"

text \<open>
  \<^verbatim>\<open>PollRemote\<close> over the outcomes of its reads.  A read finds the key, does not find it, fails, or is
  cut off by the context; \<open>ended\<close> says that the context ends during the wait that follows.  The result
  comes with the waits in milliseconds; \<open>Polling\<close> is a poll that goes on.
\<close>

datatype read_outcome = Found bytes | NotFound | Transient | Cancelled

datatype poll_result = Polled_value bytes | Poll_cancelled | Polling

fun PollRemote_loop :: "nat \<Rightarrow> (read_outcome \<times> bool) list \<Rightarrow> poll_result \<times> nat list" where
  "PollRemote_loop backoff [] = (Polling, [])"
| "PollRemote_loop backoff ((r, ended) # rs) =
     (case r of Found v \<Rightarrow> (Polled_value v, [])
      | Cancelled \<Rightarrow> (Poll_cancelled, [])
      | _ \<Rightarrow> if ended then (Poll_cancelled, [])
          else case PollRemote_loop (if 500 < backoff * 2 then 500 else backoff * 2) rs of
            (res, waits) \<Rightarrow> (res, backoff # waits))"

definition PollRemote :: "(read_outcome \<times> bool) list \<Rightarrow> poll_result \<times> nat list" where
  "PollRemote = PollRemote_loop 50"

section \<open>Lemmas\<close>

lemma find_seat:
  assumes "distinct ids" "k < length ids"
  shows "find (\<lambda>i. ids ! i = ids ! k) [0..<length ids] = Some k"
  using assms unfolding find_Some_iff by (intro exI [of _ k]) (simp add: nth_eq_iff_index_eq)

lemma GameStart_seat:
  assumes "distinct ids" "k < length ids" "FPeerIDs frame = ids" "nid n = ids ! k"
  shows "Order (GameStart frame n) = ids" "SeatIdx (GameStart frame n) = int k" "nid (GameStart frame n) = ids ! k"
    "Started (GameStart frame n)"
  using assms find_seat [OF assms(1, 2)] by (simp_all add: GameStart_def Let_def)

text \<open>A remote read, answered by the peer it was sent to, returns what that peer's store holds.\<close>

lemma remote_read_returns_store:
  assumes "read_send key n = (req, n')"
  shows "read_receive (rq_RequestID req) (take_response (answer_read req m) n') =
    Some (Get key (store m), n'\<lparr>peerPending := (peerPending n')(rq_RequestID req := None)\<rparr>)"
  using assms
  by (auto simp: read_send_def nextRequestID_def Let_def take_response_def read_receive_def answer_read_def split: option.splits)

text \<open>The same holds for whatever any other peer sends first under that identifier, which can be guessed.\<close>

lemma read_reply_unauthenticated:
  assumes "read_send key n = (req, n')"
  shows "rq_RequestID req = nid n @ ''-'' @ itoa (unat (requestCounter n + 1))"
    "read_receive (rq_RequestID req) (take_response (answer_read req m) (take_response
       \<lparr>rs_RequestID = rq_RequestID req, rs_Key = other, rs_Value = forged, rs_Found = True\<rparr> n')) =
     Some (Some forged, n'\<lparr>peerPending := (peerPending n')(rq_RequestID req := None)\<rparr>)"
  using assms
  by (auto simp: read_send_def nextRequestID_def Let_def take_response_def read_receive_def answer_read_def)

definition miss :: "read_outcome \<times> bool \<Rightarrow> bool" where
  "miss x \<longleftrightarrow> fst x \<in> {NotFound, Transient} \<and> \<not> snd x"

lemma PollRemote_loop_misses:
  assumes "list_all miss ms" "0 < b" "b \<le> 500"
  shows "PollRemote_loop b (ms @ (Found v, e) # rest) = (Polled_value v, map (\<lambda>k. min 500 (b * 2 ^ k)) [0..<length ms])"
  using assms
proof (induction ms arbitrary: b)
  case (Cons x ms)
  obtain r e' where x: "x = (r, e')" "r = NotFound \<or> r = Transient" "\<not> e'" using Cons.prems(1) by (cases x) (auto simp: miss_def)
  define b' where "b' = (if 500 < b * 2 then 500 else b * 2)"
  have IH: "PollRemote_loop b' (ms @ (Found v, e) # rest) = (Polled_value v, map (\<lambda>k. min 500 (b' * 2 ^ k)) [0..<length ms])"
    using Cons.IH [of b'] Cons.prems by (simp add: b'_def)
  have "min 500 (b' * 2 ^ k) = min 500 (b * 2 ^ Suc k)" for k
  proof (cases "500 < b * 2")
    case True
    have pos: "1 \<le> (2 :: nat) ^ k" by simp
    have "b * 2 * 1 \<le> b * 2 * 2 ^ k" by (rule mult_le_mono2 [OF pos])
    then have "500 \<le> b * 2 ^ Suc k" using True by (simp only: power_Suc mult.assoc)
    moreover have "500 * 1 \<le> 500 * (2 :: nat) ^ k" by (rule mult_le_mono2 [OF pos])
    then have "500 \<le> b' * 2 ^ k" using True by (simp add: b'_def)
    ultimately have "500 \<le> b' * 2 ^ k" "500 \<le> b * 2 ^ Suc k" by blast+
    then show ?thesis by simp
  qed (simp add: b'_def)
  then have "map (\<lambda>k. min 500 (b' * 2 ^ k)) [0..<length ms] = map (\<lambda>k. min 500 (b * 2 ^ k)) (map Suc [0..<length ms])" by simp
  moreover have "PollRemote_loop b (((r, e') # ms) @ (Found v, e) # rest) =
      (case PollRemote_loop b' (ms @ (Found v, e) # rest) of (res, waits) \<Rightarrow> (res, b # waits))"
    unfolding append_Cons PollRemote_loop.simps b'_def using x(2, 3) by auto
  ultimately show ?case using IH x(1) Cons.prems(3) unfolding map_Suc_upt
    by (simp add: upt_conv_Cons del: upt_Suc PollRemote_loop.simps)
qed simp

lemma PollRemote_loop_value:
  "fst (PollRemote_loop b rs) = Polled_value v \<Longrightarrow> \<exists>ms e rest. rs = ms @ (Found v, e) # rest \<and> list_all miss ms"
proof (induction b rs rule: PollRemote_loop.induct)
  case (2 b r e rs)
  show ?case
  proof (cases "\<exists>u. r = Found u")
    case True
    then show ?thesis using 2 by (intro exI [of _ "[]"]) auto
  next
    case False
    then have r: "r = NotFound \<or> r = Transient" "\<not> e" using 2(3) by (cases r; auto split: if_splits)+
    then obtain ms e' rest where "rs = ms @ (Found v, e') # rest" "list_all miss ms"
      using 2 by (auto split: prod.splits)
    moreover have "miss (r, e)" using r by (auto simp: miss_def)
    ultimately have "(r, e) # rs = ((r, e) # ms) @ (Found v, e') # rest" "list_all miss ((r, e) # ms)" by simp_all
    then show ?thesis by blast
  qed
qed simp

text \<open>Under the contract of the session service, the members of a session end up in one order with a seat each.\<close>

context session_service begin

lemma everyone_seated:
  assumes "inv s" "who r s = Some (me, sid)" "sid \<noteq> []" "\<forall>i \<in> members_of s sid. nid (ns i) = i"
  shows "\<exists>ids start. distinct ids \<and> set ids = members_of s sid \<and> me \<in> set ids \<and>
    start_game r frame s = (s, map (\<lambda>i. (link_of s i, start)) ids) \<and>
    (\<forall>k < length ids. \<exists>n. dispatch_deliver start (ns (ids ! k)) = Some n \<and> nid n = ids ! k \<and> Order n = ids \<and> SeatIdx n = int k \<and> Started n)"
proof -
  obtain ids start where st: "distinct ids" "set ids = members_of s sid" "me \<in> set ids"
    "start_game r frame s = (s, map (\<lambda>i. (link_of s i, start)) ids)"
    "FKind start = KindGameStart" "FRequestID start = []" "FPeerIDs start = ids" using starts [OF assms(1-3)] by blast
  have "\<exists>n. dispatch_deliver start (ns (ids ! k)) = Some n \<and> nid n = ids ! k \<and> Order n = ids \<and> SeatIdx n = int k \<and> Started n"
    if k: "k < length ids" for k
  proof -
    have "nid (ns (ids ! k)) = ids ! k" using assms(4) st(2) nth_mem [OF k] by blast
    then show ?thesis using GameStart_seat [OF st(1) k st(7)] st(5, 6) by (simp add: dispatch_deliver_def)
  qed
  then show ?thesis using st(1-4) by blast
qed

end

section \<open>Properties\<close>

text \<open>
  C28. Polling.  \<^verbatim>\<open>PollRemote\<close> returns a value exactly when some read finds it before the context ends,
  whatever transient errors come first; the wait before the \<open>k\<close>-th retry is \<open>50 * 2^k\<close> milliseconds, at
  most 500, so a value that is there at the \<open>k\<close>-th retry is returned after at most half a second per retry.
\<close>

theorem PollRemote_backoff:
  "(fst (PollRemote rs) = Polled_value v \<longleftrightarrow> (\<exists>ms e rest. rs = ms @ (Found v, e) # rest \<and> list_all miss ms)) \<and>
   (list_all miss ms \<longrightarrow> snd (PollRemote (ms @ (Found v, e) # rest)) = map (\<lambda>k. min 500 (50 * 2 ^ k)) [0..<length ms] \<and>
      sum_list (snd (PollRemote (ms @ (Found v, e) # rest))) \<le> 500 * length ms)"
proof -
  have loop: "PollRemote (ms @ (Found v, e) # rest) = (Polled_value v, map (\<lambda>k. min 500 (50 * 2 ^ k)) [0..<length ms])"
    if "list_all miss ms" for ms e rest
    using PollRemote_loop_misses [OF that, of 50] by (simp add: PollRemote_def)
  have "sum_list (map (\<lambda>k. min 500 (50 * 2 ^ k)) [0..<n]) \<le> 500 * n" for n :: nat
    by (induction n) auto
  moreover have "fst (PollRemote rs) = Polled_value v \<longleftrightarrow> (\<exists>ms e rest. rs = ms @ (Found v, e) # rest \<and> list_all miss ms)"
    using loop PollRemote_loop_value unfolding PollRemote_def by fastforce
  ultimately show ?thesis using loop by auto
qed

theorem PollRemote_backoff_witness:
  "PollRemote [(Transient, False), (NotFound, False), (NotFound, False), (NotFound, False), (NotFound, False), (Found [1], False)] =
     (Polled_value [1], [50, 100, 200, 400, 500]) \<and> (50 + 100 + 200 + 400 + 500 :: nat) \<le> 500 * 5"
proof -
  let ?ms = "[(Transient, False), (NotFound, False), (NotFound, False), (NotFound, False), (NotFound, False)]"
  have miss: "list_all miss ?ms" by (simp add: miss_def)
  have "fst (PollRemote (?ms @ (Found [1], False) # [])) = Polled_value [1]" using PollRemote_backoff [of "?ms @ [(Found [1], False)]" "[1]"] miss by blast
  moreover have "snd (PollRemote (?ms @ (Found [1], False) # [])) = map (\<lambda>k. min 500 (50 * 2 ^ k)) [0..<length ?ms]"
    using PollRemote_backoff [of "[]" "[1]" ?ms False "[]"] miss by blast
  moreover have "map (\<lambda>k. min 500 (50 * 2 ^ k)) [0..<length ?ms] = [50, 100, 200, 400, 500 :: nat]" by (simp add: upt_rec)
  ultimately show ?thesis by (simp add: prod_eq_iff)
qed

text \<open>
  C21. Everyone is seated the same way.  In every orderly state of the dispatch server, a game start asked for
  by a member of a session sends one frame to each connected member and to nobody else; when each
  of them has processed it, all hold the same order, which lists exactly the members, each once, and each
  node's seat is its own place in it.  These are the tables the deal and the rounds assume.
\<close>

theorem game_start_seats:
  assumes "NewServer c = Inr s0" "(serve_step ord orderly)\<^sup>*\<^sup>* (s0, {}, []) (s, running, expired)"
    "current r s" "sessionID (conn_at s r) = sid" "sid \<noteq> []" "\<forall>i \<in> inhabitants (where_is s) sid. nid (ns i) = i"
  shows "\<exists>ids start. distinct ids \<and> set ids = inhabitants (where_is s) sid \<and> nc_id (conn_at s r) \<in> set ids \<and>
    handleGameStart r frame s = (s, map (\<lambda>i. (conn (conn_at s (the (nodes s i))), start)) ids) \<and>
    (\<forall>k < length ids. \<exists>n. dispatch_deliver start (ns (ids ! k)) = Some n \<and> nid n = ids ! k \<and> Order n = ids \<and> SeatIdx n = int k \<and>
       Started n)"
proof -
  have "exact s" using served_exact [OF assms(2, 1)] by simp
  moreover have "caller r s = Some (nc_id (conn_at s r), sid)" using assms(3, 4) by (simp add: caller_def)
  ultimately show ?thesis using dispatcher.everyone_seated [OF _ _ assms(5, 6)] unfolding link_def by blast
qed

definition demo_peer :: "string \<Rightarrow> Peer" where
  "demo_peer i = \<lparr>nid = i, Order = [], SeatIdx = -1, modKey = \<lparr>Exponent = 3, InverseExponent = 9079\<rparr>, prime = PRIME, FinalDeck = [],
     card1 = ''12'', card2 = ''40'', community = [], peer_addr = [], prefNodeID = i, dispatchConn = Some 7, sess = ''x'', peers = Map.empty,
     pending = Map.empty, requestCounter = 0, store = New, peerPending = Map.empty, own_pk = replicate 32 1,
     peer_keys = Map.empty, Started = False, money = 0, sessionConfig = \<lparr>sc_TimeoutInterval = 0, sc_MaxAttempts = 0\<rparr>\<rparr>"

theorem game_start_seats_witness:
  "\<exists>start n. handleGameStart 0 (frame_of KindGameStart) demo_server2 = (demo_server2, [(7, start)]) \<and>
    dispatch_deliver start (demo_peer ''a'') = Some n \<and> Order n = [''a''] \<and> SeatIdx n = 0"
proof -
  have r: "current 0 demo_server2" "sessionID (conn_at demo_server2 0) = ''x''" "''x'' \<noteq> []"
    by (simp_all add: current_def conn_at_def demo_server2_def demo_server1_def demo_nc_def)
  have nid: "\<forall>i \<in> inhabitants (where_is demo_server2) ''x''. nid (demo_peer i) = i" by (simp add: demo_peer_def)
  have inh: "inhabitants (where_is demo_server2) ''x'' = {''a''}"
    by (auto simp: inhabitants_def where_is_def conn_at_def demo_server2_def demo_server1_def demo_nc_def split: if_splits)
  have conn: "conn (conn_at demo_server2 (the (nodes demo_server2 ''a''))) = 7"
    by (simp add: conn_at_def demo_server2_def demo_server1_def demo_nc_def)
  obtain ids start where ids: "distinct ids" "set ids = {''a''}"
    "handleGameStart 0 (frame_of KindGameStart) demo_server2 =
       (demo_server2, map (\<lambda>i. (conn (conn_at demo_server2 (the (nodes demo_server2 i))), start)) ids)"
    "\<forall>k < length ids. \<exists>n. dispatch_deliver start (demo_peer (ids ! k)) = Some n \<and> nid n = ids ! k \<and> Order n = ids \<and> SeatIdx n = int k \<and> Started n"
    using game_start_seats [where ns = demo_peer and frame = "frame_of KindGameStart", OF demo_new demo_run [of sorted_list_of_set] r nid] inh by auto
  have "ids = [''a'']" using ids(1, 2) by (metis distinct_card card.empty card_insert_disjoint empty_iff empty_set
      finite.emptyI length_0_conv length_Suc_conv list.set_intros(1) singletonD)
  then show ?thesis using ids(3, 4) conn by (intro exI [of _ start]) auto
qed

text \<open>
  C40. Anyone can speak for a player.  Whatever the state of a node, one inbound handshake that names a
  player's identifier and carries the sender's own key replaces that player's key and connection, and
  from then on the node accepts the sender's proposals as that player's.
\<close>

theorem impostor_proposal_accepted:
  fixes c :: nat and evil :: bytes and n :: Peer
  assumes "crypto_ok C pub" "ExpectedNextPlayer l = Some p" "Log_state l = Some s" "ValidateAction s p a = Inr ()" "victim \<noteq> []"
  defines "n' \<equiv> snd (handleIncomingPeer c ((frame_of KindPeerHandshake)\<lparr>FNodeID := victim, FPublicKey := pub evil\<rparr>) True n)"
  shows "VerifyProposal C l (BuildProposal C l p a evil) (PeerPK n' victim) = Some (Inr ()) \<and> peers n' victim = Some c \<and>
    (\<forall>i. i \<noteq> victim \<longrightarrow> PeerPK n' i = PeerPK n i)"
proof -
  have "length (pub evil) = 32" using assms(1) by (simp add: crypto_ok_def)
  then have n': "PeerPK n' victim = pub evil" "peers n' victim = Some c" "\<forall>i. i \<noteq> victim \<longrightarrow> PeerPK n' i = PeerPK n i"
    using assms(5) by (simp_all add: n'_def handleIncomingPeer_def Let_def frame_of_def SetPeerPK_def PeerPK_def)
  then show ?thesis using VerifyProposal_built [OF assms(1-3)] assms(4) by simp
qed

theorem impostor_proposal_accepted_witness:
  "\<exists>n. peer_keys n ''c'' = Some (pad32 [9]) \<and> VerifyProposal demo_crypto demo_log
     (BuildProposal demo_crypto demo_log 2 \<lparr>Kind = ActionFold, Amount = 0\<rparr> [66])
     (PeerPK (snd (handleIncomingPeer 5 ((frame_of KindPeerHandshake)\<lparr>FNodeID := ''c'', FPublicKey := pad32 [66]\<rparr>) True n)) ''c'') = Some (Inr ())"
proof -
  have legal: "ValidateAction demo_state 2 \<lparr>Kind = ActionFold, Amount = 0\<rparr> = Inr ()" by code_simp
  have next_p: "ExpectedNextPlayer demo_log = Some 2" by code_simp
  let ?n = "SetPeerPK ''c'' (pad32 [9]) (demo_peer ''a'')"
  have c: "''c'' \<noteq> []" by simp
  have "peer_keys ?n ''c'' = Some (pad32 [9])" by (simp add: SetPeerPK_def)
  then show ?thesis using impostor_proposal_accepted [where c = 5 and evil = "[66]" and n = ?n, OF demo_crypto_ok next_p demo_log_state legal c] by blast
qed

text \<open>
  A key given away at showdown stays in use.  A node that published its claim, left, attached again
  and got another game start still encrypts with the same key, so whoever has read the claim
  strips that node's layer from every card of the next game.
\<close>

theorem revealed_key_reused:
  assumes "claim_codec_ok K" "publishShowdownClaim K (Node.truncate n) = Host key data (Return ())" "decodeClaim K data = Some claim"
    "AttachDispatch addr d rep (DetachDispatch n) = Inr n1"
  shows "DecryptCard layered (modKey (GameStart frame n1)) (prime (GameStart frame n1)) =
    big_bytes (big_Exp (be_nat layered) (be_nat (InvExp claim)) (prime n))"
proof -
  let ?claim = "\<lparr>claim_Seat = of_int (SeatIdx n), claim_Card1 = card1 n, claim_Card2 = card2 n,
    InvExp = big_bytes (InverseExponent (modKey n))\<rparr>"
  have "encodeClaim K ?claim = Some data"
    using assms(2) by (auto simp: publishShowdownClaim_def Let_def Node.defs split: option.splits)
  moreover obtain b where "encodeClaim K ?claim = Some b" "decodeClaim K b = Some ?claim"
    using assms(1) unfolding claim_codec_ok_def by blast
  ultimately have "claim = ?claim" using assms(3) by simp
  then have inv: "be_nat (InvExp claim) = InverseExponent (modKey n)" by (simp add: be_nat_big_bytes)
  have "modKey n1 = modKey n" "prime n1 = prime n"
    using assms(4) by (auto simp: AttachDispatch_def DetachDispatch_def resetGameState_def closeAllPending_def SetPeerPK_def Let_def
        split: if_splits option.splits)
  then show ?thesis by (simp add: inv DecryptCard_def GameStart_def Let_def)
qed

theorem revealed_key_reused_witness:
  "\<exists>key data claim n1. publishShowdownClaim demo_claim_codec (Node.truncate (demo_peer ''a'')) = Host key data (Return ()) \<and>
    decodeClaim demo_claim_codec data = Some claim \<and>
    AttachDispatch ''d'' (Some 8) (Some ((frame_of KindRegisterResp)\<lparr>FSuccess := True, FNodeID := ''b''\<rparr>)) (DetachDispatch (demo_peer ''a'')) = Inr n1 \<and>
    DecryptCard [5] (modKey (GameStart (frame_of KindGameStart) n1)) (prime (GameStart (frame_of KindGameStart) n1)) =
      big_bytes (big_Exp 5 (be_nat (InvExp claim)) PRIME)"
proof -
  let ?n = "demo_peer ''a''"
  let ?claim = "\<lparr>claim_Seat = of_int (SeatIdx ?n), claim_Card1 = card1 ?n, claim_Card2 = card2 ?n,
    InvExp = big_bytes (InverseExponent (modKey ?n))\<rparr>"
  obtain data where data: "encodeClaim demo_claim_codec ?claim = Some data" "decodeClaim demo_claim_codec data = Some ?claim"
    using demo_claim_codec_ok unfolding claim_codec_ok_def by blast
  have host: "publishShowdownClaim demo_claim_codec (Node.truncate ?n) = Host (ShowdownClaimKey (SeatIdx ?n)) data (Return ())"
    using data(1) by (simp add: publishShowdownClaim_def Node.defs)
  obtain n1 where n1: "AttachDispatch ''d'' (Some 8) (Some ((frame_of KindRegisterResp)\<lparr>FSuccess := True, FNodeID := ''b''\<rparr>)) (DetachDispatch ?n) = Inr n1"
    by (simp add: AttachDispatch_def DetachDispatch_def demo_peer_def resetGameState_def closeAllPending_def frame_of_def)
  have five: "be_nat [5] = 5" by (simp add: be_nat_def)
  have pr: "prime ?n = PRIME" by (simp add: demo_peer_def)
  show ?thesis
    using revealed_key_reused [OF demo_claim_codec_ok host data(2) n1, of "[5]" "frame_of KindGameStart", unfolded five pr] host data(2) n1 by blast
qed

end
