(* ===== verification/Client_RPC.thy ===== *)
theory Client_RPC
  imports Round_Live Peer_Node Hand_Eval
begin

text \<open>
  The node's event bus (\<^verbatim>\<open>internal/peer/events.go\<close>), the events the game emits on it, and the service for the
  frontend (\<^verbatim>\<open>internal/clientrpc/server.go\<close>): the translation of events into typed messages, and the requests
  that do more than forward to the node.  The properties show that the translation loses nothing of the events that
  carry their fields, that an action is accepted exactly when every verifier would accept it, and that an
  evaluated hand is well formed.
\<close>

section \<open>The event bus\<close>

text \<open>Go maps that are built once and only read are association lists.\<close>

record Event =
  e_Timestamp :: int
  e_NodeID :: string
  e_SessionID :: string
  e_Kind :: string
  e_Component :: string
  e_Message :: string
  e_Fields :: "(string \<times> string) list"
  e_Cards :: "(string \<times> string) list"

definition field :: "(string \<times> string) list \<Rightarrow> string \<Rightarrow> string" where
  "field m k = (case map_of m k of None \<Rightarrow> [] | Some v \<Rightarrow> v)"

text \<open>Zero fields are filled in; a subscriber whose channel holds 128 events misses this one.\<close>

definition fill_event :: "int \<Rightarrow> Peer \<Rightarrow> Event \<Rightarrow> Event" where
  "fill_event now n ev = ev\<lparr>e_Timestamp := (if e_Timestamp ev = 0 then now else e_Timestamp ev),
     e_NodeID := (if e_NodeID ev = [] then nid n else e_NodeID ev),
     e_SessionID := (if e_SessionID ev = [] then sess n else e_SessionID ev),
     e_Kind := (if e_Kind ev = [] then ''log'' else e_Kind ev)\<rparr>"

definition Emit :: "int \<Rightarrow> Peer \<Rightarrow> Event \<Rightarrow> Event list list \<Rightarrow> Event list list" where
  "Emit now n ev subs = map (\<lambda>ch. if length ch < 128 then ch @ [fill_event now n ev] else ch) subs"

definition EmitFields :: "string \<Rightarrow> string \<Rightarrow> string \<Rightarrow> (string \<times> string) list \<Rightarrow> Event" where
  "EmitFields kind component message fs = \<lparr>e_Timestamp = 0, e_NodeID = [], e_SessionID = [], e_Kind = kind,
     e_Component = component, e_Message = message, e_Fields = fs, e_Cards = []\<rparr>"

definition EmitCards :: "string \<Rightarrow> string \<Rightarrow> string \<Rightarrow> (string \<times> string) list \<Rightarrow> Event" where
  "EmitCards kind component message cards = (EmitFields kind component message [])\<lparr>e_Cards := cards\<rparr>"

definition EmitKind :: "string \<Rightarrow> string \<Rightarrow> string \<Rightarrow> Event" where
  "EmitKind kind component message = EmitFields kind component message []"

section \<open>Events of the game\<close>

fun join_with :: "string \<Rightarrow> string list \<Rightarrow> string" where
  "join_with sep [] = []"
| "join_with sep [x] = x"
| "join_with sep (x # y # ys) = x @ sep @ join_with sep (y # ys)"

definition game_start_event :: "Frame \<Rightarrow> Peer \<Rightarrow> Event" where
  "game_start_event frame n = EmitFields ''game_start'' ''game'' (''['' @ nid n @ ''] GAME START'')
     [(''session_id'', FSessionID frame), (''order'', join_with '','' (Order n)), (''my_seat'', itoa_int (SeatIdx n))]"

definition attempt_bus_event :: "(reason \<Rightarrow> string) \<Rightarrow> AttemptEvent \<Rightarrow> Runner \<Rightarrow> Event" where
  "attempt_bus_event why ev r = EmitFields ''attempt'' ''runner''
     (''[attempt '' @ nid (node r) @ ''] round '' @ itoa (unat (ev_RoundID ev)) @ '' attempt '' @ itoa (unat (ev_Attempt ev)) @
      '': '' @ ev_Outcome ev @ '' '' @ why (ev_Reason ev))
     (attempt_fields why ev (log r))"

text \<open>The contiguous filled prefix of the board.\<close>

definition board_cards :: "string list \<Rightarrow> (string \<times> string) list" where
  "board_cards board = (let filled = takeWhile (\<lambda>c. c \<noteq> []) board in
     map (\<lambda>i. (''card'' @ itoa (i + 1), filled ! i)) [0..<length filled])"

definition community_event :: "int \<Rightarrow> string \<Rightarrow> Node \<Rightarrow> Event" where
  "community_event cardIdx c n = EmitCards ''community'' ''community''
     (''['' @ nid n @ ''] community card revealed: '' @ c @ '' (slot '' @ itoa_int (cardIdx - communityBase n + 1) @ '', total '' @
      itoa (length (board_cards (community n))) @ '')'')
     (board_cards (community n))"

definition PrintCards :: "Node \<Rightarrow> Event" where
  "PrintCards n = (if NoCardsYet n then EmitKind ''deal'' ''deal'' (''['' @ nid n @ ''] Hole Cards: [Waiting for deal...]'')
     else EmitCards ''deal'' ''deal'' (''--------------------------'' @ [CHR 0x0A] @ ''['' @ nid n @ ''] YOUR HAND'' @ [CHR 0x0A] @
       ''Card 1: '' @ card1 n @ [CHR 0x0A] @ ''Card 2: '' @ card2 n @ [CHR 0x0A] @ ''--------------------------'')
       [(''hole1'', card1 n), (''hole2'', card2 n)])"

section \<open>Parsing\<close>

text \<open>
  \<^verbatim>\<open>strconv.ParseUint\<close> and \<^verbatim>\<open>ParseInt\<close> with the error dropped: zero on a syntax error, the nearest bound
  on a range error.
\<close>

definition parse_uint :: "nat \<Rightarrow> string \<Rightarrow> nat" where
  "parse_uint bits s = (if s = [] \<or> \<not> list_all is_digit s then 0
     else if 2 ^ bits \<le> digits_val s then 2 ^ bits - 1 else digits_val s)"

definition parse_int :: "nat \<Rightarrow> string \<Rightarrow> int" where
  "parse_int bits s =
     (let neg = (s \<noteq> [] \<and> hd s = CHR ''-'');
          ds = (if s \<noteq> [] \<and> (hd s = CHR ''-'' \<or> hd s = CHR ''+'') then tl s else s);
          un = int (parse_uint bits ds); cutoff = 2 ^ (bits - 1) in
      if \<not> neg \<and> cutoff \<le> un then cutoff - 1 else if neg \<and> cutoff < un then - cutoff else if neg then - un else un)"

definition atou64 :: "string \<Rightarrow> u64" where "atou64 s = of_nat (parse_uint 64 s)"
definition atou32 :: "string \<Rightarrow> u32" where "atou32 s = of_nat (parse_uint 32 s)"
definition atoi32 :: "string \<Rightarrow> int" where "atoi32 s = parse_int 32 s"

fun split_on :: "char \<Rightarrow> string \<Rightarrow> string list" where
  "split_on sep [] = [[]]"
| "split_on sep (c # s) = (if c = sep then [] # split_on sep s else case split_on sep s of [] \<Rightarrow> [[c]] | x # xs \<Rightarrow> (c # x) # xs)"

definition splitCSV :: "string \<Rightarrow> string list" where
  "splitCSV s = (if s = [] then [] else split_on (CHR '','') s)"

definition firstNonEmpty :: "string \<Rightarrow> string \<Rightarrow> string" where
  "firstNonEmpty a b = (if a \<noteq> [] then a else b)"

text \<open>The loop over \<^verbatim>\<open>card1\<close>, \<^verbatim>\<open>card2\<close>, \<dots>, cut off at one more than the number of entries.\<close>

fun ordered_cards :: "nat \<Rightarrow> nat \<Rightarrow> (string \<times> string) list \<Rightarrow> string list option" where
  "ordered_cards 0 i cards = None"
| "ordered_cards (Suc fuel) i cards =
     (case map_of cards (''card'' @ itoa i) of None \<Rightarrow> Some []
      | Some v \<Rightarrow> map_option (Cons v) (ordered_cards fuel (i + 1) cards))"

definition orderedCardList :: "(string \<times> string) list \<Rightarrow> string list option" where
  "orderedCardList cards = ordered_cards (Suc (length cards)) 1 cards"

definition actionKindFromName :: "string \<Rightarrow> ActionKind" where
  "actionKindFromName name =
     (if name = ''fold'' then ActionFold else if name = ''check'' then ActionCheck else if name = ''call'' then ActionCall
      else if name = ''raise'' then ActionRaise else ActionFold)"

section \<open>Translation\<close>

datatype pb_event =
    PbGameStart string string "string list" int
  | PbHoleCards string string string
  | PbCommunityCards string "string list option"
  | PbRoundStarted string u64 u32 int
  | PbAction string u64 u32 int ActionKind u64 string string
  | PbAutoFold string u64 u32
  | PbLog Event

definition translateBusEvent :: "Event \<Rightarrow> pb_event" where
  "translateBusEvent ev =
     (let f = field (e_Fields ev); cs = field (e_Cards ev) in
      if e_Kind ev = ''game_start'' then
        PbGameStart (e_NodeID ev) (firstNonEmpty (e_SessionID ev) (f ''session_id'')) (splitCSV (f ''order'')) (atoi32 (f ''my_seat''))
      else if e_Kind ev = ''deal'' \<and> 0 < length (e_Cards ev) \<and> (cs ''hole1'' \<noteq> [] \<or> cs ''hole2'' \<noteq> []) then
        PbHoleCards (e_NodeID ev) (cs ''hole1'') (cs ''hole2'')
      else if e_Kind ev = ''community'' \<and> 0 < length (e_Cards ev) then
        PbCommunityCards (e_NodeID ev) (orderedCardList (e_Cards ev))
      else if e_Kind ev = ''round'' then
        PbRoundStarted (e_NodeID ev) (atou64 (f ''round_id'')) (atou32 (f ''proposer_seat'')) (atoi32 (f ''my_seat''))
      else if e_Kind ev = ''attempt'' then
        PbAction (e_NodeID ev) (atou64 (f ''round_id'')) (atou32 (f ''attempt'')) (atoi32 (f ''seat''))
          (actionKindFromName (f ''action_kind'')) (atou64 (f ''action_amount'')) (f ''outcome'') (f ''reason'')
      else if e_Kind ev = ''auto_fold'' \<and> f ''target_seat'' \<noteq> [] then
        PbAutoFold (e_NodeID ev) (atou64 (f ''round_id'')) (atou32 (f ''target_seat''))
      else PbLog ev)"

text \<open>What the stream of a client sends for the events waiting in its channel, after one more was emitted.\<close>

definition SubscribeEvents :: "int \<Rightarrow> Peer \<Rightarrow> Event \<Rightarrow> Event list \<Rightarrow> pb_event list" where
  "SubscribeEvents now n ev ch = concat (map (map translateBusEvent) (Emit now n ev [ch]))"

section \<open>Requests\<close>

datatype status = Internal node_error | FailedPrecondition | InvalidArgument

text \<open>\<^verbatim>\<open>None\<close> is a panic of the runner; the request's kind is the number on the wire.\<close>

definition SubmitActionRPC :: "int \<Rightarrow> u64 \<Rightarrow> Runner option \<Rightarrow> (status + Runner) option" where
  "SubmitActionRPC kind amount runner =
     (case runner of None \<Rightarrow> Some (Inl FailedPrecondition)
      | Some r \<Rightarrow>
          if kind < 0 \<or> 3 < kind then Some (Inl InvalidArgument)
          else case SubmitAction \<lparr>Kind = (if kind = 0 then ActionFold else if kind = 1 then ActionCheck
                  else if kind = 2 then ActionCall else ActionRaise), Amount = amount\<rparr> r of
            None \<Rightarrow> None
          | Some (Inl (ErrIllegalAction _)) \<Rightarrow> Some (Inl InvalidArgument)
          | Some (Inl _) \<Rightarrow> Some (Inl FailedPrecondition)
          | Some (Inr r) \<Rightarrow> Some (Inr r))"

definition GetCards :: "Node \<Rightarrow> string list \<times> string list" where
  "GetCards n = ((if card1 n \<noteq> [] then [card1 n] else []) @ (if card2 n \<noteq> [] then [card2 n] else []), CommunityCards n)"

record CardInfo =
  ci_Index :: int
  ci_Suit :: Suit
  ci_Rank :: Rank
  ci_Short :: string
  ci_Pretty :: string
  ci_SuitName :: string
  ci_RankName :: string

definition cardInfo :: "Card \<Rightarrow> CardInfo" where
  "cardInfo c = \<lparr>ci_Index = Card_Int c, ci_Suit = Suit c, ci_Rank = Rank c, ci_Short = Card_Short c, ci_Pretty = Card_Pretty c,
     ci_SuitName = Suit_Name (Suit c), ci_RankName = Rank_Name (Rank c)\<rparr>"

definition DescribeCards :: "string list \<Rightarrow> status + CardInfo list" where
  "DescribeCards ss = (case ParseDeckStrings ss of Inl _ \<Rightarrow> Inl InvalidArgument | Inr cs \<Rightarrow> Inr (map cardInfo cs))"

record EvaluateHandResponse =
  eh_Category :: Category
  eh_CategoryName :: string
  eh_Description :: string
  eh_Tiebreakers :: "Rank list"
  eh_Best :: "CardInfo list"

definition EvaluateHand :: "string list \<Rightarrow> status + EvaluateHandResponse" where
  "EvaluateHand ss =
     (case ParseDeckStrings ss of Inl _ \<Rightarrow> Inl InvalidArgument
      | Inr cs \<Rightarrow> (case Best cs of Inl _ \<Rightarrow> Inl InvalidArgument
        | Inr h \<Rightarrow> Inr \<lparr>eh_Category = Category h, eh_CategoryName = Category_String (Category h), eh_Description = Describe h,
            eh_Tiebreakers = Tiebreakers h, eh_Best = map cardInfo (BestCards h)\<rparr>))"

definition AttachDispatchRPC :: "string \<Rightarrow> nat option \<Rightarrow> Frame option \<Rightarrow> Peer \<Rightarrow> status + string \<times> Peer" where
  "AttachDispatchRPC addr dialled reply n =
     (case AttachDispatch addr dialled reply n of
        Inl ErrAlreadyAttached \<Rightarrow> Inl FailedPrecondition
      | Inl e \<Rightarrow> Inl (Internal e)
      | Inr n \<Rightarrow> Inr (nid n, n))"

section \<open>Lemmas\<close>

lemma parse_uint_itoa [simp]: "n < 2 ^ bits \<Longrightarrow> parse_uint bits (itoa n) = n"
  by (simp add: parse_uint_def itoa_digits digits_val_itoa)

lemma atou64_itoa [simp]: "atou64 (itoa (unat w)) = w" for w :: u64
  using unsigned_less [of w, where 'a = nat] by (simp add: atou64_def)

lemma atou32_itoa [simp]: "atou32 (itoa (unat w)) = w" for w :: u32
  using unsigned_less [of w, where 'a = nat] by (simp add: atou32_def)

lemma unsigned_parse:
  assumes "n < 2 ^ 31"
  shows "parse_int 32 (itoa n) = int n"
proof -
  have "hd (itoa n) \<noteq> CHR ''-''" "hd (itoa n) \<noteq> CHR ''+''" using is_digit_hd_itoa [of n] by (auto simp: is_digit_def)
  moreover have "parse_uint 32 (itoa n) = n" using assms by simp
  moreover have "int n < 2 ^ 31" using assms by (metis of_nat_less_iff of_nat_numeral of_nat_power)
  ultimately show ?thesis by (simp add: parse_int_def Let_def)
qed

lemma atoi32_itoa_int:
  assumes "- (2 ^ 31) \<le> i" "i < 2 ^ 31"
  shows "atoi32 (itoa_int i) = i"
proof (cases "i < 0")
  case True
  then have "nat (- i) < 2 ^ 32" using assms by auto
  then show ?thesis using True assms by (simp add: atoi32_def parse_int_def itoa_int_def Let_def)
next
  case False
  then have "nat i < 2 ^ 31" using assms by (simp add: nat_less_iff)
  then show ?thesis using False unsigned_parse [of "nat i"] by (simp add: atoi32_def itoa_int_def)
qed

lemma atoi32_itoa [simp]: "atoi32 (itoa (unat w)) = uint w" for w :: u8
proof -
  have "unat w < 2 ^ 31" using unsigned_less [of w, where 'a = nat] by simp
  then have "parse_int 32 (itoa (unat w)) = int (unat w)" by (rule unsigned_parse)
  then show ?thesis by (simp add: atoi32_def)
qed

lemma actionKind_roundtrip: "k \<le> 3 \<Longrightarrow> actionKindFromName (actionKindName k) = k"
  unfolding word_kinds by (auto simp: actionKindFromName_def actionKindName_def)

lemma split_on_append: "CHR '','' \<notin> set x \<Longrightarrow> split_on (CHR '','') (x @ CHR '','' # s) = x # split_on (CHR '','') s"
  by (induction x) auto

lemma split_on_plain: "CHR '','' \<notin> set x \<Longrightarrow> split_on (CHR '','') x = [x]"
  by (induction x) auto

lemma split_join: "ids \<noteq> [] \<Longrightarrow> \<forall>i \<in> set ids. CHR '','' \<notin> set i \<Longrightarrow> split_on (CHR '','') (join_with '','' ids) = ids"
proof (induction ids rule: join_with.induct [of _ "''x''"])
  case (3 sep x y ys)
  then show ?case using split_on_append [of x] by simp
qed (simp_all add: split_on_plain)

text \<open>A board of cards under the keys \<^verbatim>\<open>card1\<close>, \<^verbatim>\<open>card2\<close>, \<dots> is read back in order, and the loop stops.\<close>

definition numbered :: "string list \<Rightarrow> (string \<times> string) list" where
  "numbered cs = map (\<lambda>i. (''card'' @ itoa (i + 1), cs ! i)) [0..<length cs]"

lemma numbered_lookup: "map_of (numbered cs) (''card'' @ itoa (Suc i)) = (if i < length cs then Some (cs ! i) else None)"
proof -
  have "inj_on (\<lambda>i. ''card'' @ itoa (i + 1)) (set [0..<length cs])" by (rule inj_onI) simp
  then have dist: "distinct (map fst (numbered cs))" by (simp add: numbered_def o_def distinct_map)
  show ?thesis
  proof (cases "i < length cs")
    case True
    then have "(''card'' @ itoa (Suc i), cs ! i) \<in> set (numbered cs)" by (force simp: numbered_def)
    then show ?thesis using map_of_is_SomeI [OF dist] True by simp
  next
    case False
    then show ?thesis by (auto simp: numbered_def map_of_eq_None_iff)
  qed
qed

lemma ordered_cards_numbered:
  "i \<le> length cs \<Longrightarrow> length cs - i < fuel \<Longrightarrow> ordered_cards fuel (Suc i) (numbered cs) = Some (drop i cs)"
proof (induction fuel arbitrary: i)
  case (Suc fuel)
  show ?case
  proof (cases "i < length cs")
    case True
    then have "ordered_cards fuel (Suc (Suc i)) (numbered cs) = Some (drop (Suc i) cs)" using Suc by simp
    then show ?thesis using True numbered_lookup [of cs i] by (simp add: Cons_nth_drop_Suc)
  next
    case False
    then show ?thesis using Suc.prems numbered_lookup [of cs i] by simp
  qed
qed simp

lemma orderedCardList_numbered: "orderedCardList (numbered cs) = Some cs"
  using ordered_cards_numbered [of 0 cs "Suc (length cs)"] by (simp add: orderedCardList_def numbered_def)

lemma board_cards_numbered: "board_cards board = numbered (takeWhile (\<lambda>c. c \<noteq> []) board)"
  by (simp add: board_cards_def numbered_def Let_def)

text \<open>On any map the loop ends within the fuel: distinct keys cannot outnumber the entries.\<close>

lemma ordered_cards_stuck:
  "ordered_cards fuel i cards = None \<Longrightarrow> \<forall>j < fuel. ''card'' @ itoa (i + j) \<in> fst ` set cards"
proof (induction fuel arbitrary: i)
  case (Suc fuel)
  have here: "''card'' @ itoa i \<in> fst ` set cards"
    using Suc.prems by (auto split: option.splits simp: map_of_eq_None_iff dest: map_of_SomeD) (metis image_eqI fst_conv map_of_SomeD)+
  have "ordered_cards fuel (i + 1) cards = None" using Suc.prems by (auto split: option.splits)
  from Suc.IH [OF this] have rest: "\<forall>j < fuel. ''card'' @ itoa (i + 1 + j) \<in> fst ` set cards" .
  show ?case
  proof (intro allI impI)
    fix j assume "j < Suc fuel"
    then show "''card'' @ itoa (i + j) \<in> fst ` set cards" using here rest by (cases j) auto
  qed
qed simp

lemma orderedCardList_returns: "orderedCardList cards \<noteq> None"
proof
  assume "orderedCardList cards = None"
  then have "(\<lambda>j. ''card'' @ itoa (1 + j)) ` {..<Suc (length cards)} \<subseteq> fst ` set cards"
    using ordered_cards_stuck unfolding orderedCardList_def by blast
  then have "card ((\<lambda>j. ''card'' @ itoa (1 + j)) ` {..<Suc (length cards)}) \<le> card (fst ` set cards)"
    by (rule card_mono [rotated]) simp
  moreover have "card ((\<lambda>j. ''card'' @ itoa (1 + j)) ` {..<Suc (length cards)}) = Suc (length cards)"
    by (subst card_image) (auto simp: inj_on_def)
  moreover have "card (fst ` set cards) \<le> length cards" by (metis card_length length_map set_map)
  ultimately show False by simp
qed

lemma SubscribeEvents_room:
  "length ch < 128 \<Longrightarrow> SubscribeEvents now n ev ch = map translateBusEvent ch @ [translateBusEvent (fill_event now n ev)]"
  by (simp add: SubscribeEvents_def Emit_def)

text \<open>The value the runner keeps when a request is accepted, and the errors otherwise.\<close>

lemma kind_word: "0 \<le> kind \<Longrightarrow> kind \<le> 3 \<Longrightarrow>
  (if kind = 0 then ActionFold else if kind = 1 then ActionCheck else if kind = 2 then ActionCall else ActionRaise) = of_int kind"
  by (cases "kind = 0"; cases "kind = 1"; cases "kind = 2"; cases "kind = 3") simp_all

lemma SubmitActionRPC_accepts:
  assumes "0 \<le> kind" "kind \<le> 3"
  shows "SubmitActionRPC kind amount (Some r) = Some (Inr r') \<longleftrightarrow>
    SubmitAction \<lparr>Kind = of_int kind, Amount = amount\<rparr> r = Some (Inr r')"
  using assms kind_word [OF assms]
  by (auto simp: SubmitActionRPC_def split: option.splits sum.splits submit_error.splits)

lemma SubmitAction_iff:
  assumes C: "crypto_ok C pub" and seat: "0 \<le> SeatIdx (node r)" "SeatIdx (node r) < 256"
  shows "SubmitAction a r = Some (Inr r') \<longleftrightarrow> actionCh r = None \<and> r' = r\<lparr>actionCh := Some a\<rparr> \<and>
    VerifyProposal C (log r) (BuildProposal C (log r) (mySeat r) a (sk r)) (pub (sk r)) = Some (Inr ())"
proof (cases "ExpectedNextPlayer (log r)")
  case None
  then show ?thesis by (simp add: SubmitAction_def currentRole_def VerifyProposal_def BuildProposal_def)
next
  case (Some q)
  have turn: "uint q = SeatIdx (node r) \<longleftrightarrow> mySeat r = q"
    unfolding mySeat_def using uint_of_int_byte [OF seat] by (metis word_of_int_uint)
  show ?thesis
  proof (cases "Log_state (log r)")
    case None
    then have "VerifyProposal C (log r) (BuildProposal C (log r) (mySeat r) a (sk r)) (pub (sk r)) \<noteq> Some (Inr ())"
      using Some by (simp add: VerifyProposal_def BuildProposal_def)
    moreover have "SubmitAction a r \<noteq> Some (Inr r')"
      using Some None by (simp add: SubmitAction_def currentRole_def)
    ultimately show ?thesis by simp
  next
    case (Some s)
    show ?thesis
      using VerifyProposal_built [OF C \<open>ExpectedNextPlayer (log r) = Some q\<close> Some, of "mySeat r" a "sk r"]
        \<open>ExpectedNextPlayer (log r) = Some q\<close> Some turn
      by (cases "ValidateAction s (mySeat r) a") (auto simp: SubmitAction_def currentRole_def)
  qed
qed

text \<open>The values of an evaluated hand are in range.\<close>

lemma spec_ties_ranks:
  assumes "length h = 5"
  shows "set (spec_ties h) \<subseteq> insert Five (Rank ` set h)"
proof -
  have "Max (set (map Rank h)) \<in> set (map Rank h)" using assms by (intro Max_in) auto
  then show ?thesis by (auto simp: spec_ties_def spec_straight_def ranks_by_weight_def Let_def split: if_splits)
qed

lemma Rank5_in_range:
  assumes "length h = 5" "distinct h" "list_all valid_card h"
  shows "Category (Rank5 h) \<le> StraightFlush" "length (Tiebreakers (Rank5 h)) = 5" "list_all (\<lambda>t. t \<le> Ace) (Tiebreakers (Rank5 h))"
proof -
  have spec: "Category (Rank5 h) = spec_category h" "Tiebreakers (Rank5 h) = ties5 (spec_ties h)"
    using Rank5_category_ties [OF assms] by auto
  show "Category (Rank5 h) \<le> StraightFlush" unfolding spec by (simp add: spec_category_def Let_def)
  show "length (Tiebreakers (Rank5 h)) = 5" unfolding spec by simp
  have "set (ties5 (spec_ties h)) \<subseteq> insert 0 (insert Five (Rank ` set h))"
    using spec_ties_ranks [OF assms(1)] by (auto simp: ties5_def dest!: in_set_takeD)
  moreover have "\<forall>c \<in> set h. Rank c \<le> Ace"
    using assms(3) by (auto simp: list_all_iff valid_card_uint word_le_def)
  ultimately show "list_all (\<lambda>t. t \<le> Ace) (Tiebreakers (Rank5 h))" unfolding spec by (auto simp: list_all_iff)
qed

lemma parse_empty [simp]: "atou64 [] = 0" "atou32 [] = 0" "atoi32 [] = 0" "actionKindFromName [] = ActionFold"
  by (simp_all add: atou64_def atou32_def atoi32_def parse_int_def parse_uint_def actionKindFromName_def)

text \<open>An attempt that was not committed carries no action, and the missing fields read as a fold of seat 0.\<close>

lemma failed_attempt_reads_as_fold:
  assumes "ev_Outcome ev \<noteq> ''committed''"
  shows "translateBusEvent (fill_event now n (attempt_bus_event why ev r)) =
    PbAction (nid n) (ev_RoundID ev) (ev_Attempt ev) 0 ActionFold 0 (ev_Outcome ev) (why (ev_Reason ev))"
  using assms
  by (simp add: translateBusEvent_def fill_event_def attempt_bus_event_def attempt_fields_def EmitFields_def Let_def field_def)

text \<open>A round event emitted without fields arrives with every number zero.\<close>

lemma bare_round_reads_as_zero:
  "translateBusEvent (fill_event now n (EmitKind ''round'' c msg)) = PbRoundStarted (nid n) 0 0 0"
  by (simp add: translateBusEvent_def fill_event_def EmitKind_def EmitFields_def Let_def field_def)

section \<open>Properties\<close>

text \<open>
  C27. What the game reports reaches the client unchanged.  The committed action of a round arrives with
  its round, attempt, seat, kind and amount; a game start arrives with the seating order and the node's own seat,
  as long as no identifier contains a comma; and a community event shows the revealed cards up to
  the first gap.
\<close>

theorem events_reach_client:
  assumes "Kind (EAction e) \<le> 3" "log r = Append e l" "ev_Outcome ev = ''committed''"
    "Order n \<noteq> []" "\<forall>i \<in> set (Order n). CHR '','' \<notin> set i" "join_with '','' (Order n) \<noteq> []" "-1 \<le> SeatIdx n" "SeatIdx n < 2 ^ 31"
    "board \<noteq> []" "hd board \<noteq> []" "community m = board" "length ch < 128"
  shows "SubscribeEvents now n (attempt_bus_event why ev r) ch =
      map translateBusEvent ch @ [PbAction (nid n) (ev_RoundID ev) (ev_Attempt ev) (uint (PlayerID e)) (Kind (EAction e)) (Amount (EAction e)) ''committed'' (why (ev_Reason ev))] \<and>
    SubscribeEvents now n (game_start_event frame n) ch =
      map translateBusEvent ch @ [PbGameStart (nid n) (firstNonEmpty (sess n) (FSessionID frame)) (Order n) (SeatIdx n)] \<and>
    SubscribeEvents now n (community_event i c m) ch =
      map translateBusEvent ch @ [PbCommunityCards (nid n) (Some (takeWhile (\<lambda>c. c \<noteq> []) board))]"
  unfolding SubscribeEvents_room [OF assms(12)] same_append_eq list.inject simp_thms
proof (intro conjI)
  have "entries (log r) ! (length (entries (log r)) - 1) = e" using assms(2) by (simp add: Append_def)
  moreover have "0 < length (entries (log r))" using assms(2) by (simp add: Append_def)
  ultimately have "attempt_fields why ev (log r) =
      [(''round_id'', itoa (unat (ev_RoundID ev))), (''attempt'', itoa (unat (ev_Attempt ev))),
       (''outcome'', ''committed''), (''reason'', why (ev_Reason ev)),
       (''seat'', itoa (unat (PlayerID e))), (''action_kind'', actionKindName (Kind (EAction e))),
       (''action_amount'', itoa (unat (Amount (EAction e))))]"
    using assms(3) by (simp add: attempt_fields_def Let_def)
  then show "translateBusEvent (fill_event now n (attempt_bus_event why ev r)) =
      PbAction (nid n) (ev_RoundID ev) (ev_Attempt ev) (uint (PlayerID e)) (Kind (EAction e)) (Amount (EAction e)) ''committed'' (why (ev_Reason ev))"
    using actionKind_roundtrip [OF assms(1)]
    by (simp add: translateBusEvent_def fill_event_def attempt_bus_event_def EmitFields_def Let_def field_def)
next
  have "splitCSV (join_with '','' (Order n)) = Order n" using split_join [OF assms(4, 5)] assms(6) by (simp add: splitCSV_def)
  moreover have "atoi32 (itoa_int (SeatIdx n)) = SeatIdx n" using atoi32_itoa_int assms(7, 8) by simp
  ultimately show "translateBusEvent (fill_event now n (game_start_event frame n)) =
      PbGameStart (nid n) (firstNonEmpty (sess n) (FSessionID frame)) (Order n) (SeatIdx n)"
    by (simp add: translateBusEvent_def fill_event_def game_start_event_def EmitFields_def Let_def field_def)
next
  have "numbered (takeWhile (\<lambda>c. c \<noteq> []) board) \<noteq> []" using assms(9, 10) by (cases board) (auto simp: numbered_def)
  then show "translateBusEvent (fill_event now n (community_event i c m)) = PbCommunityCards (nid n) (Some (takeWhile (\<lambda>c. c \<noteq> []) board))"
    using assms(11) orderedCardList_numbered
    by (simp add: translateBusEvent_def fill_event_def community_event_def EmitCards_def EmitFields_def Let_def board_cards_numbered)
qed

theorem events_reach_client_witness:
  "\<exists>n. nid n = ''b'' \<and> Order n = [''a'', ''b''] \<and>
    SubscribeEvents 5 n (attempt_bus_event (\<lambda>_. ''ok'') \<lparr>ev_RoundID = 1, ev_Attempt = 2, ev_Outcome = ''committed'', ev_Reason = NoReason\<rparr>
      (demo_runner [''a'', ''b'', ''c''] demo_log 0)) [] = [PbAction ''b'' 1 2 1 ActionFold 0 ''committed'' ''ok''] \<and>
    SubscribeEvents 5 n (game_start_event (frame_of KindGameStart) n) [] = [PbGameStart ''b'' (firstNonEmpty (sess n) []) [''a'', ''b''] 1]"
proof -
  let ?n = "(demo_peer ''b'')\<lparr>Order := [''a'', ''b''], SeatIdx := 1, community := [''17'', []]\<rparr>"
  let ?r = "demo_runner [''a'', ''b'', ''c''] demo_log 0"
  let ?l1 = "Append (BuildProposal demo_crypto (NewLog 3 100) 0 \<lparr>Kind = ActionRaise, Amount = 30\<rparr> [7]) (NewLog 3 100)"
  let ?e = "BuildProposal demo_crypto ?l1 1 \<lparr>Kind = ActionFold, Amount = 0\<rparr> [8]"
  let ?ev = "\<lparr>ev_RoundID = 1, ev_Attempt = 2, ev_Outcome = ''committed'', ev_Reason = NoReason\<rparr>"
  have "log ?r = Append ?e ?l1" by (simp add: demo_runner_def demo_log_def Let_def)
  from events_reach_client [OF _ this, of ?ev ?n "[''17'', []]" "Node.truncate ?n" "[]" 5 "\<lambda>_. ''ok''" "frame_of KindGameStart"]
  show ?thesis by (intro exI [of _ ?n]) (simp add: BuildProposal_def demo_peer_def Node.defs frame_of_def)
qed

text \<open>
  C11. A client's action is accepted exactly when its kind is known, no action is waiting, and the proposal
  the node would sign from it passes the check of every verifier.  Then it waits in the runner and nothing else changes.
\<close>

theorem submitted_action_verifies:
  assumes "crypto_ok C pub" "0 \<le> SeatIdx (node r)" "SeatIdx (node r) < 256"
  shows "SubmitActionRPC kind amount (Some r) = Some (Inr r') \<longleftrightarrow>
    0 \<le> kind \<and> kind \<le> 3 \<and> actionCh r = None \<and> r' = r\<lparr>actionCh := Some \<lparr>Kind = of_int kind, Amount = amount\<rparr>\<rparr> \<and>
    VerifyProposal C (log r) (BuildProposal C (log r) (mySeat r) \<lparr>Kind = of_int kind, Amount = amount\<rparr> (sk r)) (pub (sk r)) = Some (Inr ())"
proof (cases "0 \<le> kind \<and> kind \<le> 3")
  case True
  then show ?thesis using SubmitActionRPC_accepts [of kind amount r r'] SubmitAction_iff [OF assms] by simp
next
  case False
  then show ?thesis by (auto simp: SubmitActionRPC_def)
qed

theorem submitted_action_verifies_witness:
  "\<exists>r'. SubmitActionRPC 2 0 (Some (demo_runner [''a'', ''b'', ''c''] demo_log 2)) = Some (Inr r') \<and>
    actionCh r' = Some \<lparr>Kind = ActionCall, Amount = 0\<rparr>"
proof -
  let ?r = "demo_runner [''a'', ''b'', ''c''] demo_log 2" and ?a = "\<lparr>Kind = ActionCall, Amount = 0\<rparr>"
  have r: "SeatIdx (node ?r) = 2" "log ?r = demo_log" "actionCh ?r = None" "mySeat ?r = 2"
    by (simp_all add: demo_runner_def Runner_New_def Let_def seat_node_def mySeat_def)
  have "ExpectedNextPlayer demo_log = Some 2" by code_simp
  moreover have "ValidateAction demo_state 2 ?a = Inr ()" by code_simp
  ultimately have "VerifyProposal demo_crypto demo_log (BuildProposal demo_crypto demo_log 2 ?a (sk ?r)) (pad32 (sk ?r)) = Some (Inr ())"
    using VerifyProposal_built [OF demo_crypto_ok _ demo_log_state] by simp
  then show ?thesis
    using submitted_action_verifies [OF demo_crypto_ok, of ?r 2 0 "?r\<lparr>actionCh := Some ?a\<rparr>"] r by (intro exI [of _ "?r\<lparr>actionCh := Some ?a\<rparr>"]) simp
qed

text \<open>
  C29. An evaluated hand is well formed: five distinct cards out of those the client sent, each with an index below 52,
  one of the nine categories, and five tie-breakers that are ranks.
\<close>

theorem EvaluateHand_well_formed:
  assumes "EvaluateHand ss = Inr h"
  shows "\<exists>cs. ParseDeckStrings ss = Inr cs \<and> distinct cs \<and> 5 \<le> length ss \<and> length ss \<le> 7 \<and>
    length (eh_Best h) = 5 \<and> distinct (eh_Best h) \<and> set (eh_Best h) \<subseteq> cardInfo ` set cs \<and>
    list_all (\<lambda>i. 0 \<le> ci_Index i \<and> ci_Index i < 52) (eh_Best h) \<and>
    eh_Category h \<le> StraightFlush \<and> length (eh_Tiebreakers h) = 5 \<and> list_all (\<lambda>t. t \<le> Ace) (eh_Tiebreakers h)"
proof -
  obtain cs r where cs: "ParseDeckStrings ss = Inr cs" and r: "Best cs = Inr r"
    and h: "eh_Category h = Category r" "eh_Tiebreakers h = Tiebreakers r" "eh_Best h = map cardInfo (BestCards r)"
    using assms by (auto simp: EvaluateHand_def split: sum.splits)
  have len: "5 \<le> length cs" "length cs \<le> 7" "distinct cs"
    using r firstDuplicate_None [of cs] by (auto simp: Best_def split: if_splits option.splits)
  obtain g where g: "g \<in> set (subseqs cs)" "length g = 5" "r = Rank5 g" using Best_max [OF len] r by auto
  have sub: "subseq g cs" using g(1) by simp
  have dg: "distinct g" using g(1) subseqs_distinctD len(3) by blast
  have sg: "set g \<subseteq> set cs" using g(1) subseqs_powset [of cs] by blast
  have valid: "list_all valid_card cs" by (rule ParseDeckStrings_valid [OF cs])
  then have vg: "list_all valid_card g" using sg by (auto simp: list_all_iff)
  have best: "mset (BestCards r) = mset g" unfolding g(3) by (rule Rank5_BestCards [OF g(2) vg])
  then have bs: "set (BestCards r) = set g" "length (BestCards r) = 5" "distinct (BestCards r)"
    using g(2) dg by (metis set_mset_mset, metis size_mset, metis mset_eq_imp_distinct_iff)
  have inj: "inj_on cardInfo (set g)" by (rule inj_onI) (auto simp: cardInfo_def intro: Card_eqI)
  show ?thesis
  proof (intro exI conjI)
    show "list_all (\<lambda>i. 0 \<le> ci_Index i \<and> ci_Index i < 52) (eh_Best h)"
      using vg Card_Int_bounds by (auto simp: h list_all_iff bs cardInfo_def)
  qed (use cs len ParseDeckStrings_length [OF cs] h bs inj sg Rank5_in_range [OF g(2) dg vg] g(3) in \<open>auto simp: distinct_map\<close>)
qed

theorem EvaluateHand_well_formed_witness:
  "\<exists>h. EvaluateHand [''1'', ''2'', ''3'', ''4'', ''5''] = Inr h \<and> eh_Category h = StraightFlush \<and> length (eh_Best h) = 5 \<and> distinct (eh_Best h)"
proof -
  have "map_sum id eh_Category (EvaluateHand [''1'', ''2'', ''3'', ''4'', ''5'']) = Inr StraightFlush" by code_simp
  then obtain h where "EvaluateHand [''1'', ''2'', ''3'', ''4'', ''5''] = Inr h" "eh_Category h = StraightFlush"
    by (cases "EvaluateHand [''1'', ''2'', ''3'', ''4'', ''5'']") auto
  with EvaluateHand_well_formed [of _ h] show ?thesis by blast
qed

end
