(* ===== verification/Sim_Ring.thy ===== *)
theory Sim_Ring
  imports Deal
begin

text \<open>
  The simulation of shuffle and deal over Go channels (\<^verbatim>\<open>internal/sim/sim.go\<close>).  The first part is a library for networks
  of state machines over channels of capacity one: when every channel has one writer and one reader, steps
  commute, so one complete schedule decides about all of them.  The second part models the leader and the followers,
  and shows with such a schedule that every run ends with the cards dealt.
\<close>

section \<open>Networks of buffered channels\<close>

text \<open>
  A node is a state machine whose next operation is a send, a receive or nothing.  Every channel holds
  one message: a send waits for room and a receive for a message.
\<close>

datatype ('c, 'm, 'p) op = Send_to 'c 'm 'p | Receive 'c "'m \<Rightarrow> 'p" | Halt

type_synonym ('c, 'm, 'p) chan_net = "('c \<rightharpoonup> 'm) \<times> (nat \<Rightarrow> 'p)"

definition fire :: "(nat \<Rightarrow> 'p \<Rightarrow> ('c, 'm, 'p) op) \<Rightarrow> nat \<Rightarrow> ('c, 'm, 'p) chan_net \<Rightarrow> ('c, 'm, 'p) chan_net option" where
  "fire oper i s = (case s of (ch, ps) \<Rightarrow>
     (case oper i (ps i) of
        Send_to c m p \<Rightarrow> if ch c = None then Some (ch(c \<mapsto> m), ps(i := p)) else None
      | Receive c f \<Rightarrow> (case ch c of None \<Rightarrow> None | Some m \<Rightarrow> Some (ch(c := None), ps(i := f m)))
      | Halt \<Rightarrow> None))"

definition chan_step :: "(nat \<Rightarrow> 'p \<Rightarrow> ('c, 'm, 'p) op) \<Rightarrow> nat \<Rightarrow> ('c, 'm, 'p) chan_net \<Rightarrow> ('c, 'm, 'p) chan_net \<Rightarrow> bool" where
  "chan_step oper n s t \<longleftrightarrow> (\<exists>i < n. fire oper i s = Some t)"

fun fires :: "(nat \<Rightarrow> 'p \<Rightarrow> ('c, 'm, 'p) op) \<Rightarrow> nat list \<Rightarrow> ('c, 'm, 'p) chan_net \<Rightarrow> ('c, 'm, 'p) chan_net option" where
  "fires oper [] s = Some s"
| "fires oper (i # is) s = Option.bind (fire oper i s) (fires oper is)"

text \<open>
  A relation with the diamond property descends at random: once one run ends, all do, after as many steps
  and in the same state.
\<close>

lemma random_descent:
  assumes diamond: "\<And>x y z. R x y \<Longrightarrow> R x z \<Longrightarrow> y = z \<or> (\<exists>v. R y v \<and> R z v)"
    and stuck: "\<And>y. \<not> R z y"
  shows "(R ^^ m) x z \<Longrightarrow> (R ^^ k) x y \<Longrightarrow> k \<le> m \<and> (R ^^ (m - k)) y z"
proof (induction m arbitrary: x k y)
  case 0
  then have "x = z" by simp
  then show ?case
  proof (cases k)
    case (Suc k')
    then show ?thesis using 0(2) stuck relpowp_Suc_D2 [of k' R x y] \<open>x = z\<close> by simp
  qed (use 0 in simp)
next
  case (Suc m)
  obtain x1 where x1: "R x x1" "(R ^^ m) x1 z" using Suc.prems(1) by (rule relpowp_Suc_E2)
  show ?case
  proof (cases k)
    case 0
    then show ?thesis using Suc.prems by simp
  next
    case (Suc k')
    obtain y1 where y1: "R x y1" "(R ^^ k') y1 y" using Suc.prems(2) unfolding Suc by (rule relpowp_Suc_E2)
    have "(R ^^ m) y1 z"
    proof (cases "x1 = y1")
      case False
      then obtain v where v: "R x1 v" "R y1 v" using diamond [OF x1(1) y1(1)] by blast
      have "(R ^^ 1) x1 v" using v(1) by (simp only: relpowp_1)
      from Suc.IH [OF x1(2) this] have "1 \<le> m \<and> (R ^^ (m - 1)) v z" .
      then show ?thesis using relpowp_Suc_I2 [of R y1 v "m - 1" z] v(2) by (cases m) simp_all
    qed (use x1 in simp)
    from Suc.IH [OF this y1(2)] show ?thesis by (simp add: Suc)
  qed
qed

lemma fires_append: "fires oper (xs @ ys) s = Option.bind (fires oper xs s) (fires oper ys)"
  by (induction xs arbitrary: s) (auto split: bind_splits)

lemma fires_steps: "fires oper is s = Some t \<Longrightarrow> \<forall>i \<in> set is. i < n \<Longrightarrow> (chan_step oper n ^^ length is) s t"
proof (induction "is" arbitrary: s)
  case (Cons i "is")
  then obtain u where "fire oper i s = Some u" "fires oper is u = Some t" by (auto split: bind_splits)
  moreover from this have "(chan_step oper n ^^ length is) u t" "chan_step oper n s u"
    using Cons.IH [of u] Cons.prems(2) by (simp, auto simp: chan_step_def)
  ultimately show ?case using relpowp_Suc_I2 [of "chan_step oper n" s u] by simp
qed simp

text \<open>All nodes of a list send, or receive, one after the other.\<close>

lemma send_sweep:
  assumes "distinct is" "\<And>i. i \<in> set is \<Longrightarrow> oper i (ps i) = Send_to (c i) (m i) (q i)" "\<And>i. i \<in> set is \<Longrightarrow> ch (c i) = None"
    "inj_on c (set is)"
  shows "fires oper is (ch, ps) = Some (ch ++ map_of (map (\<lambda>i. (c i, m i)) is), \<lambda>i. if i \<in> set is then q i else ps i)"
  using assms
proof (induction "is" arbitrary: ch ps)
  case (Cons i "is")
  have fire: "fire oper i (ch, ps) = Some (ch(c i \<mapsto> m i), ps(i := q i))"
    using Cons.prems(2, 3) [of i] by (simp add: fire_def)
  have ne: "c j \<noteq> c i" if "j \<in> set is" for j using Cons.prems(1, 4) that by (metis distinct.simps(2) inj_onD list.set_intros)
  have rest: "fires oper is (ch(c i \<mapsto> m i), ps(i := q i)) =
      Some (ch(c i \<mapsto> m i) ++ map_of (map (\<lambda>i. (c i, m i)) is), \<lambda>j. if j \<in> set is then q j else (ps(i := q i)) j)"
    using Cons.prems ne by (intro Cons.IH) auto
  have "map_of (map (\<lambda>i. (c i, m i)) is) (c i) = None" using ne by (force simp: map_of_eq_None_iff)
  then have "ch(c i \<mapsto> m i) ++ map_of (map (\<lambda>i. (c i, m i)) is) = ch ++ map_of (map (\<lambda>i. (c i, m i)) (i # is))"
    by (auto simp: map_add_def fun_eq_iff split: option.split)
  moreover have "(\<lambda>j. if j \<in> set is then q j else (ps(i := q i)) j) = (\<lambda>j. if j \<in> set (i # is) then q j else ps j)" by auto
  ultimately show ?case using fire rest by (simp del: map_of.simps list.map)
qed simp

lemma receive_sweep:
  assumes "distinct is" "\<And>i. i \<in> set is \<Longrightarrow> oper i (ps i) = Receive (c i) (f i)" "\<And>i. i \<in> set is \<Longrightarrow> ch (c i) = Some (m i)"
    "inj_on c (set is)"
  shows "fires oper is (ch, ps) = Some (ch |` (- c ` set is), \<lambda>i. if i \<in> set is then f i (m i) else ps i)"
  using assms
proof (induction "is" arbitrary: ch ps)
  case (Cons i "is")
  have fire: "fire oper i (ch, ps) = Some (ch(c i := None), ps(i := f i (m i)))"
    using Cons.prems(2, 3) [of i] by (simp add: fire_def)
  have ne: "c j \<noteq> c i" if "j \<in> set is" for j using Cons.prems(1, 4) that by (metis distinct.simps(2) inj_onD list.set_intros)
  have rest: "fires oper is (ch(c i := None), ps(i := f i (m i))) =
      Some (ch(c i := None) |` (- c ` set is), \<lambda>j. if j \<in> set is then f j (m j) else (ps(i := f i (m i))) j)"
    using Cons.prems ne by (intro Cons.IH) auto
  have "ch(c i := None) |` (- c ` set is) = ch |` (- c ` set (i # is))" by (auto simp: restrict_map_def fun_eq_iff)
  moreover have "(\<lambda>j. if j \<in> set is then f j (m j) else (ps(i := f i (m i))) j) = (\<lambda>j. if j \<in> set (i # is) then f j (m j) else ps j)" by auto
  ultimately show ?case using fire rest by simp
qed (simp add: restrict_map_def)

text \<open>When every channel has one writer and one reader, steps of different nodes commute.\<close>

locale channel_net =
  fixes oper :: "nat \<Rightarrow> 'p \<Rightarrow> ('c, 'm, 'p) op" and writer reader :: "'c \<Rightarrow> nat"
  assumes writes: "oper i p = Send_to c m q \<Longrightarrow> writer c = i"
    and reads: "oper i p = Receive c f \<Longrightarrow> reader c = i"
begin

lemma fire_commute:
  assumes "i \<noteq> j" "fire oper i s = Some t" "fire oper j s = Some u"
  shows "\<exists>v. fire oper j t = Some v \<and> fire oper i u = Some v"
proof -
  obtain ch ps where s: "s = (ch, ps)" by (cases s)
  show ?thesis
  proof (cases "oper i (ps i)"; cases "oper j (ps j)")
    fix c m p d m' p' assume o: "oper i (ps i) = Send_to c m p" "oper j (ps j) = Send_to d m' p'"
    then have "c \<noteq> d" using writes assms(1) by metis
    then show ?thesis using o assms by (auto simp: fire_def s fun_upd_twist split: if_splits)
  next
    fix c m p d f assume o: "oper i (ps i) = Send_to c m p" "oper j (ps j) = Receive d f"
    then have "c \<noteq> d" using assms(2, 3) by (auto simp: fire_def s split: if_splits option.splits)
    then show ?thesis using o assms by (auto simp: fire_def s fun_upd_twist split: if_splits option.splits)
  next
    fix c f d m p assume o: "oper i (ps i) = Receive c f" "oper j (ps j) = Send_to d m p"
    then have "c \<noteq> d" using assms(2, 3) by (auto simp: fire_def s split: if_splits option.splits)
    then show ?thesis using o assms by (auto simp: fire_def s fun_upd_twist split: if_splits option.splits)
  next
    fix c f d f' assume o: "oper i (ps i) = Receive c f" "oper j (ps j) = Receive d f'"
    then have "c \<noteq> d" using reads assms(1) by metis
    then show ?thesis using o assms by (auto simp: fire_def s fun_upd_twist split: option.splits)
  qed (use assms in \<open>auto simp: fire_def s\<close>)
qed

lemma run_confluent:
  assumes "fires oper is s = Some t" "\<forall>i \<in> set is. i < n" "\<forall>i < n. oper i (snd t i) = Halt" "(chan_step oper n ^^ k) s u"
  shows "k \<le> length is \<and> (chan_step oper n ^^ (length is - k)) u t"
proof (rule random_descent [OF _ _ fires_steps [OF assms(1, 2)] assms(4)])
  fix x y z assume "chan_step oper n x y" "chan_step oper n x z"
  then obtain i j where ij: "i < n" "j < n" "fire oper i x = Some y" "fire oper j x = Some z" unfolding chan_step_def by blast
  show "y = z \<or> (\<exists>v. chan_step oper n y v \<and> chan_step oper n z v)"
  proof (cases "i = j")
    case False
    then show ?thesis using fire_commute [OF False ij(3, 4)] ij(1, 2) unfolding chan_step_def by blast
  qed (use ij in simp)
next
  show "\<not> chan_step oper n t y" for y
    using assms(3) by (cases t) (auto simp: chan_step_def fire_def)
qed

end

section \<open>The simulation\<close>

record Network =
  numNodes :: nat
  sim_prime :: nat

datatype network_error = TooFewNodes | PrimeUnset

text \<open>The configured prime is \<open>None\<close> for a nil pointer.\<close>

definition NewNetwork :: "int \<Rightarrow> int option \<Rightarrow> network_error + Network" where
  "NewNetwork n p =
     (if n < 2 then Inl TooFewNodes
      else case p of None \<Rightarrow> Inl PrimeUnset
      | Some q \<Rightarrow> if q \<le> 0 then Inl PrimeUnset else Inr \<lparr>numNodes = nat n, sim_prime = nat q\<rparr>)"

record DealingRequest =
  OwnerID :: nat
  Index1 :: nat
  Index2 :: nat
  Value1 :: bytes
  Value2 :: bytes

text \<open>The two grids of channels; the one carries decks and the other one requests.\<close>

datatype channel = shuffleGrid nat nat | dealingGrid nat nat

datatype message = DeckMsg "bytes list" | RequestMsg DealingRequest

text \<open>Where a node's goroutine is: the channel operation it is about to do, or how it ended.\<close>

datatype phase =
    AwaitDeck
  | PassDeck "bytes list"
  | AwaitFinal
  | Broadcasting nat "bytes list"
  | SendRequest DealingRequest
  | AwaitRequest
  | Dealt string string
  | Stopped
  | Crashed

text \<open>A node has its key, once it was generated, and its source of randomness.\<close>

type_synonym sim_node = "Key option \<times> (nat \<Rightarrow> nat option)"

definition sim_deck :: "bytes list" where
  "sim_deck = map (\<lambda>i. bytes_of_string (itoa i)) [0..<52]"

definition shuffle_encrypt :: "Network \<Rightarrow> Key \<Rightarrow> (nat \<Rightarrow> nat option) \<Rightarrow> bytes list \<Rightarrow> phase" where
  "shuffle_encrypt net key rnd deck =
     (let (ok, deck) = Shuffle rnd deck in if \<not> ok then Stopped else PassDeck (EncryptDeck deck key (sim_prime net)))"

text \<open>\<^verbatim>\<open>dealCards\<close> up to its first send; \<open>shown\<close> is the number of cards printed before.\<close>

definition dealCards_start :: "nat \<Rightarrow> nat \<Rightarrow> bytes list \<Rightarrow> phase" where
  "dealCards_start shown i finalDeck =
     (if length finalDeck < shown \<or> length finalDeck \<le> 2 * i + 1 then Crashed
      else SendRequest \<lparr>OwnerID = i, Index1 = 2 * i, Index2 = 2 * i + 1, Value1 = finalDeck ! (2 * i), Value2 = finalDeck ! (2 * i + 1)\<rparr>)"

text \<open>An iteration of the loop of \<^verbatim>\<open>dealCards\<close> after the receive.\<close>

definition dealCards_handle :: "Network \<Rightarrow> nat \<Rightarrow> Key \<Rightarrow> DealingRequest \<Rightarrow> phase" where
  "dealCards_handle net i key r =
     (let c1 = DecryptCard (Value1 r) key (sim_prime net); c2 = DecryptCard (Value2 r) key (sim_prime net) in
      if OwnerID r = i then Dealt (string_of_bytes c1) (string_of_bytes c2)
      else SendRequest (r\<lparr>Value1 := c1, Value2 := c2\<rparr>))"

definition start_phase :: "Network \<Rightarrow> (nat \<Rightarrow> sim_node) \<Rightarrow> nat \<Rightarrow> phase" where
  "start_phase net nodes i =
     (case nodes i of (None, _) \<Rightarrow> Stopped
      | (Some key, rnd) \<Rightarrow> if i = 0 then shuffle_encrypt net key rnd sim_deck else AwaitDeck)"

text \<open>A message of the other type cannot arrive; a node without a key has stopped.\<close>

definition on_deck :: "(bytes list \<Rightarrow> phase) \<Rightarrow> message \<Rightarrow> phase" where
  "on_deck f m = (case m of DeckMsg d \<Rightarrow> f d | RequestMsg _ \<Rightarrow> Crashed)"

definition on_request :: "(DealingRequest \<Rightarrow> phase) \<Rightarrow> message \<Rightarrow> phase" where
  "on_request f m = (case m of RequestMsg r \<Rightarrow> f r | DeckMsg _ \<Rightarrow> Crashed)"

definition runLeader :: "Network \<Rightarrow> phase \<Rightarrow> Key \<Rightarrow> (nat \<Rightarrow> nat option) \<Rightarrow> (channel, message, phase) op" where
  "runLeader net ph key rnd = (let n = numNodes net in
     case ph of
       PassDeck d \<Rightarrow> Send_to (shuffleGrid 0 1) (DeckMsg d) AwaitFinal
     | AwaitFinal \<Rightarrow> Receive (shuffleGrid (n - 1) 0) (on_deck (Broadcasting 1))
     | Broadcasting i d \<Rightarrow> Send_to (shuffleGrid 0 i) (DeckMsg d) (if i + 1 < n then Broadcasting (i + 1) d else dealCards_start 5 0 d)
     | SendRequest r \<Rightarrow> Send_to (dealingGrid 0 (1 mod n)) (RequestMsg r) AwaitRequest
     | AwaitRequest \<Rightarrow> Receive (dealingGrid ((n - 1) mod n) 0) (on_request (dealCards_handle net 0 key))
     | _ \<Rightarrow> Halt)"

definition runFollower :: "Network \<Rightarrow> nat \<Rightarrow> phase \<Rightarrow> Key \<Rightarrow> (nat \<Rightarrow> nat option) \<Rightarrow> (channel, message, phase) op" where
  "runFollower net i ph key rnd = (let n = numNodes net in
     case ph of
       AwaitDeck \<Rightarrow> Receive (shuffleGrid (i - 1) i) (on_deck (shuffle_encrypt net key rnd))
     | PassDeck d \<Rightarrow> Send_to (shuffleGrid i ((i + 1) mod n)) (DeckMsg d) AwaitFinal
     | AwaitFinal \<Rightarrow> Receive (shuffleGrid 0 i) (on_deck (dealCards_start 2 i))
     | SendRequest r \<Rightarrow> Send_to (dealingGrid i ((i + 1) mod n)) (RequestMsg r) AwaitRequest
     | AwaitRequest \<Rightarrow> Receive (dealingGrid ((n + i - 1) mod n) i) (on_request (dealCards_handle net i key))
     | _ \<Rightarrow> Halt)"

definition sim_op :: "Network \<Rightarrow> (nat \<Rightarrow> sim_node) \<Rightarrow> nat \<Rightarrow> phase \<Rightarrow> (channel, message, phase) op" where
  "sim_op net nodes i ph =
     (case nodes i of (None, _) \<Rightarrow> Halt
      | (Some key, rnd) \<Rightarrow> if i = 0 then runLeader net ph key rnd else runFollower net i ph key rnd)"

definition sim_start :: "Network \<Rightarrow> (nat \<Rightarrow> sim_node) \<Rightarrow> (channel, message, phase) chan_net" where
  "sim_start net nodes = (Map.empty, start_phase net nodes)"

text \<open>Who writes and who reads a channel.\<close>

fun sim_writer :: "channel \<Rightarrow> nat" where
  "sim_writer (shuffleGrid i j) = i"
| "sim_writer (dealingGrid i j) = i"

fun sim_reader :: "channel \<Rightarrow> nat" where
  "sim_reader (shuffleGrid i j) = j"
| "sim_reader (dealingGrid i j) = j"

interpretation ring: channel_net "sim_op net nodes" sim_writer sim_reader for net nodes
  by unfold_locales
    (auto simp: sim_op_def runLeader_def runFollower_def Let_def split: prod.splits option.splits if_splits phase.splits)

section \<open>The run\<close>

text \<open>Two to twenty-six nodes, each with a usable key and a working random source, and a prime above every card.\<close>

definition sim_ok :: "Network \<Rightarrow> (nat \<Rightarrow> sim_node) \<Rightarrow> (nat \<Rightarrow> Key) \<Rightarrow> (nat \<Rightarrow> nat \<Rightarrow> nat option) \<Rightarrow> bool" where
  "sim_ok net nodes key rnd \<longleftrightarrow> 2 \<le> numNodes net \<and> numNodes net \<le> 26 \<and> is_prime (sim_prime net) \<and> 13618 < sim_prime net \<and>
     (\<forall>i < numNodes net. nodes i = (Some (key i), rnd i) \<and> key_ok (sim_prime net) (key i) \<and> draws_ok 52 (rnd i))"

fun relay_deck :: "Network \<Rightarrow> (nat \<Rightarrow> Key) \<Rightarrow> (nat \<Rightarrow> nat \<Rightarrow> nat option) \<Rightarrow> nat \<Rightarrow> bytes list" where
  "relay_deck net key rnd 0 = sim_deck"
| "relay_deck net key rnd (Suc i) = EncryptDeck (snd (Shuffle (rnd i) (relay_deck net key rnd i))) (key i) (sim_prime net)"

definition sim_nums :: "nat list" where
  "sim_nums = map be_nat sim_deck"

lemma sim_cards: "sim_deck = map big_bytes sim_nums" "\<forall>m \<in> set sim_nums. m < 13619" "length sim_nums = 52"
  using card_num_bound by (auto simp: sim_nums_def sim_deck_def itoa_bytes_canonical)

lemma relay_deck_form:
  assumes "sim_ok net nodes key rnd" "i \<le> numNodes net"
  shows "\<exists>ms. mset ms = mset sim_nums \<and>
    relay_deck net key rnd i = map (\<lambda>m. big_bytes (fold (enc (sim_prime net)) (map key [0..<i]) m)) ms"
  using assms(2)
proof (induction i)
  case 0
  then show ?case using sim_cards(1) by (intro exI [of _ sim_nums]) simp
next
  case (Suc i)
  let ?p = "sim_prime net"
  let ?f = "\<lambda>m. big_bytes (fold (enc ?p) (map key [0..<i]) m)"
  obtain ms where ms: "mset ms = mset sim_nums" "relay_deck net key rnd i = map ?f ms" using Suc by auto
  have len: "length ms = 52" using ms(1) sim_cards(3) by (metis size_mset)
  then have "draws_ok (length (map ?f ms)) (rnd i)" using assms(1) Suc(2) by (simp add: sim_ok_def)
  then have "mset (snd (Shuffle (rnd i) (map ?f ms))) = image_mset ?f (mset ms)"
    using Shuffle_ok(2) [of "map ?f ms" "rnd i"] len by fastforce
  then obtain ms' where ms': "mset ms' = mset ms" "snd (Shuffle (rnd i) (map ?f ms)) = map ?f ms'"
    using map_preimage by blast
  have "relay_deck net key rnd (Suc i) = map (\<lambda>m. big_bytes (fold (enc ?p) (map key [0..<Suc i]) m)) ms'"
    using ms(2) ms'(2) EncryptDeck_enc [of "map (fold (enc ?p) (map key [0..<i])) ms'" "key i" ?p] by (simp add: o_def)
  then show ?case using ms(1) ms'(1) by auto
qed

lemma relay_deck_length: "sim_ok net nodes key rnd \<Longrightarrow> i \<le> numNodes net \<Longrightarrow> length (relay_deck net key rnd i) = 52"
  using relay_deck_form [of net nodes key rnd i] sim_cards(3) by (metis length_map size_mset)

lemma shuffle_encrypt_relay:
  assumes "sim_ok net nodes key rnd" "i < numNodes net"
  shows "shuffle_encrypt net (key i) (rnd i) (relay_deck net key rnd i) = PassDeck (relay_deck net key rnd (Suc i))"
proof -
  have "length (relay_deck net key rnd i) = 52" using relay_deck_length [OF assms(1)] assms(2) by simp
  moreover have "draws_ok 52 (rnd i)" using assms by (simp add: sim_ok_def)
  ultimately have "fst (Shuffle (rnd i) (relay_deck net key rnd i))"
    using Shuffle_ok(1) [of "relay_deck net key rnd i" "rnd i"] by fastforce
  then show ?thesis by (cases "Shuffle (rnd i) (relay_deck net key rnd i)") (simp add: shuffle_encrypt_def)
qed

text \<open>The operations of the leader and of the followers that have the same shape.\<close>

lemma sim_op_pass:
  "sim_ok net nodes key rnd \<Longrightarrow> i < numNodes net \<Longrightarrow>
    sim_op net nodes i (PassDeck d) = Send_to (shuffleGrid i ((i + 1) mod numNodes net)) (DeckMsg d) AwaitFinal"
  by (simp add: sim_ok_def sim_op_def runLeader_def runFollower_def Let_def)

lemma sim_op_send:
  "sim_ok net nodes key rnd \<Longrightarrow> i < numNodes net \<Longrightarrow>
    sim_op net nodes i (SendRequest r) = Send_to (dealingGrid i ((i + 1) mod numNodes net)) (RequestMsg r) AwaitRequest"
  by (simp add: sim_ok_def sim_op_def runLeader_def runFollower_def Let_def)

lemma sim_op_await:
  "sim_ok net nodes key rnd \<Longrightarrow> i < numNodes net \<Longrightarrow>
    sim_op net nodes i AwaitRequest =
      Receive (dealingGrid ((numNodes net + i - 1) mod numNodes net) i) (on_request (dealCards_handle net i (key i)))"
  by (simp add: sim_ok_def sim_op_def runLeader_def runFollower_def Let_def)

subsection \<open>Shuffle\<close>

definition relay_state :: "Network \<Rightarrow> (nat \<Rightarrow> sim_node) \<Rightarrow> (nat \<Rightarrow> Key) \<Rightarrow> (nat \<Rightarrow> nat \<Rightarrow> nat option) \<Rightarrow> nat \<Rightarrow>
    (channel, message, phase) chan_net" where
  "relay_state net nodes key rnd j =
     ([shuffleGrid (j - 1) (j mod numNodes net) \<mapsto> DeckMsg (relay_deck net key rnd j)],
      \<lambda>i. if i < j then AwaitFinal else start_phase net nodes i)"

lemma relay_first:
  assumes "sim_ok net nodes key rnd"
  shows "fires (sim_op net nodes) [0] (sim_start net nodes) = Some (relay_state net nodes key rnd 1)"
proof -
  have n: "0 < numNodes net" "1 mod numNodes net = 1" using assms by (auto simp: sim_ok_def)
  have "nodes 0 = (Some (key 0), rnd 0)" using assms n by (simp add: sim_ok_def)
  then have "start_phase net nodes 0 = PassDeck (relay_deck net key rnd 1)"
    using shuffle_encrypt_relay [OF assms n(1)] by (simp add: start_phase_def)
  then show ?thesis
    using sim_op_pass [OF assms n(1)] n(2) by (auto simp: fire_def sim_start_def relay_state_def fun_eq_iff)
qed

lemma relay_next:
  assumes "sim_ok net nodes key rnd" "1 \<le> j" "j < numNodes net"
  shows "fires (sim_op net nodes) [j, j] (relay_state net nodes key rnd j) = Some (relay_state net nodes key rnd (Suc j))"
proof -
  have nj: "nodes j = (Some (key j), rnd j)" using assms by (simp add: sim_ok_def)
  have start: "start_phase net nodes j = AwaitDeck" using nj assms(2) by (simp add: start_phase_def)
  have "sim_op net nodes j AwaitDeck = Receive (shuffleGrid (j - 1) j) (on_deck (shuffle_encrypt net (key j) (rnd j)))"
    using nj assms(2) by (simp add: sim_op_def runFollower_def Let_def)
  then have "fire (sim_op net nodes) j (relay_state net nodes key rnd j) =
      Some (Map.empty, (\<lambda>i. if i < j then AwaitFinal else start_phase net nodes i)(j := PassDeck (relay_deck net key rnd (Suc j))))"
    using assms(3) start shuffle_encrypt_relay [OF assms(1, 3)] by (simp add: fire_def relay_state_def on_deck_def)
  then show ?thesis
    using sim_op_pass [OF assms(1, 3)] by (auto simp: fire_def relay_state_def fun_eq_iff)
qed

lemma relay_all:
  assumes "sim_ok net nodes key rnd" "j < numNodes net"
  shows "fires (sim_op net nodes) (concat (map (\<lambda>j. [j, j]) [1..<Suc j])) (relay_state net nodes key rnd 1) =
    Some (relay_state net nodes key rnd (Suc j))"
  using assms(2)
proof (induction j)
  case (Suc j)
  have "[1..<Suc (Suc j)] = [1..<Suc j] @ [Suc j]" by simp
  then show ?case
    using Suc relay_next [OF assms(1), of "Suc j"] by (simp only: map_append concat_append fires_append) simp
qed simp

definition broadcast_channels :: "bytes list \<Rightarrow> nat \<Rightarrow> channel \<rightharpoonup> message" where
  "broadcast_channels d k c = (case c of shuffleGrid a b \<Rightarrow> if a = 0 \<and> 1 \<le> b \<and> b \<le> k then Some (DeckMsg d) else None
     | dealingGrid a b \<Rightarrow> None)"

lemma broadcast:
  assumes "sim_ok net nodes key rnd" "k < numNodes net"
  shows "fires (sim_op net nodes) (replicate k 0) (Map.empty, ps(0 := Broadcasting 1 d)) =
    Some (broadcast_channels d k, ps(0 := if Suc k < numNodes net then Broadcasting (Suc k) d else dealCards_start 5 0 d))"
  using assms(2)
proof (induction k)
  case 0
  have "1 < numNodes net" using assms(1) by (simp add: sim_ok_def)
  moreover have "broadcast_channels d 0 = Map.empty" by (auto simp: broadcast_channels_def fun_eq_iff split: channel.split)
  ultimately show ?case by simp
next
  case (Suc k)
  have "0 < numNodes net" using Suc.prems by simp
  then have "nodes 0 = (Some (key 0), rnd 0)" using assms(1) by (simp add: sim_ok_def)
  then have leader: "sim_op net nodes 0 (Broadcasting (Suc k) d) = Send_to (shuffleGrid 0 (Suc k)) (DeckMsg d)
      (if Suc (Suc k) < numNodes net then Broadcasting (Suc (Suc k)) d else dealCards_start 5 0 d)"
    by (simp add: sim_op_def runLeader_def Let_def)
  have "replicate (Suc k) (0 :: nat) = replicate k 0 @ [0]" by (simp add: replicate_append_same)
  moreover have "broadcast_channels d k (shuffleGrid 0 (Suc k)) = None" by (simp add: broadcast_channels_def)
  moreover have "(broadcast_channels d k)(shuffleGrid 0 (Suc k) \<mapsto> DeckMsg d) = broadcast_channels d (Suc k)"
    by (auto simp: broadcast_channels_def fun_eq_iff split: channel.split)
  ultimately show ?case using Suc leader by (simp add: fires_append fire_def fun_eq_iff)
qed

subsection \<open>Deal\<close>

text \<open>The request of \<open>owner\<close> after \<open>h\<close> nodes have taken their layer off.\<close>

definition stripped :: "Network \<Rightarrow> (nat \<Rightarrow> Key) \<Rightarrow> nat \<Rightarrow> nat \<Rightarrow> bytes \<Rightarrow> bytes" where
  "stripped net key owner h c =
     fold (\<lambda>k c. DecryptCard c k (sim_prime net)) (map (\<lambda>j. key ((owner + 1 + j) mod numNodes net)) [0..<h]) c"

definition sim_request :: "Network \<Rightarrow> (nat \<Rightarrow> Key) \<Rightarrow> bytes list \<Rightarrow> nat \<Rightarrow> nat \<Rightarrow> DealingRequest" where
  "sim_request net key d owner h =
     \<lparr>OwnerID = owner, Index1 = 2 * owner, Index2 = 2 * owner + 1,
      Value1 = stripped net key owner h (d ! (2 * owner)), Value2 = stripped net key owner h (d ! (2 * owner + 1))\<rparr>"

definition deal_phase :: "Network \<Rightarrow> (nat \<Rightarrow> Key) \<Rightarrow> bytes list \<Rightarrow> (nat \<Rightarrow> phase) \<Rightarrow> nat \<Rightarrow> nat \<Rightarrow> phase" where
  "deal_phase net key d ps k i = (let n = numNodes net in
     if n \<le> i then ps i
     else if k < n then SendRequest (sim_request net key d ((i + (n - k)) mod n) k)
     else Dealt (string_of_bytes (stripped net key i n (d ! (2 * i)))) (string_of_bytes (stripped net key i n (d ! (2 * i + 1)))))"

lemma next_inj: "inj_on (\<lambda>i. dealingGrid i ((i + 1) mod n)) A"
  by (rule inj_onI) simp

lemma prev_next: "(i :: nat) < n \<Longrightarrow> ((n + i - 1) mod n + 1) mod n = i"
  by (cases i) (simp_all add: mod_Suc)

lemma prev_owner:
  assumes "(i :: nat) < n" "k < n"
  shows "((n + i - 1) mod n + (n - k)) mod n = (i + (n - Suc k)) mod n"
proof -
  have "n + i - 1 + (n - k) = n + (i + (n - Suc k))" using assms by simp
  then show ?thesis by (metis mod_add_left_eq mod_add_self1)
qed

lemma owner_hops:
  assumes "(i :: nat) < n" "k < n"
  shows "((i + (n - Suc k)) mod n + 1 + k) mod n = i"
proof -
  have "i + (n - Suc k) + (1 + k) = i + n" using assms by simp
  then show ?thesis using assms(1) by (metis add.assoc mod_add_left_eq mod_add_self2 mod_less)
qed

lemma owner_returns:
  assumes "(i :: nat) < n" "k < n"
  shows "(i + (n - Suc k)) mod n = i \<longleftrightarrow> Suc k = n"
proof
  assume same: "(i + (n - Suc k)) mod n = i"
  show "Suc k = n"
  proof (cases "i + (n - Suc k) < n")
    case False
    then have "(i + (n - Suc k)) mod n = i + (n - Suc k) - n" using assms by (simp add: mod_if)
    then show ?thesis using same assms False by simp
  qed (use same assms in simp)
qed (use assms in simp)

lemma stripped_Suc: "stripped net key owner (Suc h) c = DecryptCard (stripped net key owner h c) (key ((owner + 1 + h) mod numNodes net)) (sim_prime net)"
  by (simp add: stripped_def)

lemma handle_request:
  assumes "i < numNodes net" "k < numNodes net"
  shows "dealCards_handle net i (key i) (sim_request net key d ((i + (numNodes net - Suc k)) mod numNodes net) k) =
    deal_phase net key d ps (Suc k) i"
proof (cases "Suc k = numNodes net")
  case True
  then have "(i + (numNodes net - Suc k)) mod numNodes net = i" using owner_returns [OF assms] by simp
  moreover have "(i + 1 + k) mod numNodes net = i" using True assms(1) by (metis Suc_eq_plus1_left add.assoc mod_add_self2 mod_less)
  ultimately show ?thesis
    using True assms(1) stripped_Suc [of net key i k]
    by (simp add: dealCards_handle_def sim_request_def deal_phase_def Let_def)
next
  case False
  then have "(i + (numNodes net - Suc k)) mod numNodes net \<noteq> i" "Suc k < numNodes net" using owner_returns [OF assms] assms(2) by auto
  then show ?thesis
    using assms(1) owner_hops [OF assms] by (simp add: dealCards_handle_def sim_request_def deal_phase_def Let_def stripped_Suc)
qed

lemma deal_round:
  assumes ok: "sim_ok net nodes key rnd" and k: "k < numNodes net"
  shows "fires (sim_op net nodes) ([0..<numNodes net] @ [0..<numNodes net]) (Map.empty, deal_phase net key d ps k) =
    Some (Map.empty, deal_phase net key d ps (Suc k))"
proof -
  let ?n = "numNodes net"
  let ?c = "\<lambda>i. dealingGrid i ((i + 1) mod ?n)" and ?e = "\<lambda>i. dealingGrid ((?n + i - 1) mod ?n) i"
  let ?m = "\<lambda>i. RequestMsg (sim_request net key d ((i + (?n - k)) mod ?n) k)"
  let ?ch = "map_of (map (\<lambda>i. (?c i, ?m i)) [0..<?n])"
  let ?ps = "\<lambda>i. if i \<in> set [0..<?n] then AwaitRequest else deal_phase net key d ps k i"
  have "fires (sim_op net nodes) [0..<?n] (Map.empty, deal_phase net key d ps k) = Some (Map.empty ++ ?ch, ?ps)"
  proof (rule send_sweep)
    show "sim_op net nodes i (deal_phase net key d ps k i) = Send_to (?c i) (?m i) AwaitRequest" if "i \<in> set [0..<?n]" for i
      using that k sim_op_send [OF ok, of i] by (simp add: deal_phase_def Let_def)
  qed (simp_all add: inj_on_def)
  moreover have "fires (sim_op net nodes) [0..<?n] (?ch, ?ps) =
      Some (?ch |` (- ?e ` set [0..<?n]), \<lambda>i. if i \<in> set [0..<?n]
        then on_request (dealCards_handle net i (key i)) (RequestMsg (sim_request net key d ((i + (?n - Suc k)) mod ?n) k)) else ?ps i)"
  proof (rule receive_sweep)
    fix i assume i: "i \<in> set [0..<?n]"
    then show "sim_op net nodes i (?ps i) = Receive (?e i) (on_request (dealCards_handle net i (key i)))"
      using sim_op_await [OF ok, of i] by simp
    let ?prev = "(?n + i - 1) mod ?n"
    have prev: "?prev \<in> set [0..<?n]" using i by simp
    have "map fst (map (\<lambda>i. (?c i, ?m i)) [0..<?n]) = map ?c [0..<?n]" by simp
    then have "distinct (map fst (map (\<lambda>i. (?c i, ?m i)) [0..<?n]))" using next_inj by (simp only: distinct_map) simp
    then have "?ch (?c ?prev) = Some (?m ?prev)" using prev by (intro map_of_is_SomeI) auto
    moreover have "?c ?prev = ?e i" using prev_next [of i ?n] i by simp
    ultimately show "?ch (?e i) = Some (RequestMsg (sim_request net key d ((i + (?n - Suc k)) mod ?n) k))"
      using prev_owner [of i ?n k] i k by simp
  qed (auto intro: inj_onI)
  moreover have "?ch |` (- ?e ` set [0..<?n]) = Map.empty"
  proof
    fix x
    show "(?ch |` (- ?e ` set [0..<?n])) x = None"
    proof (cases "?ch x")
      case (Some m)
      then obtain i where i: "i < ?n" "x = ?c i" by (auto dest!: map_of_SomeD)
      then have "x = ?e ((i + 1) mod ?n)" by (cases "Suc i = ?n") (auto simp: mod_Suc)
      then have "x \<in> ?e ` set [0..<?n]" using i by (intro image_eqI [of _ _ "(i + 1) mod ?n"]) auto
      then show ?thesis by simp
    qed (simp add: restrict_map_def)
  qed
  moreover have "(\<lambda>i. if i \<in> set [0..<?n]
        then on_request (dealCards_handle net i (key i)) (RequestMsg (sim_request net key d ((i + (?n - Suc k)) mod ?n) k)) else ?ps i) =
      deal_phase net key d ps (Suc k)"
    using handle_request [where k = k, OF _ k] by (auto simp: fun_eq_iff on_request_def) (simp add: deal_phase_def)
  ultimately show ?thesis by (simp only: fires_append empty_map_add Option.bind.bind_lunit)
qed

lemma deal_all:
  assumes "sim_ok net nodes key rnd" "k \<le> numNodes net"
  shows "fires (sim_op net nodes) (concat (replicate k ([0..<numNodes net] @ [0..<numNodes net]))) (Map.empty, deal_phase net key d ps 0) =
    Some (Map.empty, deal_phase net key d ps k)"
  using assms(2)
proof (induction k)
  case (Suc k)
  have "replicate (Suc k) ([0..<numNodes net] @ [0..<numNodes net]) = replicate k ([0..<numNodes net] @ [0..<numNodes net]) @ [[0..<numNodes net] @ [0..<numNodes net]]"
    by (simp add: replicate_append_same)
  then show ?case
    using Suc deal_round [OF assms(1), of k d ps] by (simp only: concat_append fires_append) (simp add: fires_append)
qed simp

text \<open>One complete schedule, and where it ends.\<close>

definition schedule :: "nat \<Rightarrow> nat list" where
  "schedule n = [0] @ concat (map (\<lambda>j. [j, j]) [1..<n]) @ [0] @ replicate (n - 1) 0 @ [1..<n] @ concat (replicate n ([0..<n] @ [0..<n]))"

lemma length_schedule: "2 \<le> n \<Longrightarrow> length (schedule n) = 2 * n * n + 4 * n - 2"
  by (simp add: schedule_def length_concat o_def sum_list_replicate sum_list_triv algebra_simps)

lemma set_schedule: "2 \<le> n \<Longrightarrow> \<forall>i \<in> set (schedule n). i < n"
  by (auto simp: schedule_def)

lemma finals_received:
  assumes ok: "sim_ok net nodes key rnd"
  defines "n \<equiv> numNodes net" and "d \<equiv> relay_deck net key rnd (numNodes net)"
  shows "fires (sim_op net nodes) ([0] @ replicate (n - 1) 0 @ [1..<n]) (relay_state net nodes key rnd n) =
    Some (Map.empty, deal_phase net key d (start_phase net nodes) 0)"
proof -
  let ?ps = "\<lambda>i. if i < n then AwaitFinal else start_phase net nodes i"
  have n: "2 \<le> n" "n \<le> 26" using ok by (simp_all add: n_def sim_ok_def)
  have nodes: "nodes i = (Some (key i), rnd i)" if "i < n" for i using ok that by (simp add: n_def sim_ok_def)
  have len: "length d = 52" unfolding d_def by (rule relay_deck_length [OF ok]) simp
  have "fire (sim_op net nodes) 0 (relay_state net nodes key rnd n) = Some (Map.empty, ?ps(0 := Broadcasting 1 d))"
    using n nodes [of 0] by (simp add: fire_def relay_state_def sim_op_def runLeader_def Let_def on_deck_def d_def flip: n_def)
  moreover have "fires (sim_op net nodes) (replicate (n - 1) 0) (Map.empty, ?ps(0 := Broadcasting 1 d)) =
      Some (broadcast_channels d (n - 1), ?ps(0 := dealCards_start 5 0 d))"
    using broadcast [OF ok, of "n - 1" ?ps d] n by (simp flip: n_def)
  moreover have "fires (sim_op net nodes) [1..<n] (broadcast_channels d (n - 1), ?ps(0 := dealCards_start 5 0 d)) =
      Some (broadcast_channels d (n - 1) |` (- shuffleGrid 0 ` set [1..<n]),
        \<lambda>i. if i \<in> set [1..<n] then on_deck (dealCards_start 2 i) (DeckMsg d) else (?ps(0 := dealCards_start 5 0 d)) i)"
  proof (rule receive_sweep)
    fix i assume i: "i \<in> set [1..<n]"
    then show "sim_op net nodes i ((?ps(0 := dealCards_start 5 0 d)) i) = Receive (shuffleGrid 0 i) (on_deck (dealCards_start 2 i))"
      using nodes [of i] by (simp add: sim_op_def runFollower_def Let_def)
    show "broadcast_channels d (n - 1) (shuffleGrid 0 i) = Some (DeckMsg d)" using i by (auto simp: broadcast_channels_def)
  qed (auto simp: inj_on_def)
  moreover have "broadcast_channels d (n - 1) |` (- shuffleGrid 0 ` set [1..<n]) = Map.empty"
    by (auto simp: broadcast_channels_def restrict_map_def fun_eq_iff split: channel.split)
  moreover have "(\<lambda>i. if i \<in> set [1..<n] then on_deck (dealCards_start 2 i) (DeckMsg d) else (?ps(0 := dealCards_start 5 0 d)) i) =
      deal_phase net key d (start_phase net nodes) 0"
    using n len by (auto simp: fun_eq_iff deal_phase_def dealCards_start_def on_deck_def sim_request_def stripped_def Let_def not_less_eq_eq less_Suc_eq_le
        simp flip: n_def)
  ultimately show ?thesis by (simp add: fires_append)
qed

lemma schedule_runs:
  assumes ok: "sim_ok net nodes key rnd"
  shows "fires (sim_op net nodes) (schedule (numNodes net)) (sim_start net nodes) =
    Some (Map.empty, deal_phase net key (relay_deck net key rnd (numNodes net)) (start_phase net nodes) (numNodes net))"
proof -
  let ?n = "numNodes net"
  have "Suc (?n - 1) = ?n" "?n - 1 < ?n" using ok by (auto simp: sim_ok_def)
  with relay_all [OF ok, of "?n - 1"]
  have relay: "fires (sim_op net nodes) (concat (map (\<lambda>j. [j, j]) [1..<?n])) (relay_state net nodes key rnd 1) = Some (relay_state net nodes key rnd ?n)"
    by simp
  have "schedule ?n = [0] @ concat (map (\<lambda>j. [j, j]) [1..<?n]) @ ([0] @ replicate (?n - 1) 0 @ [1..<?n]) @ concat (replicate ?n ([0..<?n] @ [0..<?n]))"
    by (simp add: schedule_def)
  then show ?thesis
    using relay_first [OF ok] relay finals_received [OF ok] deal_all [OF ok order_refl]
    by (simp only: fires_append [of _ "[0]"] fires_append [of _ "concat (map (\<lambda>j. [j, j]) [1..<?n])"]
        fires_append [of _ "[0] @ replicate (?n - 1) 0 @ [1..<?n]"] Option.bind.bind_lunit)
qed

lemma sim_halts: "sim_op net nodes i (Dealt c1 c2) = Halt"
  by (simp add: sim_op_def runLeader_def runFollower_def Let_def split: prod.split option.split)

text \<open>The rotated keys take off every layer.\<close>

lemma rotate_keys:
  assumes "0 < n"
  shows "mset (map (\<lambda>j. key ((i + 1 + j) mod n)) [0..<n]) = mset (map key [0..<n])"
proof -
  have inj: "inj_on (\<lambda>j. (i + 1 + j) mod n) {0..<n}"
  proof (rule inj_onI)
    have ord: "x = y" if "x \<le> y" "y < n" "(i + 1 + x) mod n = (i + 1 + y) mod n" for x y
    proof -
      have "n dvd y - x" using that mod_eq_dvd_iff_nat [of "i + 1 + x" "i + 1 + y" n] by simp
      then show ?thesis using that by (metis diff_is_0_eq dvd_imp_le gr0I le_antisym less_imp_diff_less not_le)
    qed
    fix x y assume "x \<in> {0..<n}" "y \<in> {0..<n}" "(i + 1 + x) mod n = (i + 1 + y) mod n"
    then show "x = y" using ord [of x y] ord [of y x] by (cases "x \<le> y") auto
  qed
  then have "(\<lambda>j. (i + 1 + j) mod n) ` {0..<n} = {0..<n}"
    using assms by (intro endo_inj_surj) auto
  then have "image_mset (\<lambda>j. (i + 1 + j) mod n) (mset_set {0..<n}) = mset_set {0..<n}" using inj by (simp add: image_mset_mset_set)
  then have "image_mset key (image_mset (\<lambda>j. (i + 1 + j) mod n) (mset_set {0..<n})) = image_mset key (mset_set {0..<n})" by simp
  then show ?thesis by (simp add: multiset.map_comp o_def)
qed

lemma stripped_all:
  assumes ok: "sim_ok net nodes key rnd" and m: "m < 13619"
  shows "stripped net key i (numNodes net) (big_bytes (fold (enc (sim_prime net)) (map key [0..<numNodes net]) m)) = big_bytes m"
proof -
  let ?p = "sim_prime net" and ?n = "numNodes net"
  let ?ks = "map key [0..<?n]" and ?ks' = "map (\<lambda>j. key ((i + 1 + j) mod ?n)) [0..<?n]"
  have n: "0 < ?n" and p: "is_prime ?p" "2 < ?p" "m < ?p" using ok m by (auto simp: sim_ok_def)
  have ks: "\<forall>k \<in> set ?ks. key_ok ?p k" using ok by (auto simp: sim_ok_def)
  have "fold (dec ?p) ?ks' (fold (enc ?p) ?ks m) < ?p" using n p(2) by (intro fold_dec_less) auto
  moreover have "fold (dec ?p) ?ks' (fold (enc ?p) ?ks m) mod ?p = m mod ?p"
    by (rule decrypt_all [OF p(1, 2) rotate_keys [OF n] ks])
  ultimately have "fold (dec ?p) ?ks' (fold (enc ?p) ?ks m) = m" using p(3) by simp
  then show ?thesis unfolding stripped_def fold_DecryptCard by simp
qed

text \<open>Nothing stops a configuration with more players than the deck has pairs of cards; the node without cards panics.\<close>

lemma too_many_nodes_crash:
  assumes "NewNetwork n (Some (int PRIME)) = Inr net" "27 \<le> n" "length d = 52"
  shows "26 < numNodes net" "dealCards_start 2 26 d = Crashed"
  using assms by (auto simp: NewNetwork_def dealCards_start_def split: if_splits)

section \<open>Properties\<close>

text \<open>
  C12. The simulated table always finishes.  With two to twenty-six nodes, usable keys and a working random source, no
  interleaving of the goroutines deadlocks: every run has at most \<open>2 n\<^sup>2 + 4 n - 2\<close> channel operations, can be
  continued to its end, and ends with the same result, in which the channels are empty and each player holds its
  two cards of one permutation of the deck.
\<close>

theorem sim_deals:
  assumes "sim_ok net nodes key rnd" "(chan_step (sim_op net nodes) (numNodes net) ^^ k) (sim_start net nodes) s"
  shows "k \<le> 2 * numNodes net * numNodes net + 4 * numNodes net - 2 \<and>
    (\<exists>cs t. mset cs = mset (map itoa [0..<52]) \<and>
       (chan_step (sim_op net nodes) (numNodes net) ^^ (2 * numNodes net * numNodes net + 4 * numNodes net - 2 - k)) s t \<and>
       fst t = Map.empty \<and> (\<forall>i < numNodes net. snd t i = Dealt (cs ! (2 * i)) (cs ! (2 * i + 1))))"
proof -
  let ?n = "numNodes net" and ?d = "relay_deck net key rnd (numNodes net)"
  let ?t = "(Map.empty, deal_phase net key ?d (start_phase net nodes) ?n) :: (channel, message, phase) chan_net"
  have n: "2 \<le> ?n" "?n \<le> 26" using assms(1) by (simp_all add: sim_ok_def)
  have "\<forall>i < ?n. sim_op net nodes i (snd ?t i) = Halt" by (simp add: deal_phase_def Let_def sim_halts)
  from ring.run_confluent [OF schedule_runs [OF assms(1)] set_schedule [OF n(1)] this assms(2)]
  have run: "k \<le> length (schedule ?n)" "(chan_step (sim_op net nodes) ?n ^^ (length (schedule ?n) - k)) s ?t" by auto
  obtain ms where ms: "mset ms = mset sim_nums" "?d = map (\<lambda>m. big_bytes (fold (enc (sim_prime net)) (map key [0..<?n]) m)) ms"
    using relay_deck_form [OF assms(1) order_refl] by blast
  have len: "length ms = 52" using ms(1) sim_cards(3) by (metis size_mset)
  let ?cs = "map (string_of_bytes \<circ> big_bytes) ms"
  have "image_mset big_bytes (mset sim_nums) = mset sim_deck" by (metis mset_map sim_cards(1))
  then have "mset ?cs = image_mset string_of_bytes (mset sim_deck)" by (simp add: ms(1) flip: multiset.map_comp)
  then have perm: "mset ?cs = mset (map itoa [0..<52])" by (simp add: sim_deck_def multiset.map_comp o_def)
  have card: "string_of_bytes (stripped net key i ?n (?d ! j)) = ?cs ! j" if "j < 52" for i j
  proof -
    have "ms ! j \<in> set sim_nums" using that len ms(1) by (metis nth_mem set_mset_mset)
    then show ?thesis using that len ms(2) stripped_all [OF assms(1)] sim_cards(2) by simp
  qed
  have "\<forall>i < ?n. snd ?t i = Dealt (?cs ! (2 * i)) (?cs ! (2 * i + 1))"
    using n card by (simp add: deal_phase_def Let_def)
  with run perm length_schedule [OF n(1)] show ?thesis by (intro conjI exI [of _ ?cs] exI [of _ ?t]) simp_all
qed

theorem sim_deals_witness:
  "\<exists>nodes cs t. (chan_step (sim_op \<lparr>numNodes = 2, sim_prime = PRIME\<rparr> nodes) 2 ^^ 14) (sim_start \<lparr>numNodes = 2, sim_prime = PRIME\<rparr> nodes) t \<and>
    mset cs = mset (map itoa [0..<52]) \<and> snd t 0 = Dealt (cs ! 0) (cs ! 1) \<and> snd t 1 = Dealt (cs ! 2) (cs ! 3)"
proof -
  let ?net = "\<lparr>numNodes = 2, sim_prime = PRIME\<rparr>" and ?key = "\<lambda>i. demo_keys ! i" and ?rnd = "\<lambda>i. if i = 0 then Some else (\<lambda>_. Some 0)"
  let ?nodes = "\<lambda>i. (Some (?key i), ?rnd i)"
  have "key_ok PRIME (demo_keys ! i)" if "i < 2" for i
    using that by (auto simp: less_2_cases_iff demo_keys_def key_ok_def PRIME_def coprime_iff_gcd_eq_1 gcd_non_0_nat)
  moreover have "13618 < PRIME" by (simp add: PRIME_def)
  ultimately have ok: "sim_ok ?net ?nodes ?key ?rnd" using PRIME_prime by (simp add: sim_ok_def draws_ok_def)
  have "(chan_step (sim_op ?net ?nodes) (numNodes ?net) ^^ 0) (sim_start ?net ?nodes) (sim_start ?net ?nodes)" by simp
  from sim_deals [OF ok this] obtain cs t where t: "mset cs = mset (map itoa [0..<52])"
    "(chan_step (sim_op ?net ?nodes) (numNodes ?net) ^^ (2 * numNodes ?net * numNodes ?net + 4 * numNodes ?net - 2 - 0)) (sim_start ?net ?nodes) t"
    "\<forall>i < numNodes ?net. snd t i = Dealt (cs ! (2 * i)) (cs ! (2 * i + 1))" by blast
  have two: "numNodes ?net = 2" "2 * 2 * 2 + 4 * 2 - 2 - 0 = (14 :: nat)" by simp_all
  have "snd t 0 = Dealt (cs ! 0) (cs ! 1)" "snd t 1 = Dealt (cs ! 2) (cs ! 3)" using t(3) by (simp_all add: numeral_3_eq_3)
  with t(1) t(2) [unfolded two] show ?thesis by blast
qed

end
