(* ===== verification/Sim_Rounds.thy ===== *)
theory Sim_Rounds
  imports Round_Live
begin

text \<open>
  The scripted rounds of the simulation (\<^verbatim>\<open>internal/sim/rounds.go\<close>): the scripts, the loop that submits actions and collects the
  runner's events, and the checks on what it reports.  The property connects them to the round runner: a stalling proposer
  produces exactly the expected events and is folded.
\<close>

section \<open>Scripts\<close>

record expectedEvent =
  xe_Attempt :: u32
  xe_Outcome :: string

record roundScript =
  sc_Attempts :: "Action list"
  sc_ExpectAutoFold :: bool
  sc_ExpectedEvents :: "expectedEvent list"

record roundReport =
  rep_Outcome :: string
  rep_Events :: "AttemptEvent list"

definition expectedAutoFoldEvents :: "u32 \<Rightarrow> bool \<Rightarrow> expectedEvent list" where
  "expectedAutoFoldEvents maxAttempts includeInitialReject =
     (if includeInitialReject then [\<lparr>xe_Attempt = 0, xe_Outcome = ''rejected''\<rparr>] else []) @
     map (\<lambda>a. \<lparr>xe_Attempt = of_nat a, xe_Outcome = ''timeout''\<rparr>) [0..<unat maxAttempts] @
     [\<lparr>xe_Attempt = 0, xe_Outcome = ''auto_fold''\<rparr>]"

definition act :: "ActionKind \<Rightarrow> u64 \<Rightarrow> Action" where
  "act k a = \<lparr>Kind = k, Amount = a\<rparr>"

definition scripts :: "u32 \<Rightarrow> roundScript list" where
  "scripts maxAttempts =
     (let rejected = \<lparr>xe_Attempt = 0, xe_Outcome = ''rejected''\<rparr>;
          plain = (\<lambda>a. \<lparr>sc_Attempts = [a], sc_ExpectAutoFold = False, sc_ExpectedEvents = []\<rparr>) in
      [plain (act ActionRaise 100), plain (act ActionFold 0), plain (act ActionCall 0), plain (act ActionCall 0),
       \<lparr>sc_Attempts = [act ActionRaise 1000000, act ActionRaise 1000000, act ActionRaise 1000000, act ActionCheck 0],
        sc_ExpectAutoFold = False,
        sc_ExpectedEvents = [rejected, rejected, rejected, \<lparr>xe_Attempt = 0, xe_Outcome = ''committed''\<rparr>]\<rparr>,
       \<lparr>sc_Attempts = [act ActionRaise 1000000], sc_ExpectAutoFold = True,
        sc_ExpectedEvents = expectedAutoFoldEvents maxAttempts True\<rparr>])"

section \<open>Driving a round\<close>

text \<open>
  The events still to come are a list; running out of them is a wait that the context ends.  Events of earlier
  rounds are skipped.
\<close>

fun nextRoundEvent :: "u64 \<Rightarrow> AttemptEvent list \<Rightarrow> (AttemptEvent \<times> AttemptEvent list) option" where
  "nextRoundEvent target [] = None"
| "nextRoundEvent target (ev # evs) = (if ev_RoundID ev = target then Some (ev, evs) else nextRoundEvent target evs)"

lemma nextRoundEvent_shorter: "nextRoundEvent target evs = Some (ev, rest) \<Longrightarrow> length rest < length evs"
  by (induction evs) (auto split: if_splits)

datatype drive_error = SubmitFailed submit_error | ContextDone

text \<open>
  \<open>submit k a\<close> is the error of the \<open>k\<close>-th submission.  A rejected action is recorded and the next one is tried at once;
  after an accepted one, or without any left, the loop waits for the runner's next event.
\<close>

function drive_loop ::
  "(nat \<Rightarrow> Action \<Rightarrow> submit_error option) \<Rightarrow> u64 \<Rightarrow> nat \<Rightarrow> Action list \<Rightarrow> u32 \<Rightarrow> AttemptEvent list \<Rightarrow> AttemptEvent list \<Rightarrow>
     drive_error + roundReport" where
  "drive_loop submit roundID submitted attempts currentAttempt evs stream =
     (case (if attempts = [] then None else submit submitted (hd attempts)) of
        Some (ErrIllegalAction err) \<Rightarrow>
          drive_loop submit roundID (Suc submitted) (tl attempts) currentAttempt
            (evs @ [attempt_event roundID currentAttempt ''rejected'' (Refused (IllegalAction err))]) stream
      | Some err \<Rightarrow> Inl (SubmitFailed err)
      | None \<Rightarrow>
          (case nextRoundEvent roundID stream of None \<Rightarrow> Inl ContextDone
           | Some (ev, rest) \<Rightarrow>
               if ev_Outcome ev = ''committed'' \<or> ev_Outcome ev = ''auto_fold''
               then Inr \<lparr>rep_Outcome = ev_Outcome ev, rep_Events = evs @ [ev]\<rparr>
               else drive_loop submit roundID (if attempts = [] then submitted else Suc submitted) (tl attempts)
                 (if ev_Outcome ev = ''timeout'' then ev_Attempt ev + 1 else ev_Attempt ev) (evs @ [ev]) rest))"
  by pat_completeness auto
termination
  by (relation "measure (\<lambda>(submit, rid, k, attempts, cur, evs, stream). length attempts + length stream)")
    (auto dest: nextRoundEvent_shorter split: if_splits simp: neq_Nil_conv)

declare drive_loop.simps [simp del]

definition driveScriptedRound ::
  "(nat \<Rightarrow> Action \<Rightarrow> submit_error option) \<Rightarrow> u64 \<Rightarrow> Action list \<Rightarrow> AttemptEvent list \<Rightarrow> drive_error + roundReport" where
  "driveScriptedRound submit roundID attempts stream = drive_loop submit roundID 0 attempts 0 [] stream"

section \<open>Checking the report\<close>

datatype report_error = EventCount nat nat | EventMismatch nat | ExpectedAutoFold string | ExpectedCommitted string

fun verify_events :: "nat \<Rightarrow> AttemptEvent list \<Rightarrow> expectedEvent list \<Rightarrow> report_error option" where
  "verify_events i (g # got) (w # want) =
     (if ev_Attempt g \<noteq> xe_Attempt w \<or> ev_Outcome g \<noteq> xe_Outcome w then Some (EventMismatch i)
      else verify_events (Suc i) got want)"
| "verify_events i got want = None"

definition verifyExpectedEvents :: "AttemptEvent list \<Rightarrow> expectedEvent list \<Rightarrow> report_error option" where
  "verifyExpectedEvents got want =
     (if length got \<noteq> length want then Some (EventCount (length got) (length want)) else verify_events 0 got want)"

text \<open>The checks of \<^verbatim>\<open>RunRounds\<close> on a report, those on its duration left out.\<close>

definition check_report :: "roundScript \<Rightarrow> roundReport \<Rightarrow> report_error option" where
  "check_report script report =
     (if sc_ExpectAutoFold script \<and> rep_Outcome report \<noteq> ''auto_fold'' then Some (ExpectedAutoFold (rep_Outcome report))
      else if \<not> sc_ExpectAutoFold script \<and> rep_Outcome report \<noteq> ''committed'' then Some (ExpectedCommitted (rep_Outcome report))
      else if 0 < length (sc_ExpectedEvents script) then verifyExpectedEvents (rep_Events report) (sc_ExpectedEvents script)
      else None)"

section \<open>A proposer that stalls\<close>

definition timeouts :: "u64 \<Rightarrow> u32 \<Rightarrow> nat \<Rightarrow> AttemptEvent list" where
  "timeouts rid att k = map (\<lambda>a. attempt_event rid (att + of_nat a) ''timeout'' NoLegalAction) [0..<k]"

lemma timeouts_Suc: "timeouts rid att (Suc k) = attempt_event rid att ''timeout'' NoLegalAction # timeouts rid (att + 1) k"
proof -
  have "[0..<Suc k] = 0 # map Suc [0..<k]" by (simp add: upt_conv_Cons map_Suc_upt del: upt_Suc)
  then show ?thesis by (simp add: timeouts_def o_def ac_simps del: upt_Suc)
qed

text \<open>Every attempt of a proposer that gets no action times out, and nothing but its events changes.\<close>

lemma stalled_attempts:
  assumes "currentRole r = Some RoleProposer" "length (events r) + left \<le> 16"
  shows "outs (round_attempts C K rid p (\<lambda>_. []) left att r) =
    outs (round_attempts C K rid p (\<lambda>_. []) 0 0 (r\<lparr>events := events r @ timeouts rid att left\<rparr>))"
  using assms
proof (induction left arbitrary: att r)
  case 0
  then show ?case by (simp add: timeouts_def)
next
  case (Suc left)
  let ?r = "emit (attempt_event rid att ''timeout'' NoLegalAction) r"
  have r: "?r = r\<lparr>events := events r @ [attempt_event rid att ''timeout'' NoLegalAction]\<rparr>" using Suc.prems(2) by (simp add: emit_def)
  have "currentRole ?r = Some RoleProposer" using Suc.prems(1) by (simp add: r currentRole_def)
  moreover have "length (events ?r) + left \<le> 16" using Suc.prems(2) by (simp add: r)
  ultimately have "outs (round_attempts C K rid p (\<lambda>_. []) left (att + 1) ?r) =
      outs (round_attempts C K rid p (\<lambda>_. []) 0 0 (?r\<lparr>events := events ?r @ timeouts rid (att + 1) left\<rparr>))"
    by (rule Suc.IH)
  also have "?r\<lparr>events := events ?r @ timeouts rid (att + 1) left\<rparr> = r\<lparr>events := events r @ timeouts rid att (Suc left)\<rparr>"
    by (simp add: r timeouts_Suc)
  finally show ?case using Suc.prems(1) by (simp add: runAttempt_def cleanupAttempt_def)
qed

lemma driveAutoFold_entry:
  assumes "Inr (Inr r') \<in> outs (driveAutoFold C rid t r)"
  shows "\<exists>expected cosigs. r' = r\<lparr>log := Append (auto_fold_entry rid t expected cosigs) (log r)\<rparr> \<and>
    VerifyAutoFoldEntry C (log r) (auto_fold_entry rid t expected cosigs) (attestor_keys r expected) = Some (Inr ())"
proof -
  obtain expected cosigs l where l: "AppendAutoFold C (auto_fold_entry rid t expected cosigs) (attestor_keys r expected) (log r) = (Some (Inr ()), l)"
    "r' = r\<lparr>log := l\<rparr>"
    using assms by (auto simp: driveAutoFold_def Let_def outs_bindp split: if_splits option.splits prod.splits sum.splits)
  then show ?thesis using AppendAutoFold_OK [OF l(1)] by blast
qed

text \<open>The driver collects the timeouts and stops at the auto-fold.\<close>

lemma drive_timeouts:
  "drive_loop submit rid k [] cur evs (timeouts rid att m @ [attempt_event rid 0 ''auto_fold'' NoReason]) =
     Inr \<lparr>rep_Outcome = ''auto_fold'', rep_Events = evs @ timeouts rid att m @ [attempt_event rid 0 ''auto_fold'' NoReason]\<rparr>"
proof (induction m arbitrary: cur evs att)
  case 0
  show ?case by (subst drive_loop.simps) (simp add: timeouts_def attempt_event_def)
next
  case (Suc m)
  show ?case
    by (subst drive_loop.simps) (simp add: timeouts_Suc Suc.IH, simp add: attempt_event_def)
qed

lemma verify_events_same:
  "list_all2 (\<lambda>g w. ev_Attempt g = xe_Attempt w \<and> ev_Outcome g = xe_Outcome w) got want \<Longrightarrow> verify_events i got want = None"
  by (induction got want arbitrary: i rule: list_all2_induct) auto

lemma expected_events_match:
  "verifyExpectedEvents (attempt_event rid 0 ''rejected'' why # timeouts rid 0 (unat m) @ [attempt_event rid 0 ''auto_fold'' NoReason])
     (expectedAutoFoldEvents m True) = None"
proof -
  let ?R = "\<lambda>g w. ev_Attempt g = xe_Attempt w \<and> ev_Outcome g = xe_Outcome w"
  have "list_all2 ?R (timeouts rid 0 (unat m)) (map (\<lambda>a. \<lparr>xe_Attempt = of_nat a, xe_Outcome = ''timeout''\<rparr>) [0..<unat m])"
    by (simp add: timeouts_def list_all2_conv_all_nth attempt_event_def)
  then have "list_all2 ?R (attempt_event rid 0 ''rejected'' why # timeouts rid 0 (unat m) @ [attempt_event rid 0 ''auto_fold'' NoReason])
      (expectedAutoFoldEvents m True)"
    unfolding expectedAutoFoldEvents_def by (simp add: list_all2_appendI attempt_event_def)
  then show ?thesis unfolding verifyExpectedEvents_def using verify_events_same list_all2_lengthD by fastforce
qed

text \<open>An auto-fold folds its target.\<close>

lemma auto_fold_folds:
  assumes "VerifyAutoFoldEntry C l (auto_fold_entry rid t expected cosigs) pks = Some (Inr ())" "accepted C n st l"
    "Log_state l = Some s" "\<not> HandOver s" "Log_state (Append (auto_fold_entry rid t expected cosigs) l) = Some s'"
  shows "Folded s' ! unat t"
proof -
  let ?e = "auto_fold_entry rid t expected cosigs"
  have l: "numPlayers l = n" "startingStack l = st" using accepted_log_ok [OF assms(2)] by (simp_all add: log_ok_def)
  have "t < n" using assms(1) l by (auto elim!: VerifyAutoFoldEntry_OK simp: auto_fold_entry_def)
  then have t: "unat t < length (Folded s)" using Log_state_folded [OF assms(2, 3)] by (simp add: word_less_nat_alt)
  obtain u where u: "replay_loop (entries l) (replay_init n st) = Some (s, u)"
    using assms(3) l by (auto simp: Log_state_def Replay_def)
  have "apply_entry ?e (s, u) = Some (s\<lparr>Folded := (Folded s)[unat t := True]\<rparr>, u - 1)"
    using t by (simp add: apply_entry_def auto_fold_entry_def Let_def)
  then have "s' = fst (settle (s\<lparr>Folded := (Folded s)[unat t := True]\<rparr>, u - 1))"
    using assms(4, 5) u l by (simp add: Log_state_def Replay_def Append_def replay_loop_append)
  then show ?thesis using t by (simp add: settle_keeps)
qed

section \<open>Properties\<close>

definition submit_result :: "Runner \<Rightarrow> Action \<Rightarrow> submit_error option" where
  "submit_result r a = (case SubmitAction a r of Some (Inl e) \<Rightarrow> Some e | _ \<Rightarrow> None)"

text \<open>
  C30. A proposer that stalls is folded, and the simulation's check of it is right.  When the proposer's only action is
  illegal, a round that ends emits one timeout per attempt, numbered from zero, and then one auto-fold; the driver
  of the simulation reports exactly the sequence that \<^verbatim>\<open>expectedAutoFoldEvents\<close> lists, and in the new log the
  proposer is folded.
\<close>

theorem stalled_round_reported:
  assumes "seated C n st r" "Log_state (log r) = Some s" "\<not> HandOver s" "events r = []" "unat (MaxAttempts (cfg r)) < 16"
    "SubmitAction a r = Some (Inl (ErrIllegalAction why))" "Inr r' \<in> outs (runRound C K (\<lambda>_. []) r)"
  shows "\<exists>rep s'. driveScriptedRound (\<lambda>_. submit_result r) (Log_RoundID (log r)) [a] (events r') = Inr rep \<and>
    check_report \<lparr>sc_Attempts = [a], sc_ExpectAutoFold = True,
      sc_ExpectedEvents = expectedAutoFoldEvents (MaxAttempts (cfg r)) True\<rparr> rep = None \<and>
    Log_state (log r') = Some s' \<and> Folded s' ! unat (mySeat r)"
proof -
  let ?rid = "Log_RoundID (log r)" and ?m = "unat (MaxAttempts (cfg r))"
  let ?r = "r\<lparr>events := timeouts ?rid 0 ?m\<rparr>"
  have acc: "accepted C n st (log r)" using assms(1) by (simp add: seated_def)
  obtain q where q: "ExpectedNextPlayer (log r) = Some q" "uint q = SeatIdx (node r)"
    using assms(6) by (auto simp: SubmitAction_def currentRole_def split: if_splits option.splits)
  have me: "mySeat r = q" using q(2) by (metis mySeat_def word_of_int_uint)
  have role: "currentRole r = Some RoleProposer" using q by (simp add: currentRole_def)
  have "Inr r' \<in> outs (round_attempts C K ?rid q (\<lambda>_. []) 0 0 ?r)"
    using assms(4, 5, 7) q(1) stalled_attempts [OF role, of ?m C K ?rid q 0] by (simp add: runRound_def)
  then obtain x where x: "Inr x \<in> outs (driveAutoFold C ?rid q ?r)"
    "Inr r' \<in> outs (case x of Inl why \<Rightarrow> Fail (AutoFoldError why) | Inr r \<Rightarrow> Return (emit (attempt_event ?rid 0 ''auto_fold'' NoReason) r))"
    unfolding round_attempts.simps by (auto elim!: outs_bindpE)
  then obtain r1 where r1: "Inr (Inr r1) \<in> outs (driveAutoFold C ?rid q ?r)" "r' = emit (attempt_event ?rid 0 ''auto_fold'' NoReason) r1"
    by (cases x) auto
  obtain expected cosigs where e: "r1 = ?r\<lparr>log := Append (auto_fold_entry ?rid q expected cosigs) (log r)\<rparr>"
    "VerifyAutoFoldEntry C (log r) (auto_fold_entry ?rid q expected cosigs) (attestor_keys ?r expected) = Some (Inr ())"
    using driveAutoFold_entry [OF r1(1)] by auto
  let ?l = "Append (auto_fold_entry ?rid q expected cosigs) (log r)"
  have "length (timeouts ?rid 0 ?m) < 16" using assms(5) by (simp add: timeouts_def)
  then have r': "events r' = timeouts ?rid 0 ?m @ [attempt_event ?rid 0 ''auto_fold'' NoReason]" "log r' = ?l"
    using r1(2) e(1) by (simp_all add: emit_def)
  let ?ev = "attempt_event ?rid 0 ''rejected'' (Refused (IllegalAction why)) # events r'"
  have "submit_result r a = Some (ErrIllegalAction why)" using assms(6) by (simp add: submit_result_def)
  then have "driveScriptedRound (\<lambda>_. submit_result r) ?rid [a] (events r') = Inr \<lparr>rep_Outcome = ''auto_fold'', rep_Events = ?ev\<rparr>"
    unfolding driveScriptedRound_def by (subst drive_loop.simps) (simp add: r' drive_timeouts)
  moreover have "verifyExpectedEvents ?ev (expectedAutoFoldEvents (MaxAttempts (cfg r)) True) = None"
    unfolding r' by (rule expected_events_match)
  moreover obtain s' where "Log_state ?l = Some s'"
  proof -
    have "seated C n st ?r" using assms(1) by (simp add: seated_def)
    from driveAutoFold_result [OF this r1(1)] have "accepted C n st (log r1)" by auto
    then have "accepted C n st ?l" using e(1) by simp
    from log_ok_state [OF accepted_log_ok [OF this]] show ?thesis using that by blast
  qed
  moreover from this have "Folded s' ! unat q" using auto_fold_folds [OF e(2) acc assms(2, 3)] by blast
  ultimately show ?thesis
    by (intro exI [of _ "\<lparr>rep_Outcome = ''auto_fold'', rep_Events = ?ev\<rparr>"] exI [of _ s']) (simp add: check_report_def r'(2) me)
qed

theorem stalled_round_reported_witness:
  "\<exists>r' rep s'. Inr r' \<in> outs (runRound demo_crypto demo_round_codec (\<lambda>_. []) (demo_runner [''a'', ''b'', ''c''] demo_log 2)) \<and>
    driveScriptedRound (\<lambda>_. submit_result (demo_runner [''a'', ''b'', ''c''] demo_log 2)) 2 [act ActionRaise 1000000] (events r') = Inr rep \<and>
    check_report (scripts 3 ! 5) rep = None \<and> Log_state (log r') = Some s' \<and> Folded s' ! 2"
proof -
  let ?r = "demo_runner [''a'', ''b'', ''c''] demo_log 2" and ?a = "act ActionRaise 1000000"
  let ?q = "?r\<lparr>events := events ?r @ timeouts 2 0 3\<rparr>"
  have r: "log ?r = demo_log" "events ?r = []" "MaxAttempts (cfg ?r) = 3" "SeatIdx (node ?r) = 2" "mySeat ?r = 2" "actionCh ?r = None"
    "Order (node ?r) = [''a'', ''b'', ''c'']" "peerPKs ?r ''a'' = pad32 [7]"
    by (simp_all add: demo_runner_def Runner_New_def Let_def seat_node_def mySeat_def demo_sk_def upt_rec)
  have rid: "Log_RoundID demo_log = 2" by (simp add: Log_RoundID_def demo_log_def NewLog_def Let_def Append_def)
  have seated: "seated demo_crypto 3 100 ?r" using demo_log_accepted by (simp add: seated_def r)
  have role: "currentRole ?r = Some RoleProposer" by (simp add: currentRole_def r demo_log_next)
  have "ValidateAction demo_state 2 ?a = Inl (RaiseTooExpensive 1000000 100)" by code_simp
  then have illegal: "SubmitAction ?a ?r = Some (Inl (ErrIllegalAction (RaiseTooExpensive 1000000 100)))"
    using role by (simp add: SubmitAction_def r demo_log_state)
  have "pad32 [7] \<noteq> []" by (simp add: pad32_def)
  then have keys: "attestor_keys ?q [0] = [0 \<mapsto> pad32 [7]]" using r by (auto simp: attestor_keys_def fun_eq_iff)
  have entry: "auto_fold_entry 2 2 [0] [BuildAutoFoldAttestation demo_crypto demo_log 2 2 [7]] = demo_auto_fold"
    by (simp add: auto_fold_entry_def demo_auto_fold_def)
  have "fst (AppendAutoFold demo_crypto demo_auto_fold [0 \<mapsto> pad32 [7]] demo_log) = Some (Inr ())" by code_simp
  then obtain l where l: "AppendAutoFold demo_crypto demo_auto_fold [0 \<mapsto> pad32 [7]] demo_log = (Some (Inr ()), l)" by (metis prod.collapse)
  have ex: "ExpectedAutoFoldAttestors demo_log 2 = Some [0]" by code_simp
  have "Inr (None, [BuildAutoFoldAttestation demo_crypto demo_log 2 2 [7]]) \<in> outs (collect_cosigs ?q 2 [] [0] [] None)"
    using r by (auto simp: at_def mySeat_def intro!: exI [of _ "Some (BuildAutoFoldAttestation demo_crypto demo_log 2 2 [7])"])
  then have "Inr (Inr (?q\<lparr>log := l\<rparr>)) \<in> outs (driveAutoFold demo_crypto 2 2 ?q)"
    using r ex l entry keys by (force simp: driveAutoFold_def Let_def outs_bindp mySeat_def)
  then have "Inr (emit (attempt_event 2 0 ''auto_fold'' NoReason) (?q\<lparr>log := l\<rparr>)) \<in> outs (round_attempts demo_crypto demo_round_codec 2 2 (\<lambda>_. []) 0 0 ?q)"
    by (force simp: outs_bindp)
  then have out: "Inr (emit (attempt_event 2 0 ''auto_fold'' NoReason) (?q\<lparr>log := l\<rparr>)) \<in> outs (runRound demo_crypto demo_round_codec (\<lambda>_. []) ?r)"
    using stalled_attempts [OF role, of 3 demo_crypto demo_round_codec 2 2 0] by (simp add: runRound_def r rid demo_log_next)
  have st: "Log_state (log ?r) = Some demo_state" "\<not> HandOver demo_state" by (simp_all add: r demo_log_state demo_state_def)
  have m: "unat (MaxAttempts (cfg ?r)) < 16" by (simp add: r)
  have script: "scripts 3 ! 5 = \<lparr>sc_Attempts = [?a], sc_ExpectAutoFold = True, sc_ExpectedEvents = expectedAutoFoldEvents 3 True\<rparr>"
    by (simp add: scripts_def Let_def)
  show ?thesis
    using stalled_round_reported [OF seated st r(2) m illegal out] out unfolding r rid script by auto
qed

end
