(* ===== verification/Table_Run.thy ===== *)
theory Table_Run
  imports Showdown
begin

text \<open>
  The card phases of a hand one after the other, as \<^verbatim>\<open>Runner.Run\<close> calls them: shuffle, deal, flop, turn, river and showdown,
  each started on the nodes and the stores that the phase before left.  The lemmas carry what the stores hold from
  one phase to the next; the betting between the phases uses other keys and is not part of this run.
\<close>

section \<open>From a new deck to the winners\<close>

definition finishes :: "('e, 'r) net \<Rightarrow> ('e, 'r) net \<Rightarrow> bool" where
  "finishes s t \<longleftrightarrow> (\<exists>n. (net_step ^^ n) s t) \<and> net_done t"

definition returns :: "string list \<Rightarrow> ('e, 'r) net \<Rightarrow> (nat \<Rightarrow> 'r) \<Rightarrow> bool" where
  "returns ids s r \<longleftrightarrow> map snd (snd s) = map (\<lambda>i. Return (r i)) [0..<length ids]"

definition deal_net :: "string list \<Rightarrow> (nat \<Rightarrow> Node) \<Rightarrow> world \<Rightarrow> (deal_error, (int \<times> string) option) net" where
  "deal_net ids nds w = (w, concat (map (\<lambda>i. map (Pair (ids ! i)) (DealHoleCards (nds i))) [0..<length ids]))"

definition with_deal :: "string list \<Rightarrow> (deal_error, (int \<times> string) option) net \<Rightarrow> (nat \<Rightarrow> Node) \<Rightarrow> nat \<Rightarrow> Node" where
  "with_deal ids s nds i = deal_outcome (map snd (filter (\<lambda>x. fst x = ids ! i) (snd s))) (nds i)"

text \<open>
  A street is revealed by every node, starting in \<open>w\<close> with the nodes \<open>nds\<close> and ending in \<open>w'\<close> with the nodes \<open>nds'\<close>.
\<close>

definition street :: "string list \<Rightarrow> (Node \<Rightarrow> (deal_error, Node) prog) \<Rightarrow> (nat \<Rightarrow> Node) \<times> world \<Rightarrow> (nat \<Rightarrow> Node) \<times> world \<Rightarrow> bool" where
  "street ids reveal a b \<longleftrightarrow>
     (\<exists>s. finishes (board_net ids (\<lambda>i. reveal (fst a i)) (snd a)) s \<and> returns ids s (fst b) \<and> snd b = fst s)"

definition cards_run :: "deck_codec \<Rightarrow> claim_codec \<Rightarrow> nat \<Rightarrow> string list \<Rightarrow> Key list \<Rightarrow> (nat \<Rightarrow> nat option) list \<Rightarrow> bool list \<Rightarrow> world \<Rightarrow>
    (nat \<Rightarrow> Node) \<Rightarrow> (showdown_error, ShowdownResult) net \<Rightarrow> bool" where
  "cards_run G K p ids ks rnds folded w nds t \<longleftrightarrow>
     (\<exists>s1 nds1 s2 a b c. finishes (shuffle_net G p ids ks rnds w) s1 \<and> returns ids s1 nds1 \<and>
        finishes (deal_net ids nds1 (fst s1)) s2 \<and>
        street ids RevealFlop (with_deal ids s2 nds1, fst s2) a \<and> street ids RevealTurn a b \<and> street ids RevealRiver b c \<and>
        fst c = nds \<and> finishes (show_net K ids nds folded (snd c)) t)"

subsection \<open>What the stores hold between the phases\<close>

definition shuffle_only :: "world \<Rightarrow> bool" where
  "shuffle_only w \<longleftrightarrow> (\<forall>t k. w t k \<noteq> None \<longrightarrow> (\<exists>i. k = ShuffleStepKey i))"

definition seen :: "nat \<Rightarrow> world \<Rightarrow> bool" where
  "seen c w \<longleftrightarrow> (\<forall>t k. w t k \<noteq> None \<longrightarrow> (\<exists>i. k = ShuffleStepKey i) \<or> (\<exists>a b. k = HoleRelayKey a b) \<or>
     (\<exists>d < c. k = CommunityCardKey (int d) \<or> (\<exists>x. k = CommunityRelayKey (int d) x)))"

lemma shuffle_only_None: "shuffle_only w \<Longrightarrow> w t (HoleRelayKey a b) = None"
  unfolding shuffle_only_def by (metis key_distinct)

lemma seen_None:
  assumes "seen c w"
  shows "c \<le> d \<Longrightarrow> w t (CommunityCardKey (int d)) = None" "c \<le> d \<Longrightarrow> w t (CommunityRelayKey (int d) x) = None"
    "w t (ShowdownClaimKey i) = None"
  using assms unfolding seen_def by (metis key_distinct key_inject not_le of_nat_eq_iff)+

lemma finish_ex:
  assumes "\<And>n t. (net_step ^^ n) s t \<Longrightarrow> \<exists>m u. (net_step ^^ m) t u \<and> net_done u"
  shows "\<exists>t. finishes s t"
proof -
  have "(net_step ^^ 0) s s" by simp
  from assms [OF this] show ?thesis unfolding finishes_def by blast
qed

lemma returns_unique: "returns ids s r \<Longrightarrow> returns ids s q \<Longrightarrow> i < length ids \<Longrightarrow> r i = q i"
  by (auto simp: returns_def)

lemma shuffle_phase:
  assumes "good_table G p ids ks rnds"
  shows "\<exists>s. finishes (shuffle_net G p ids ks rnds (\<lambda>_. New)) s"
    "\<exists>ms. dealt_table p ids ks ms \<and> (\<forall>s. finishes (shuffle_net G p ids ks rnds (\<lambda>_. New)) s \<longrightarrow>
       returns ids s (dealt_node ids ks p ms) \<and> shuffle_only (fst s))"
proof -
  let ?w = "(\<lambda>_. New) :: world"
  have "\<forall>i < length ids. ?w (ids ! i) (ShuffleStepKey (int i)) = None" by (simp add: New_def)
  note net = shuffle_network [OF assms this]
  show "\<exists>s. finishes (shuffle_net G p ids ks rnds ?w) s" by (rule finish_ex) (rule net_run_finishes [OF net(1)])
  obtain ms where ms: "mset ms = mset card_nums" "ring_deck rnds ks p (length ids) = map (\<lambda>m. big_bytes (fold (enc p) (take (length ids) ks) m)) ms"
    using ring_deck_form [OF assms, of "length ids"] by auto
  have all: "take (length ids) ks = ks" using assms by (simp add: good_table_def)
  have "dealt_table p ids ks ms" using assms ms(1) by (simp add: dealt_table_def good_table_def)
  moreover have "returns ids s (dealt_node ids ks p ms) \<and> shuffle_only (fst s)" if fin: "finishes (shuffle_net G p ids ks rnds ?w) s" for s
  proof
    obtain n where n: "(net_step ^^ n) (shuffle_net G p ids ks rnds ?w) s" "net_done s" using fin unfolding finishes_def by blast
    show "returns ids s (dealt_node ids ks p ms)"
      using net_completes(3) [OF net n] by (simp add: returns_def dealt_node_def ms(2) all)
    show "shuffle_only (fst s)" unfolding shuffle_only_def
    proof (intro allI impI)
      fix t k assume "fst s t k \<noteq> None"
      then obtain v where "fst s t k = Some v" by blast
      from net_completes(5) [OF net n(1) this] have "map_of (shuffle_files G p ids ks rnds) (t, k) \<noteq> None"
        by (auto simp: with_files_def New_def split: option.splits)
      then have "(t, k) \<in> fst ` set (shuffle_files G p ids ks rnds)" by (metis map_of_eq_None_iff)
      then show "\<exists>i. k = ShuffleStepKey i"
        by (auto simp: shuffle_files_def)
    qed
  qed
  ultimately show "\<exists>ms. dealt_table p ids ks ms \<and> (\<forall>s. finishes (shuffle_net G p ids ks rnds ?w) s \<longrightarrow>
       returns ids s (dealt_node ids ks p ms) \<and> shuffle_only (fst s))" by blast
qed

lemma hole_phase:
  assumes t: "dealt_table p ids ks ms" and n: "length ids * 2 \<le> 52" and w: "shuffle_only w"
  shows "\<exists>s. finishes (hole_net p ids ks ms w) s"
    "finishes (hole_net p ids ks ms w) s \<Longrightarrow> i < length ids \<Longrightarrow> with_deal ids s nds i = with_hole ms i (nds i)"
    "finishes (hole_net p ids ks ms w) s \<Longrightarrow> seen (length ids * 2) (fst s)"
    "finishes (hole_net p ids ks ms w) s \<Longrightarrow> relays_in p ids ks ms (fst s)"
proof -
  let ?ps = "List.product [0..<length ids] [0..<length ids * 2]"
  have fresh: "\<forall>x < length ids. \<forall>s < length ids * 2. w (ids ! x) (HoleRelayKey (int s) (int x)) = None"
    using shuffle_only_None [OF w] by blast
  note net = hole_network [OF t n fresh]
  show "\<exists>s. finishes (hole_net p ids ks ms w) s" by (rule finish_ex) (rule net_run_finishes [OF net(1)])
  assume "finishes (hole_net p ids ks ms w) s"
  then obtain m where m: "(net_step ^^ m) (hole_net p ids ks ms w) s" "net_done s" unfolding finishes_def by blast
  show "with_deal ids s nds i = with_hole ms i (nds i)" if "i < length ids"
    unfolding with_deal_def by (rule hole_end [OF t n fresh m that])
  show "seen (length ids * 2) (fst s)" unfolding seen_def
  proof (intro allI impI)
    fix t' k assume "fst s t' k \<noteq> None"
    then obtain v where "fst s t' k = Some v" by blast
    from net_completes(5) [OF net m(1) this] have "(t', k) \<in> fst ` set (hole_files p ids ks ms) \<or> w t' k \<noteq> None"
      by (auto simp: with_files_def map_of_eq_None_iff [symmetric] split: option.splits)
    then show "(\<exists>i. k = ShuffleStepKey i) \<or> (\<exists>a b. k = HoleRelayKey a b) \<or>
       (\<exists>d < length ids * 2. k = CommunityCardKey (int d) \<or> (\<exists>x. k = CommunityRelayKey (int d) x))"
    proof
      assume "w t' k \<noteq> None"
      then show ?thesis using w unfolding shuffle_only_def by blast
    qed (auto simp: hole_files_def)
  qed
  show "relays_in p ids ks ms (fst s)" unfolding relays_in_def
  proof (intro allI impI)
    fix sl x assume sx: "sl < length ids * 2" "x < length ids" "x \<noteq> sl div 2"
    then have "(x, sl) \<in> set ?ps" by simp
    then obtain j where j: "j < length ?ps" "?ps ! j = (x, sl)" by (metis in_set_conv_nth)
    have who: "fst (snd (hole_net p ids ks ms w) ! j) = ids ! x" using j by (simp add: hole_slots)
    have "Hosted (HoleRelayKey (int sl) (int x)) \<in> set (hole_events ids x sl)" using sx by (simp add: hole_events_def Let_def)
    with net_completes(4) [OF net m, of j "HoleRelayKey (int sl) (int x)"] j who
    have "fst s (ids ! x) (HoleRelayKey (int sl) (int x)) = with_files (hole_files p ids ks ms) w (ids ! x) (HoleRelayKey (int sl) (int x))"
      by simp
    then show "fst s (ids ! x) (HoleRelayKey (int sl) (int x)) = Some (hole_relay p ks ms sl x)"
      using hole_files_relays [of p ids ks ms w] sx unfolding relays_in_def by simp
  qed
qed

lemma board_phase:
  assumes t: "dealt_table p ids ks ms" and nds: "\<forall>i < length ids. board_node p ids ks ms cs i (nds i)"
    and st: "(reveal, length cs, k) \<in> {(RevealFlop, 0, 3), (RevealTurn, 3, 1), (RevealRiver, 4, 1)}"
    and n: "length ids * 2 + 5 \<le> 52" and w: "seen (length ids * 2 + length cs) w"
  shows "\<exists>b. street ids reveal (nds, w) b"
    "street ids reveal (nds, w) b \<Longrightarrow> i < length ids \<Longrightarrow> fst b i = board_done ids ms (length ids * 2 + length cs) k (nds i)"
    "street ids reveal (nds, w) b \<Longrightarrow> seen (length ids * 2 + length cs + k) (snd b)"
    "street ids reveal (nds, w) b \<Longrightarrow> relays_in p ids ks ms w \<Longrightarrow> relays_in p ids ks ms (snd b)"
proof -
  let ?c = "length ids * 2 + length cs"
  have fresh: "board_fresh ids ?c k w" unfolding board_fresh_def using seen_None(1, 2) [OF w] by blast
  note B = board_street [OF t nds st n fresh]
  obtain s where s: "finishes (board_net ids (\<lambda>i. reveal (nds i)) w) s"
    using finish_ex [of "board_net ids (\<lambda>i. reveal (nds i)) w"] B(2) by blast
  have ret: "returns ids s (\<lambda>i. board_done ids ms ?c k (nds i))" if "finishes (board_net ids (\<lambda>i. reveal (nds i)) w) s" for s
    using that B(3) unfolding finishes_def returns_def by blast
  show "\<exists>b. street ids reveal (nds, w) b"
    using s ret [OF s] unfolding street_def
    by (intro exI [of _ "(\<lambda>i. board_done ids ms ?c k (nds i), fst s)"] exI [of _ s]) simp
  assume "street ids reveal (nds, w) b"
  then obtain u m where u: "(net_step ^^ m) (board_net ids (\<lambda>i. reveal (nds i)) w) u" "net_done u" "returns ids u (fst b)" "snd b = fst u"
    unfolding street_def finishes_def by auto
  show "fst b i = board_done ids ms ?c k (nds i)" if "i < length ids"
    using returns_unique [OF u(3) ret that] u(1, 2) unfolding finishes_def by blast
  have files: "(t', ky) \<in> fst ` set (board_files p ids ks ms ?c k) \<Longrightarrow>
      \<exists>d < ?c + k. ky = CommunityCardKey (int d) \<or> (\<exists>x. ky = CommunityRelayKey (int d) x)" for t' ky
  proof -
    assume "(t', ky) \<in> fst ` set (board_files p ids ks ms ?c k)"
    then obtain j where j: "j < k * Suc (length ids)" "(t', ky) = fst (board_file p ids ks ms (?c + j div Suc (length ids)) (j mod Suc (length ids)))"
      by (auto simp: board_files_def)
    then have "?c + j div Suc (length ids) < ?c + k" by (simp add: less_mult_imp_div_less)
    then show ?thesis using j(2) by (intro exI [of _ "?c + j div Suc (length ids)"]) (auto simp: board_file_def split: if_splits)
  qed
  show "seen (?c + k) (snd b)" unfolding seen_def
  proof (intro allI impI)
    fix t' ky assume "snd b t' ky \<noteq> None"
    then obtain v where "fst u t' ky = Some v" using u(4) by auto
    from B(4) [OF u(1) this] have "(t', ky) \<in> fst ` set (board_files p ids ks ms ?c k) \<or> w t' ky \<noteq> None"
      by (auto simp: with_files_def map_of_eq_None_iff [symmetric] split: option.splits)
    then show "(\<exists>i. ky = ShuffleStepKey i) \<or> (\<exists>a b. ky = HoleRelayKey a b) \<or>
       (\<exists>d < ?c + k. ky = CommunityCardKey (int d) \<or> (\<exists>x. ky = CommunityRelayKey (int d) x))"
      using files w unfolding seen_def by (meson trans_less_add1)
  qed
  show "relays_in p ids ks ms (snd b)" if rel: "relays_in p ids ks ms w"
    unfolding relays_in_def
  proof (intro allI impI)
    fix sl x assume sx: "sl < length ids * 2" "x < length ids" "x \<noteq> sl div 2"
    let ?k = "HoleRelayKey (int sl) (int x)"
    have old: "w (ids ! x) ?k = Some (hole_relay p ks ms sl x)" using rel sx unfolding relays_in_def by blast
    have "map_of (board_files p ids ks ms ?c k) (ids ! x, ?k) = None"
      using files [of "ids ! x" ?k] by (auto simp: map_of_eq_None_iff)
    then show "snd b (ids ! x) ?k = Some (hole_relay p ks ms sl x)"
      using B(5) [OF u(1), of "ids ! x" ?k] old u(4) by (simp add: with_files_def)
  qed
qed

lemma with_deal_node:
  assumes "returns ids s1 nds1" "returns ids s1 (dealt_node ids ks p ms)"
  shows "deal_net ids nds1 w = hole_net p ids ks ms w"
proof -
  have "map (\<lambda>i. map (Pair (ids ! i)) (DealHoleCards (nds1 i))) [0..<length ids] =
      map (\<lambda>i. map (Pair (ids ! i)) (DealHoleCards (dealt_node ids ks p ms i))) [0..<length ids]"
    using returns_unique [OF assms] by simp
  then show ?thesis by (simp only: deal_net_def hole_net_def)
qed

text \<open>The three streets after the deal, and what the nodes hold then.\<close>

definition table_at :: "nat \<Rightarrow> string list \<Rightarrow> Key list \<Rightarrow> nat list \<Rightarrow> nat \<Rightarrow> (nat \<Rightarrow> Node) \<times> world \<Rightarrow> bool" where
  "table_at p ids ks ms j a \<longleftrightarrow> seen (length ids * 2 + j) (snd a) \<and> relays_in p ids ks ms (snd a) \<and>
     (\<forall>i < length ids. board_node p ids ks ms (map (\<lambda>c. card_text (ms ! c)) [length ids * 2..<length ids * 2 + j]) i (fst a i) \<and>
        nid (fst a i) = ids ! i \<and> HoleCards (fst a i) = (card_text (ms ! (2 * i)), card_text (ms ! (2 * i + 1))))"

lemma street_table:
  assumes t: "dealt_table p ids ks ms" and n: "length ids * 2 + 5 \<le> 52" and a: "table_at p ids ks ms j a"
    and st: "(reveal, j, k) \<in> {(RevealFlop, 0, 3), (RevealTurn, 3, 1), (RevealRiver, 4, 1)}"
  shows "\<exists>b. street ids reveal a b" "street ids reveal a b \<Longrightarrow> table_at p ids ks ms (j + k) b"
proof -
  let ?n = "length ids * 2"
  let ?cs = "map (\<lambda>c. card_text (ms ! c)) [?n..<?n + j]"
  have len: "length ?cs = j" by simp
  have nds: "\<forall>i < length ids. board_node p ids ks ms ?cs i (fst a i)" using a by (simp add: table_at_def)
  have w: "seen (?n + length ?cs) (snd a)" using a by (simp add: table_at_def)
  have st': "(reveal, length ?cs, k) \<in> {(RevealFlop, 0, 3), (RevealTurn, 3, 1), (RevealRiver, 4, 1)}" using st len by simp
  note S = board_phase [OF t nds st' n w, unfolded prod.collapse len]
  show "\<exists>b. street ids reveal a b" by (rule S(1))
  assume b: "street ids reveal a b"
  have "[?n..<?n + (j + k)] = [?n..<?n + j] @ [?n + j..<?n + j + k]" by (metis add.assoc le_add1 upt_add_eq_append)
  then show "table_at p ids ks ms (j + k) b"
    using a S(3, 4) [OF b] S(2) [OF b] unfolding table_at_def
    by (auto simp: board_node_def board_done_def HoleCards_def add.assoc)
qed

lemma dealt_table_at:
  assumes "seen (length ids * 2) w" "relays_in p ids ks ms w" "\<forall>i < length ids. nds i = with_hole ms i (dealt_node ids ks p ms i)"
  shows "table_at p ids ks ms 0 (nds, w)"
  using assms by (simp add: table_at_def board_node_def with_hole_def dealt_node_def seat_node_def HoleCards_def)

lemma table_shows:
  assumes "table_at p ids ks ms 5 a"
  shows "\<forall>i < length ids. show_node p ids ks ms i (fst a i)" "relays_in p ids ks ms (snd a)"
    "\<forall>j < length ids. snd a (ids ! j) (ShowdownClaimKey (int j)) = None"
  using assms seen_None(3) unfolding table_at_def show_node_def board_of_def by blast+

text \<open>The deal, started on what the shuffle left.\<close>

lemma deal_phase:
  assumes t: "dealt_table p ids ks ms" and n: "length ids * 2 \<le> 52" and w: "shuffle_only (fst s1)"
    and r: "returns ids s1 (dealt_node ids ks p ms)" "returns ids s1 nds1"
  shows "\<exists>s2. finishes (deal_net ids nds1 (fst s1)) s2"
    "finishes (deal_net ids nds1 (fst s1)) s2 \<Longrightarrow> table_at p ids ks ms 0 (with_deal ids s2 nds1, fst s2)"
proof -
  have eq: "deal_net ids nds1 (fst s1) = hole_net p ids ks ms (fst s1)" by (rule with_deal_node [OF r(2, 1)])
  show "\<exists>s2. finishes (deal_net ids nds1 (fst s1)) s2" unfolding eq by (rule hole_phase(1) [OF t n w])
  assume s2: "finishes (deal_net ids nds1 (fst s1)) s2"
  note H = hole_phase(2-4) [OF t n w s2 [unfolded eq]]
  show "table_at p ids ks ms 0 (with_deal ids s2 nds1, fst s2)"
    by (rule dealt_table_at [OF H(2, 3)]) (use H(1) returns_unique [OF r(2, 1)] in simp)
qed

text \<open>The three streets.\<close>

lemma streets_phase:
  assumes t: "dealt_table p ids ks ms" and n: "length ids * 2 + 5 \<le> 52" and z: "table_at p ids ks ms 0 z"
  shows "\<exists>a b c. street ids RevealFlop z a \<and> street ids RevealTurn a b \<and> street ids RevealRiver b c"
    "street ids RevealFlop z a \<Longrightarrow> street ids RevealTurn a b \<Longrightarrow> street ids RevealRiver b c \<Longrightarrow> table_at p ids ks ms 5 c"
proof -
  note street = street_table [OF t n]
  have a3: "table_at p ids ks ms 3 a" if "street ids RevealFlop z a" for a using street(2) [OF z, of RevealFlop 3 a] that by simp
  have b4: "table_at p ids ks ms 4 b" if "street ids RevealFlop z a" "street ids RevealTurn a b" for a b
    using street(2) [OF a3 [OF that(1)], of RevealTurn 1 b] that(2) by simp
  obtain x where x: "street ids RevealFlop z x" using street(1) [OF z, of RevealFlop 3] by auto
  obtain y where y: "street ids RevealTurn x y" using street(1) [OF a3 [OF x], of RevealTurn 1] by auto
  obtain v where v: "street ids RevealRiver y v" using street(1) [OF b4 [OF x y], of RevealRiver 1] by auto
  show "\<exists>a b c. street ids RevealFlop z a \<and> street ids RevealTurn a b \<and> street ids RevealRiver b c" using x y v by blast
  show "table_at p ids ks ms 5 c" if "street ids RevealFlop z a" "street ids RevealTurn a b" "street ids RevealRiver b c"
    using street(2) [OF b4 [OF that(1, 2)], of RevealRiver 1 c] that(3) by simp
qed

lemma showdown_phase:
  assumes t: "dealt_table p ids ks ms" and n: "length ids * 2 + 5 \<le> 52" and K: "claim_codec_ok K" and f: "length folded = length ids"
    and c: "table_at p ids ks ms 5 c"
  shows "\<exists>u. finishes (show_net K ids (fst c) folded (snd c)) u"
    "finishes (show_net K ids (fst c) folded (snd c)) u \<Longrightarrow>
       map snd (snd u) = replicate (length ids) (Return (tally (seat_claims ms (length ids) folded [0..<length ids])))"
proof -
  note E = show_end [OF t n K table_shows(1) [OF c] f table_shows(2, 3) [OF c]]
  show "\<exists>u. finishes (show_net K ids (fst c) folded (snd c)) u" by (rule finish_ex) (erule E(2))
  show "finishes (show_net K ids (fst c) folded (snd c)) u \<Longrightarrow>
     map snd (snd u) = replicate (length ids) (Return (tally (seat_claims ms (length ids) folded [0..<length ids])))"
    using E(3) unfolding finishes_def by blast
qed

text \<open>All phases together.\<close>

lemma cards_phases:
  assumes "good_table G p ids ks rnds" and n: "length ids * 2 + 5 \<le> 52" and K: "claim_codec_ok K" and f: "length folded = length ids"
  shows "\<exists>nds t. cards_run G K p ids ks rnds folded (\<lambda>_. New) nds t"
    "\<exists>ms. dealt_table p ids ks ms \<and> (\<forall>nds t. cards_run G K p ids ks rnds folded (\<lambda>_. New) nds t \<longrightarrow>
       (\<exists>w. table_at p ids ks ms 5 (nds, w)) \<and>
       map snd (snd t) = replicate (length ids) (Return (tally (seat_claims ms (length ids) folded [0..<length ids]))))"
proof -
  let ?sh = "shuffle_net G p ids ks rnds (\<lambda>_. New)"
  have n2: "length ids * 2 \<le> 52" using n by simp
  obtain ms where t: "dealt_table p ids ks ms"
    and sh: "\<And>s. finishes ?sh s \<Longrightarrow> returns ids s (dealt_node ids ks p ms) \<and> shuffle_only (fst s)"
    using shuffle_phase(2) [OF assms(1)] by blast
  note deal = deal_phase [OF t n2 sh [THEN conjunct2] sh [THEN conjunct1]] and last = showdown_phase [OF t n K f]
  obtain s1 where s1: "finishes ?sh s1" using shuffle_phase(1) [OF assms(1)] by blast
  note r = sh [OF s1, THEN conjunct1]
  obtain s2 where s2: "finishes (deal_net ids (dealt_node ids ks p ms) (fst s1)) s2" using deal(1) [OF s1 s1 r] by blast
  note z = deal(2) [OF s1 s1 r s2]
  obtain a b c where abc: "street ids RevealFlop (with_deal ids s2 (dealt_node ids ks p ms), fst s2) a" "street ids RevealTurn a b"
    "street ids RevealRiver b c" using streets_phase(1) [OF t n z] by blast
  obtain u where "finishes (show_net K ids (fst c) folded (snd c)) u" using last(1) [OF streets_phase(2) [OF t n z abc]] by blast
  then show "\<exists>nds t. cards_run G K p ids ks rnds folded (\<lambda>_. New) nds t" unfolding cards_run_def using s1 r s2 abc by blast
  have "(\<exists>w. table_at p ids ks ms 5 (nds, w)) \<and>
      map snd (snd u) = replicate (length ids) (Return (tally (seat_claims ms (length ids) folded [0..<length ids])))"
    if cr: "cards_run G K p ids ks rnds folded (\<lambda>_. New) nds u" for nds u
  proof -
    obtain s1 nds1 s2 a b c where run: "finishes ?sh s1" "returns ids s1 nds1" "finishes (deal_net ids nds1 (fst s1)) s2"
      "street ids RevealFlop (with_deal ids s2 nds1, fst s2) a" "street ids RevealTurn a b" "street ids RevealRiver b c"
      "fst c = nds" "finishes (show_net K ids nds folded (snd c)) u"
      using cr unfolding cards_run_def by (elim exE conjE) (rule that)
    have "table_at p ids ks ms 5 c"
      by (rule streets_phase(2) [OF t n deal(2) [OF run(1) run(1) run(2, 3)] run(4-6)])
    then show ?thesis using last(2) [of c u] run(7, 8) by (metis prod.collapse)
  qed
  with t show "\<exists>ms. dealt_table p ids ks ms \<and> (\<forall>nds t. cards_run G K p ids ks rnds folded (\<lambda>_. New) nds t \<longrightarrow>
       (\<exists>w. table_at p ids ks ms 5 (nds, w)) \<and>
       map snd (snd t) = replicate (length ids) (Return (tally (seat_claims ms (length ids) folded [0..<length ids]))))" by blast
qed

end
